(* ===== verification/Prelude.thy ===== *)
theory Prelude
  imports Main "HOL-Library.Word" "HOL-Library.Signed_Division"
begin

unbundle bit_operations_syntax

section \<open>Shared types, collections and lemmas\<close>

text \<open>
  What every component of the development uses: names for the machine integers of the C++
  sources, the simplification collections the component theories extend, and generic facts on
  words, bits and lists.
\<close>

type_synonym u8 = "8 word"
type_synonym u16 = "16 word"
type_synonym u32 = "32 word"
type_synonym u64 = "64 word"
type_synonym byte = "8 word"
type_synonym bytes = "8 word list"

named_theorems limb_simps \<open>values of the limb operations of arith_uint256\<close>
named_theorems wf_intros \<open>well-formedness of the results of operations\<close>

subsection \<open>Words\<close>

lemma unat_ucast_up:
  fixes x :: "'a::len word"
  assumes "LENGTH('a) \<le> LENGTH('b::len)"
  shows "unat (ucast x :: 'b word) = unat x"
proof -
  have "unat x < 2 ^ LENGTH('a)" by (rule unsigned_less)
  also have "\<dots> \<le> 2 ^ LENGTH('b)" using assms by simp
  finally show ?thesis by (simp add: unsigned_ucast_eq take_bit_nat_eq_self)
qed

lemma unat_ucast_mod: "unat (ucast (x::'a::len word) :: 'b::len word) = unat x mod 2 ^ LENGTH('b)"
  by (simp add: unsigned_ucast_eq take_bit_eq_mod)

lemma unat_u32_less: "unat (x::u32) < 4294967296"
  using unsigned_less [of x, where ?'a = nat] by simp

lemma unat_u64_less: "unat (x::u64) < 18446744073709551616"
  using unsigned_less [of x, where ?'a = nat] by simp

lemma unat_u8_less: "unat (x::u8) < 256"
  using unsigned_less [of x, where ?'a = nat] by simp

lemma u64_low32: "unat ((x::u64) AND 0xffffffff) = unat x mod 2 ^ 32"
proof -
  have "(0xffffffff :: u64) = mask 32" by (simp add: mask_eq_exp_minus_1)
  then have "x AND 0xffffffff = take_bit 32 x" by (simp add: take_bit_eq_mask)
  then show ?thesis by (simp only: unsigned_take_bit_eq take_bit_eq_mod [where ?'a = nat])
qed

lemma u64_high32: "unat (drop_bit 32 (x::u64)) = unat x div 2 ^ 32"
  by (simp only: unat_drop_bit_eq drop_bit_eq_div [where ?'a = nat])

lemma u32_mult_bound: "unat (x::u32) * unat (y::u32) \<le> 18446744065119617025"
proof -
  have "unat x \<le> 4294967295" "unat y \<le> 4294967295"
    using unat_u32_less [of x] unat_u32_less [of y] by linarith+
  then have "unat x * unat y \<le> 4294967295 * 4294967295" by (rule mult_le_mono)
  then show ?thesis by simp
qed

lemma unat_add_u64: "unat a + unat b < 18446744073709551616 \<Longrightarrow> unat ((a::u64) + b) = unat a + unat b"
  using unat_add_lem [of a b] by simp

lemma u64_mult_u32: "unat (ucast (x::u32) * ucast (y::u32) :: u64) = unat x * unat y"
proof -
  have "unat x * unat y < 18446744073709551616" using u32_mult_bound [of x y] by linarith
  then show ?thesis using unat_mult_lem [of "ucast x :: u64" "ucast y"] by (simp add: unat_ucast_up)
qed

lemma u64_mac:
  assumes "unat c < 4294967296" and "unat d < 4294967296"
  shows "unat (c + d + ucast (x::u32) * ucast (y::u32) :: u64) = unat c + unat d + unat x * unat y"
proof -
  note b = u32_mult_bound [of x y] assms
  have "unat (c + d) = unat c + unat d" using b by (intro unat_add_u64) linarith
  moreover have "unat (c + d + ucast x * ucast y) = unat (c + d) + unat (ucast x * ucast y :: u64)"
    using b calculation u64_mult_u32 [of x y] by (intro unat_add_u64) linarith
  ultimately show ?thesis by (simp only: u64_mult_u32)
qed

text \<open>The bits of a number split at position \<open>k\<close>.\<close>

lemma bit_add_mult_exp:
  fixes x v :: nat
  assumes "x < 2 ^ k"
  shows "bit (x + 2 ^ k * v) n \<longleftrightarrow> (if n < k then bit x n else bit v (n - k))"
proof (cases "n < k")
  case True
  have "take_bit k (x + 2 ^ k * v) = x" using assms by (simp add: take_bit_eq_mod)
  then have "bit x n \<longleftrightarrow> bit (take_bit k (x + 2 ^ k * v)) n" by simp
  then show ?thesis using True by (simp add: bit_take_bit_iff)
next
  case False
  have "drop_bit k (x + 2 ^ k * v) = v" using assms by (simp add: drop_bit_eq_div)
  then have "bit v (n - k) \<longleftrightarrow> bit (drop_bit k (x + 2 ^ k * v)) (n - k)" by simp
  then show ?thesis using False by (simp add: bit_drop_bit_eq)
qed

lemma bit_top_cases:
  fixes u :: nat
  assumes "u < 2 ^ Suc k"
  shows "bit u k \<Longrightarrow> 2 ^ k \<le> u" and "\<not> bit u k \<Longrightarrow> u < 2 ^ k"
proof -
  have "u = take_bit (Suc k) u" using assms by (simp only: take_bit_nat_eq_self)
  then have u: "u = 2 ^ k * of_bool (bit u k) + take_bit k u"
    by (simp only: take_bit_Suc_from_most)
  show "bit u k \<Longrightarrow> 2 ^ k \<le> u"
  proof -
    assume "bit u k"
    then have "u = 2 ^ k + take_bit k u" using u by simp
    then show ?thesis using le_add1 [of "2 ^ k" "take_bit k u"] by simp
  qed
  show "u < 2 ^ k" if "\<not> bit u k"
  proof -
    have "u = take_bit k u" using u that by simp
    then show ?thesis using take_bit_nat_less_exp [of k u] by simp
  qed
qed

lemma not_bit_ge: "(u::nat) < 2 ^ k \<Longrightarrow> k \<le> n \<Longrightarrow> \<not> bit u n"
  by (metis bit_take_bit_iff take_bit_nat_eq_self not_less)

end
