(* ===== verification/Arith_Uint256.thy ===== *)
theory Arith_Uint256
  imports Prelude
begin

section \<open>256-bit unsigned integers (arith_uint256.h, arith_uint256.cpp)\<close>

text \<open>
  The class \<open>base_uint<256>\<close> holds its number in the array \<open>pn\<close> of eight 32-bit limbs, the
  least significant first. A value is modelled by the list of its limbs, and each operator by the
  loop over the limbs that the source runs, at the source's widths: a 64-bit intermediate \<open>n\<close>
  whose low half becomes a limb and whose high half is the carry.
\<close>

type_synonym base_uint = "u32 list"

definition WIDTH :: nat where
  "WIDTH = 8"

definition wf_uint :: "base_uint \<Rightarrow> bool" where
  "wf_uint a \<longleftrightarrow> length a = WIDTH"

subsection \<open>Operators\<close>

definition uint_zero :: base_uint where
  "uint_zero = replicate WIDTH 0"

definition uint_of_u64 :: "u64 \<Rightarrow> base_uint" where
  "uint_of_u64 b = [ucast b, ucast (drop_bit 32 b)] @ replicate (WIDTH - 2) 0"

definition uint_not :: "base_uint \<Rightarrow> base_uint" where
  "uint_not a = map (\<lambda>x. NOT x) a"

fun uint_inc :: "base_uint \<Rightarrow> base_uint" where
  "uint_inc [] = []"
| "uint_inc (x # xs) = (let x' = x + 1 in if x' = 0 then x' # uint_inc xs else x' # xs)"

fun uint_dec :: "base_uint \<Rightarrow> base_uint" where
  "uint_dec [] = []"
| "uint_dec (x # xs) = (let x' = x - 1 in if x' = 0xffffffff then x' # uint_dec xs else x' # xs)"

definition uint_neg :: "base_uint \<Rightarrow> base_uint" where
  "uint_neg a = uint_inc (map (\<lambda>x. NOT x) a)"

definition uint_xor :: "base_uint \<Rightarrow> base_uint \<Rightarrow> base_uint" where
  "uint_xor a b = map2 (\<lambda>x y. x XOR y) a b"

definition uint_and :: "base_uint \<Rightarrow> base_uint \<Rightarrow> base_uint" where
  "uint_and a b = map2 (\<lambda>x y. x AND y) a b"

definition uint_or :: "base_uint \<Rightarrow> base_uint \<Rightarrow> base_uint" where
  "uint_or a b = map2 (\<lambda>x y. x OR y) a b"

fun add_loop :: "u64 \<Rightarrow> base_uint \<Rightarrow> base_uint \<Rightarrow> base_uint" where
  "add_loop carry (x # xs) (y # ys) =
     (let n = carry + ucast x + ucast y
      in ucast (n AND 0xffffffff) # add_loop (drop_bit 32 n) xs ys)"
| "add_loop carry xs ys = []"

definition uint_add :: "base_uint \<Rightarrow> base_uint \<Rightarrow> base_uint" where
  "uint_add a b = add_loop 0 a b"

definition uint_sub :: "base_uint \<Rightarrow> base_uint \<Rightarrow> base_uint" where
  "uint_sub a b = uint_add a (uint_neg b)"

fun mul32_loop :: "u64 \<Rightarrow> u32 \<Rightarrow> base_uint \<Rightarrow> base_uint" where
  "mul32_loop carry b32 [] = []"
| "mul32_loop carry b32 (x # xs) =
     (let n = carry + ucast b32 * ucast x
      in ucast (n AND 0xffffffff) # mul32_loop (drop_bit 32 n) b32 xs)"

definition uint_mul32 :: "base_uint \<Rightarrow> u32 \<Rightarrow> base_uint" where
  "uint_mul32 a b32 = mul32_loop 0 b32 a"

text \<open>
  The inner loop of the full product adds \<open>pn[j] * b\<close> into the limbs of \<open>a\<close> from index \<open>j\<close> up;
  it stops at the end of \<open>a\<close> (\<open>i + j < WIDTH\<close>).
\<close>

fun mul_row :: "u64 \<Rightarrow> u32 \<Rightarrow> base_uint \<Rightarrow> base_uint \<Rightarrow> base_uint" where
  "mul_row carry p (x # xs) (y # ys) =
     (let n = carry + ucast x + ucast p * ucast y
      in ucast (n AND 0xffffffff) # mul_row (drop_bit 32 n) p xs ys)"
| "mul_row carry p xs ys = []"

definition uint_mul :: "base_uint \<Rightarrow> base_uint \<Rightarrow> base_uint" where
  "uint_mul pn b =
     fold (\<lambda>j a. take j a @ mul_row 0 (pn ! j) (drop j a) b) [0..<WIDTH] uint_zero"

definition shl_step :: "base_uint \<Rightarrow> nat \<Rightarrow> nat \<Rightarrow> nat \<Rightarrow> base_uint \<Rightarrow> base_uint" where
  "shl_step a k s i pn =
     (let pn1 = (if i + k + 1 < WIDTH \<and> s \<noteq> 0
                 then pn[i + k + 1 := pn ! (i + k + 1) OR drop_bit (32 - s) (a ! i)] else pn)
      in if i + k < WIDTH then pn1[i + k := pn1 ! (i + k) OR push_bit s (a ! i)] else pn1)"

definition uint_shl :: "base_uint \<Rightarrow> nat \<Rightarrow> base_uint" where
  "uint_shl a shift = fold (shl_step a (shift div 32) (shift mod 32)) [0..<WIDTH] uint_zero"

definition shr_step :: "base_uint \<Rightarrow> nat \<Rightarrow> nat \<Rightarrow> nat \<Rightarrow> base_uint \<Rightarrow> base_uint" where
  "shr_step a k s i pn =
     (let pn1 = (if k + 1 \<le> i \<and> s \<noteq> 0
                 then pn[i - k - 1 := pn ! (i - k - 1) OR push_bit (32 - s) (a ! i)] else pn)
      in if k \<le> i then pn1[i - k := pn1 ! (i - k) OR drop_bit s (a ! i)] else pn1)"

definition uint_shr :: "base_uint \<Rightarrow> nat \<Rightarrow> base_uint" where
  "uint_shr a shift = fold (shr_step a (shift div 32) (shift mod 32)) [0..<WIDTH] uint_zero"

text \<open>\<open>CompareTo\<close> walks from the most significant limb down.\<close>

fun compare_down :: "base_uint \<Rightarrow> base_uint \<Rightarrow> int" where
  "compare_down (x # xs) (y # ys) =
     (if x < y then -1 else if x > y then 1 else compare_down xs ys)"
| "compare_down xs ys = 0"

definition CompareTo :: "base_uint \<Rightarrow> base_uint \<Rightarrow> int" where
  "CompareTo a b = compare_down (rev a) (rev b)"

definition EqualTo :: "base_uint \<Rightarrow> u64 \<Rightarrow> bool" where
  "EqualTo a b =
     (if list_ex (\<lambda>i. a ! i \<noteq> 0) (rev [2..<WIDTH]) then False
      else if ucast (a ! 1) \<noteq> drop_bit 32 b then False
      else if ucast (a ! 0) \<noteq> b AND 0xffffffff then False
      else True)"

text \<open>\<open>bits\<close>: the topmost non-zero limb, and in it the topmost set bit.\<close>

fun limb_bits :: "nat \<Rightarrow> u32 \<Rightarrow> nat" where
  "limb_bits 0 x = 1"
| "limb_bits (Suc nbits) x = (if x AND push_bit (Suc nbits) 1 \<noteq> 0 then Suc nbits + 1 else limb_bits nbits x)"

fun bits_down :: "base_uint \<Rightarrow> nat \<Rightarrow> nat" where
  "bits_down a 0 = 0"
| "bits_down a (Suc pos) =
     (if a ! pos \<noteq> 0 then 32 * pos + limb_bits 31 (a ! pos) else bits_down a pos)"

definition uint_bits :: "base_uint \<Rightarrow> nat" where
  "uint_bits a = bits_down a WIDTH"

definition GetLow64 :: "base_uint \<Rightarrow> u64" where
  "GetLow64 a = ucast (a ! 0) OR push_bit 32 (ucast (a ! 1))"

text \<open>
  Long division: \<open>div\<close> is aligned with \<open>num\<close> and shifted back one bit per turn; the loop runs
  for \<open>shift\<close> down to 0. Division by zero throws \<open>uint_error\<close>, modelled as \<open>None\<close>.
\<close>

fun div_loop :: "nat \<Rightarrow> base_uint \<Rightarrow> base_uint \<Rightarrow> base_uint \<Rightarrow> base_uint \<times> base_uint" where
  "div_loop n num dv q =
     (let (num', q') =
            (if CompareTo num dv \<ge> 0
             then (uint_sub num dv, q[n div 32 := q ! (n div 32) OR push_bit (n mod 32) 1])
             else (num, q));
          dv' = uint_shr dv 1
      in case n of 0 \<Rightarrow> (num', q') | Suc m \<Rightarrow> div_loop m num' dv' q')"

definition uint_div :: "base_uint \<Rightarrow> base_uint \<Rightarrow> base_uint option" where
  "uint_div a b =
     (let num_bits = uint_bits a; div_bits = uint_bits b
      in if div_bits = 0 then None
         else if div_bits > num_bits then Some uint_zero
         else let shift = num_bits - div_bits
              in Some (snd (div_loop shift a (uint_shl b shift) uint_zero)))"


declare div_loop.simps [simp del]

subsection \<open>The number a limb list denotes\<close>

fun uval :: "base_uint \<Rightarrow> nat" where
  "uval [] = 0"
| "uval (x # xs) = unat x + 2 ^ 32 * uval xs"

lemma uval_less: "uval a < 2 ^ (32 * length a)"
proof (induction a)
  case Nil
  then show ?case by simp
next
  case (Cons x xs)
  have "uval xs + 1 \<le> 2 ^ (32 * length xs)" using Cons by simp
  then have "2 ^ 32 * (uval xs + 1) \<le> 2 ^ 32 * 2 ^ (32 * length xs)" by (rule mult_le_mono2)
  moreover have "unat x < 2 ^ 32" using unat_u32_less [of x] by simp
  ultimately show ?case by (simp add: power_add)
qed

lemma uval_append: "uval (xs @ ys) = uval xs + 2 ^ (32 * length xs) * uval ys"
  by (induction xs) (simp_all add: power_add algebra_simps)

lemma uval_inject: "length a = length b \<Longrightarrow> uval a = uval b \<Longrightarrow> a = b"
proof (induction a b rule: list_induct2)
  case Nil
  then show ?case by simp
next
  case (Cons x xs y ys)
  have "unat x + 2 ^ 32 * uval xs = unat y + 2 ^ 32 * uval ys" using Cons.prems by simp
  then have "(unat x + 2 ^ 32 * uval xs) mod 2 ^ 32 = (unat y + 2 ^ 32 * uval ys) mod 2 ^ 32"
    by (rule arg_cong)
  then have "unat x = unat y"
    using unat_u32_less [of x] unat_u32_less [of y] by (simp only: mod_mult_self2) simp
  then show ?case using Cons.prems Cons.IH by (simp add: word_unat_eq_iff)
qed

lemma uval_replicate_0 [simp]: "uval (replicate n 0) = 0"
  by (induction n) simp_all

text \<open>The carry step every limb loop takes: low half kept, high half carried on.\<close>

lemma carry_step:
  "unat (ucast ((n::u64) AND 0xffffffff) :: u32) + 2 ^ 32 * unat (drop_bit 32 n) = unat n"
  by (simp only: unat_ucast_mod u64_low32 u64_high32) simp

lemma uval_carry_Cons:
  fixes n :: u64
  assumes n: "unat n = s" and r: "uval rest = (unat (drop_bit 32 n) + r) mod 2 ^ (32 * k)"
  shows "uval (ucast (n AND 0xffffffff) # rest) = (s + 2 ^ 32 * r) mod 2 ^ (32 * Suc k)"
proof -
  define lo where "lo = unat (ucast (n AND 0xffffffff) :: u32)"
  define hi where "hi = unat (drop_bit 32 n)"
  have lo: "lo < 2 ^ 32" using unat_u32_less by (simp add: lo_def)
  have "s = lo + 2 ^ 32 * hi" unfolding lo_def hi_def using carry_step [of n] n by simp
  then have "s + 2 ^ 32 * r = lo + 2 ^ 32 * (hi + r)" by (simp add: algebra_simps)
  then have "(s + 2 ^ 32 * r) mod 2 ^ (32 * Suc k) =
      2 ^ 32 * ((lo + 2 ^ 32 * (hi + r)) div 2 ^ 32 mod 2 ^ (32 * k)) + (lo + 2 ^ 32 * (hi + r)) mod 2 ^ 32"
    by (simp only: mult_Suc_right power_add mod_mult2_eq)
  also have "\<dots> = 2 ^ 32 * ((hi + r) mod 2 ^ (32 * k)) + lo"
    using lo by (simp only: div_mult_self4 mod_mult_self4 div_mult_self2 mod_mult_self2 div_less mod_less) simp
  finally show ?thesis using r by (simp add: lo_def hi_def)
qed

lemma length_add_loop [simp]: "length (add_loop c a b) = min (length a) (length b)"
  by (induction c a b rule: add_loop.induct) (simp_all add: Let_def)

lemma length_mul32_loop [simp]: "length (mul32_loop c b a) = length a"
  by (induction c b a rule: mul32_loop.induct) (simp_all add: Let_def)

lemma length_mul_row [simp]: "length (mul_row c p a b) = min (length a) (length b)"
  by (induction c p a b rule: mul_row.induct) (simp_all add: Let_def)

lemma add_loop_value:
  "length a = length b \<Longrightarrow> unat c \<le> 1 \<Longrightarrow>
     uval (add_loop c a b) = (unat c + uval a + uval b) mod 2 ^ (32 * length a)"
proof (induction a b arbitrary: c rule: list_induct2)
  case Nil
  then show ?case by simp
next
  case (Cons x xs y ys)
  let ?n = "c + ucast x + ucast y :: u64"
  note b = unat_u32_less [of x] unat_u32_less [of y]
  have n: "unat ?n = unat c + unat x + unat y"
    using Cons.prems b by (simp add: unat_add_u64 unat_ucast_up)
  have "unat (drop_bit 32 ?n) \<le> 1"
    using n Cons.prems b by (simp only: u64_high32) simp
  from Cons.IH [OF this]
  have "uval (add_loop (drop_bit 32 ?n) xs ys) =
      (unat (drop_bit 32 ?n) + (uval xs + uval ys)) mod 2 ^ (32 * length xs)"
    by (simp add: add.assoc)
  from uval_carry_Cons [OF n this] show ?case by (simp add: Let_def algebra_simps)
qed

lemma mul32_loop_value:
  "unat c < 2 ^ 32 \<Longrightarrow>
     uval (mul32_loop c b a) = (unat c + unat b * uval a) mod 2 ^ (32 * length a)"
proof (induction a arbitrary: c)
  case Nil
  then show ?case by simp
next
  case (Cons x xs)
  let ?n = "c + ucast b * ucast x :: u64"
  have n: "unat ?n = unat c + unat b * unat x"
    using u64_mac [of c 0 b x] Cons.prems by simp
  have "unat ?n < 2 ^ 64" using unat_u64_less by simp
  then have "unat (drop_bit 32 ?n) < 2 ^ 32" by (simp only: u64_high32) simp
  from Cons.IH [OF this] 
  have "uval (mul32_loop (drop_bit 32 ?n) b xs) =
      (unat (drop_bit 32 ?n) + unat b * uval xs) mod 2 ^ (32 * length xs)" .
  from uval_carry_Cons [OF n this] show ?case by (simp add: Let_def algebra_simps)
qed

lemma mul_row_value:
  "length a \<le> length b \<Longrightarrow> unat c < 2 ^ 32 \<Longrightarrow>
     uval (mul_row c p a b) = (unat c + uval a + unat p * uval b) mod 2 ^ (32 * length a)"
proof (induction a arbitrary: c b)
  case Nil
  then show ?case by simp
next
  case (Cons x xs)
  from Cons.prems obtain y ys where b: "b = y # ys" "length xs \<le> length ys" by (cases b) auto
  let ?n = "c + ucast x + ucast p * ucast y :: u64"
  have n: "unat ?n = unat c + unat x + unat p * unat y"
    using u64_mac [of c "ucast x" p y] Cons.prems unat_u32_less [of x] by (simp add: unat_ucast_up)
  have "unat ?n < 2 ^ 64" using unat_u64_less by simp
  then have "unat (drop_bit 32 ?n) < 2 ^ 32" by (simp only: u64_high32) simp
  from Cons.IH [OF b(2) this] 
  have "uval (mul_row (drop_bit 32 ?n) p xs ys) =
      (unat (drop_bit 32 ?n) + (uval xs + unat p * uval ys)) mod 2 ^ (32 * length xs)"
    by (simp add: add.assoc)
  from uval_carry_Cons [OF n this] show ?case by (simp add: b Let_def algebra_simps)
qed

subsection \<open>Negation and subtraction\<close>

lemma length_uint_inc [simp]: "length (uint_inc a) = length a"
  by (induction a rule: uint_inc.induct) (simp_all add: Let_def)

lemma uint_inc_value: "uval (uint_inc a) = (uval a + 1) mod 2 ^ (32 * length a)"
proof (induction a)
  case Nil
  then show ?case by simp
next
  case (Cons x xs)
  show ?case
  proof (cases "x + 1 = 0")
    case True
    then have "unat x + 1 = 2 ^ 32"
      using unat_plus_if' [of x 1] by (simp split: if_splits)
    then have "uval (x # xs) + 1 = 2 ^ 32 * (uval xs + 1)" by simp
    then have "(uval (x # xs) + 1) mod 2 ^ (32 * length (x # xs)) =
        2 ^ 32 * ((uval xs + 1) mod 2 ^ (32 * length xs))"
      by (simp only: length_Cons mult_Suc_right power_add mod_mult_mult1)
    then show ?thesis using True Cons by (simp add: Let_def)
  next
    case False
    then have "unat (x + 1) = unat x + 1" by (simp add: unatSuc add.commute)
    moreover from this have "uval ((x + 1) # xs) = uval (x # xs) + 1" by simp
    ultimately show ?thesis
      using False uval_less [of "(x + 1) # xs"] by (simp add: Let_def)
  qed
qed

lemma uint_not_value: "uval (map (\<lambda>x. NOT x) a) + uval a + 1 = 2 ^ (32 * length a)"
proof (induction a)
  case Nil
  then show ?case by simp
next
  case (Cons x xs)
  have "unat (NOT x) + unat x + 1 = 2 ^ 32"
  proof -
    have "NOT x = - x - 1" by (simp add: not_eq_complement)
    then have "NOT x = - 1 - x" by simp
    moreover have "x \<le> - 1" by simp
    ultimately have "unat (NOT x) = unat (- 1 :: u32) - unat x" by (simp add: unat_sub)
    then show ?thesis
      using unat_u32_less [of x] by (simp add: unsigned_minus_1_eq_mask mask_eq_exp_minus_1)
  qed
  then have "uval (map (\<lambda>x. NOT x) (x # xs)) + uval (x # xs) + 1 =
      2 ^ 32 * (uval (map (\<lambda>x. NOT x) xs) + uval xs + 1)" by simp
  then show ?case using Cons by (simp add: power_add)
qed

lemma uint_neg_value: "uval (uint_neg a) = (2 ^ (32 * length a) - uval a) mod 2 ^ (32 * length a)"
proof -
  have "2 ^ (32 * length a) - uval a = uval (map (\<lambda>x. NOT x) a) + 1"
    using uint_not_value [of a] by linarith
  then show ?thesis by (simp only: uint_neg_def uint_inc_value length_map)
qed

lemma length_uint_ops [simp]:
  "length (uint_neg a) = length a"
  "length (uint_add a b) = min (length a) (length b)"
  "length (uint_sub a b) = min (length a) (length b)"
  "length (uint_mul32 a c) = length a"
  "length (uint_not a) = length a"
  by (simp_all add: uint_neg_def uint_add_def uint_sub_def uint_mul32_def uint_not_def)

lemma uint_add_value:
  "length a = length b \<Longrightarrow> uval (uint_add a b) = (uval a + uval b) mod 2 ^ (32 * length a)"
  by (simp add: uint_add_def add_loop_value)

lemma uint_mul32_value:
  "uval (uint_mul32 a c) = (uval a * unat c) mod 2 ^ (32 * length a)"
  by (simp add: uint_mul32_def mul32_loop_value mult.commute)

lemma uint_sub_value:
  assumes "length a = length b"
  shows "uval (uint_sub a b) =
    (if uval b \<le> uval a then uval a - uval b else uval a + 2 ^ (32 * length a) - uval b)"
proof -
  let ?m = "2 ^ (32 * length a) :: nat"
  have lt: "uval a < ?m" "uval b < ?m" using uval_less [of a] uval_less [of b] assms by simp_all
  have "uval (uint_sub a b) = (uval a + (?m - uval b)) mod ?m"
    using assms by (simp add: uint_sub_def uint_add_value uint_neg_value mod_add_right_eq)
  also have "\<dots> = (if uval b \<le> uval a then uval a - uval b else uval a + ?m - uval b)"
  proof (cases "uval b \<le> uval a")
    case True
    then have "uval a + (?m - uval b) = (uval a - uval b) + ?m" using lt by simp
    then have "(uval a + (?m - uval b)) mod ?m = (uval a - uval b) mod ?m"
      by (simp only: mod_add_self2)
    then show ?thesis using True lt by simp
  next
    case False
    then have "uval a + (?m - uval b) < ?m" using lt by simp
    then show ?thesis using False lt by simp
  qed
  finally show ?thesis .
qed

subsection \<open>The full product\<close>

lemma uint_mul_inv:
  assumes pn: "length pn = WIDTH" and b: "length b = WIDTH" and "n \<le> WIDTH"
  shows "length (fold (\<lambda>j a. take j a @ mul_row 0 (pn ! j) (drop j a) b) [0..<n] uint_zero) = WIDTH \<and>
    uval (fold (\<lambda>j a. take j a @ mul_row 0 (pn ! j) (drop j a) b) [0..<n] uint_zero) =
      (uval (take n pn) * uval b) mod 2 ^ (32 * WIDTH)"
  using assms(3)
proof (induction n)
  case 0
  then show ?case by (simp add: uint_zero_def)
next
  case (Suc n)
  define a where "a = fold (\<lambda>j a. take j a @ mul_row 0 (pn ! j) (drop j a) b) [0..<n] uint_zero"
  define a' where "a' = take n a @ mul_row 0 (pn ! n) (drop n a) b"
  have la: "length a = WIDTH" and va: "uval a = (uval (take n pn) * uval b) mod 2 ^ (32 * WIDTH)"
    using Suc a_def by simp_all
  have n: "n < WIDTH" using Suc.prems by simp
  have fold: "fold (\<lambda>j a. take j a @ mul_row 0 (pn ! j) (drop j a) b) [0..<Suc n] uint_zero = a'"
    by (simp add: a_def a'_def)
  have la': "length a' = WIDTH" using la b n by (simp add: a'_def)
  have W: "(2::nat) ^ (32 * WIDTH) = 2 ^ (32 * n) * 2 ^ (32 * (WIDTH - n))"
    using n by (simp flip: power_add add: algebra_simps)
  have ta: "uval a = uval (take n a) + 2 ^ (32 * n) * uval (drop n a)"
    using uval_append [of "take n a" "drop n a"] la n by simp
  have tlt: "uval (take n a) < 2 ^ (32 * n)" using uval_less [of "take n a"] la n by simp
  have "uval a' = uval (take n a) +
      2 ^ (32 * n) * ((uval (drop n a) + unat (pn ! n) * uval b) mod 2 ^ (32 * (WIDTH - n)))"
    using la b n by (simp add: a'_def uval_append mul_row_value)
  also have "\<dots> = (uval a + 2 ^ (32 * n) * (unat (pn ! n) * uval b)) mod 2 ^ (32 * WIDTH)"
  proof -
    have "(uval a + 2 ^ (32 * n) * (unat (pn ! n) * uval b)) =
        uval (take n a) + 2 ^ (32 * n) * (uval (drop n a) + unat (pn ! n) * uval b)"
      using ta by (simp add: algebra_simps)
    then show ?thesis using tlt by (simp only: W mod_mult2_eq) simp
  qed
  also have "\<dots> = ((uval (take n pn) + 2 ^ (32 * n) * unat (pn ! n)) * uval b) mod 2 ^ (32 * WIDTH)"
    unfolding va by (subst mod_add_left_eq) (simp add: algebra_simps)
  also have "uval (take n pn) + 2 ^ (32 * n) * unat (pn ! n) = uval (take (Suc n) pn)"
    using pn n by (simp add: take_Suc_conv_app_nth uval_append)
  finally show ?case using fold la' by simp
qed

lemma uint_mul_value:
  assumes "wf_uint a" and "wf_uint b"
  shows "uval (uint_mul a b) = (uval a * uval b) mod 2 ^ 256" and "length (uint_mul a b) = WIDTH"
  using uint_mul_inv [of a b WIDTH] assms by (simp_all add: uint_mul_def wf_uint_def WIDTH_def)

subsection \<open>Bits and shifts\<close>

lemma bit_uval:
  "bit (uval a) n \<longleftrightarrow> n div 32 < length a \<and> bit (a ! (n div 32)) (n mod 32)"
proof (induction a arbitrary: n)
  case Nil
  then show ?case by simp
next
  case (Cons x xs)
  have b: "bit (uval (x # xs)) n \<longleftrightarrow> (if n < 32 then bit (unat x) n else bit (uval xs) (n - 32))"
    using unat_u32_less [of x] by (simp only: uval.simps) (rule bit_add_mult_exp, simp)
  show ?case
  proof (cases "n < 32")
    case True
    then show ?thesis using b by (simp add: bit_unsigned_iff)
  next
    case False
    then have "n div 32 = Suc ((n - 32) div 32)" and "n mod 32 = (n - 32) mod 32"
      by (simp_all add: div_if mod_if [of n])
    then show ?thesis using b False Cons by simp
  qed
qed

lemma bit_uval_at:
  "t < 32 \<Longrightarrow> bit (uval a) (32 * m + t) \<longleftrightarrow> m < length a \<and> bit (a ! m) t"
  by (simp add: bit_uval)

definition shl_limb :: "base_uint \<Rightarrow> nat \<Rightarrow> nat \<Rightarrow> nat \<Rightarrow> nat \<Rightarrow> u32" where
  "shl_limb a k s t m =
     ((if k \<le> m \<and> m - k < t then push_bit s (a ! (m - k)) else 0) OR
      (if k + 1 \<le> m \<and> m - k - 1 < t \<and> s \<noteq> 0 then drop_bit (32 - s) (a ! (m - k - 1)) else 0))"

lemma shl_fold:
  assumes "t \<le> WIDTH"
  shows "fold (shl_step a k s) [0..<t] uint_zero = map (shl_limb a k s t) [0..<WIDTH]"
  using assms
proof (induction t)
  case 0
  then show ?case by (intro nth_equalityI) (simp_all add: uint_zero_def shl_limb_def)
next
  case (Suc t)
  have "shl_step a k s t (map (shl_limb a k s t) [0..<WIDTH]) = map (shl_limb a k s (Suc t)) [0..<WIDTH]"
  proof (intro nth_equalityI)
    fix m
    assume "m < length (shl_step a k s t (map (shl_limb a k s t) [0..<WIDTH]))"
    then have m: "m < WIDTH" by (simp add: shl_step_def Let_def split: if_splits)
    consider "m = t + k" | "m = t + k + 1" | "m \<noteq> t + k" "m \<noteq> t + k + 1" by blast
    then show "shl_step a k s t (map (shl_limb a k s t) [0..<WIDTH]) ! m = map (shl_limb a k s (Suc t)) [0..<WIDTH] ! m"
    proof cases
      case 1
      then show ?thesis using m
        by (auto simp: shl_step_def Let_def shl_limb_def or.commute or.left_commute less_Suc_eq)
    next
      case 2
      then show ?thesis using m
        by (auto simp: shl_step_def Let_def shl_limb_def or.commute or.left_commute less_Suc_eq)
    next
      case 3
      then have "(k \<le> m \<and> m - k < Suc t) = (k \<le> m \<and> m - k < t)"
        and "(k + 1 \<le> m \<and> m - k - 1 < Suc t \<and> s \<noteq> 0) = (k + 1 \<le> m \<and> m - k - 1 < t \<and> s \<noteq> 0)" by auto
      then have "shl_limb a k s (Suc t) m = shl_limb a k s t m" unfolding shl_limb_def by (simp only:)
      then show ?thesis using m 3 by (simp add: shl_step_def Let_def)
    qed
  qed (simp add: shl_step_def Let_def)
  then show ?case using Suc by simp
qed

lemma length_uint_shl [simp]: "length (uint_shl a n) = WIDTH"
  by (simp add: uint_shl_def shl_fold)

lemma bit_uint_shl:
  assumes "wf_uint a"
  shows "bit (uval (uint_shl a sh)) n \<longleftrightarrow> n < 256 \<and> sh \<le> n \<and> bit (uval a) (n - sh)"
proof (cases "n < 256")
  case False
  then have "\<not> n div 32 < 8" by simp
  then show ?thesis using False by (simp only: bit_uval length_uint_shl WIDTH_def simp_thms)
next
  case True
  define m t k s where "m = n div 32" and "t = n mod 32" and "k = sh div 32" and "s = sh mod 32"
  have n: "n = 32 * m + t" "t < 32" and sh: "sh = 32 * k + s" "s < 32"
    by (simp_all add: m_def t_def k_def s_def)
  have m: "m < 8" using True n by simp
  have "bit (uval (uint_shl a sh)) n \<longleftrightarrow> bit (shl_limb a k s WIDTH m) t"
    using m by (simp add: bit_uval m_def [symmetric] t_def [symmetric] k_def [symmetric] s_def [symmetric]
        uint_shl_def shl_fold WIDTH_def)
  also have "\<dots> \<longleftrightarrow> (k \<le> m \<and> s \<le> t \<and> bit (a ! (m - k)) (t - s)) \<or>
      (k + 1 \<le> m \<and> t < s \<and> bit (a ! (m - k - 1)) (32 + t - s))"
    using m n(2) sh(2) assms
    by (auto simp: shl_limb_def bit_or_iff bit_push_bit_iff bit_drop_bit_eq WIDTH_def wf_uint_def
        dest: bit_imp_le_length)
  also have "\<dots> \<longleftrightarrow> sh \<le> n \<and> bit (uval a) (n - sh)"
  proof (cases "s \<le> t")
    case True
    then have le: "sh \<le> n \<longleftrightarrow> k \<le> m" using n sh by auto
    have "bit (uval a) (n - sh) \<longleftrightarrow> bit (a ! (m - k)) (t - s)" if "k \<le> m"
    proof -
      have "n - sh = 32 * (m - k) + (t - s)" using that True n sh by (simp add: diff_mult_distrib2)
      moreover have "t - s < 32" "m - k < length a" using n(2) m assms by (simp_all add: wf_uint_def WIDTH_def)
      ultimately show ?thesis by (simp only: bit_uval_at simp_thms)
    qed
    then show ?thesis using le True by auto
  next
    case False
    then have le: "sh \<le> n \<longleftrightarrow> k + 1 \<le> m" using n sh by auto
    have "bit (uval a) (n - sh) \<longleftrightarrow> bit (a ! (m - k - 1)) (32 + t - s)" if "k + 1 \<le> m"
    proof -
      from that obtain d where "m = k + 1 + d" using le_Suc_ex by blast
      then have "n - sh = 32 * (m - k - 1) + (32 + t - s)" using False n sh by simp
      moreover have "32 + t - s < 32" "m - k - 1 < length a"
        using False m assms by (simp_all add: wf_uint_def WIDTH_def)
      ultimately show ?thesis by (simp only: bit_uval_at simp_thms)
    qed
    then show ?thesis using le False by auto
  qed
  finally show ?thesis using True by simp
qed

lemma uint_shl_value: "wf_uint a \<Longrightarrow> uval (uint_shl a sh) = (uval a * 2 ^ sh) mod 2 ^ 256"
proof -
  assume "wf_uint a"
  then have "uval (uint_shl a sh) = take_bit 256 (push_bit sh (uval a))"
    by (intro bit_eqI) (auto simp: bit_uint_shl bit_take_bit_iff bit_push_bit_iff)
  then show ?thesis by (simp add: take_bit_eq_mod push_bit_eq_mult)
qed

definition shr_limb :: "base_uint \<Rightarrow> nat \<Rightarrow> nat \<Rightarrow> nat \<Rightarrow> nat \<Rightarrow> u32" where
  "shr_limb a k s t m =
     ((if m + k < t then drop_bit s (a ! (m + k)) else 0) OR
      (if m + k + 1 < t \<and> s \<noteq> 0 then push_bit (32 - s) (a ! (m + k + 1)) else 0))"

lemma shr_fold:
  assumes "t \<le> WIDTH"
  shows "fold (shr_step a k s) [0..<t] uint_zero = map (shr_limb a k s t) [0..<WIDTH]"
  using assms
proof (induction t)
  case 0
  then show ?case by (intro nth_equalityI) (simp_all add: uint_zero_def shr_limb_def)
next
  case (Suc t)
  have "shr_step a k s t (map (shr_limb a k s t) [0..<WIDTH]) = map (shr_limb a k s (Suc t)) [0..<WIDTH]"
  proof (intro nth_equalityI)
    fix m
    assume "m < length (shr_step a k s t (map (shr_limb a k s t) [0..<WIDTH]))"
    then have m: "m < WIDTH" by (simp add: shr_step_def Let_def split: if_splits)
    consider "t = m + k" | "t = m + k + 1" | "t \<noteq> m + k" "t \<noteq> m + k + 1" by blast
    then show "shr_step a k s t (map (shr_limb a k s t) [0..<WIDTH]) ! m = map (shr_limb a k s (Suc t)) [0..<WIDTH] ! m"
    proof cases
      case 1
      then show ?thesis using m Suc.prems
        by (auto simp: shr_step_def Let_def shr_limb_def or.commute or.left_commute nth_list_update)
    next
      case 2
      then show ?thesis using m Suc.prems
        by (auto simp: shr_step_def Let_def shr_limb_def or.commute or.left_commute nth_list_update)
    next
      case 3
      then have "shr_limb a k s (Suc t) m = shr_limb a k s t m"
        by (auto simp: shr_limb_def less_Suc_eq)
      then show ?thesis using m 3 by (auto simp: shr_step_def Let_def nth_list_update)
    qed
  qed (simp add: shr_step_def Let_def)
  then show ?case using Suc by simp
qed

lemma length_uint_shr [simp]: "length (uint_shr a n) = WIDTH"
  by (simp add: uint_shr_def shr_fold)

lemma bit_uint_shr:
  assumes "wf_uint a"
  shows "bit (uval (uint_shr a sh)) n \<longleftrightarrow> bit (uval a) (n + sh)"
proof (cases "n < 256")
  case False
  then have "\<not> n div 32 < 8" "\<not> (n + sh) div 32 < 8" by simp_all
  then show ?thesis using assms by (simp only: bit_uval length_uint_shr wf_uint_def WIDTH_def simp_thms)
next
  case True
  define m t k s where "m = n div 32" and "t = n mod 32" and "k = sh div 32" and "s = sh mod 32"
  have n: "n = 32 * m + t" "t < 32" and sh: "sh = 32 * k + s" "s < 32"
    by (simp_all add: m_def t_def k_def s_def)
  have m: "m < 8" using True n by simp
  have "bit (uval (uint_shr a sh)) n \<longleftrightarrow> bit (shr_limb a k s WIDTH m) t"
    using m by (simp add: bit_uval m_def [symmetric] t_def [symmetric] k_def [symmetric] s_def [symmetric]
        uint_shr_def shr_fold WIDTH_def)
  also have "\<dots> \<longleftrightarrow> (m + k < 8 \<and> t + s < 32 \<and> bit (a ! (m + k)) (t + s)) \<or>
      (m + k + 1 < 8 \<and> 32 \<le> t + s \<and> bit (a ! (m + k + 1)) (t + s - 32))"
    using m n(2) sh(2)
    by (auto simp: shr_limb_def bit_or_iff bit_push_bit_iff bit_drop_bit_eq WIDTH_def
        add.commute [of s t] dest: bit_imp_le_length)
  also have "\<dots> \<longleftrightarrow> bit (uval a) (n + sh)"
  proof (cases "t + s < 32")
    case True
    then have "n + sh = 32 * (m + k) + (t + s)" using n sh by auto
    then show ?thesis using True assms by (simp only: bit_uval_at wf_uint_def WIDTH_def) simp
  next
    case False
    then have "n + sh = 32 * (m + k + 1) + (t + s - 32)" and "t + s - 32 < 32"
      using n sh by auto
    then show ?thesis using False assms by (simp only: bit_uval_at wf_uint_def WIDTH_def) simp
  qed
  finally show ?thesis .
qed

lemma uint_shr_value: "wf_uint a \<Longrightarrow> uval (uint_shr a sh) = uval a div 2 ^ sh"
proof -
  assume "wf_uint a"
  then have "uval (uint_shr a sh) = drop_bit sh (uval a)"
    by (intro bit_eqI) (auto simp: bit_uint_shr bit_drop_bit_eq add.commute)
  then show ?thesis by (simp add: drop_bit_eq_div)
qed

subsection \<open>Comparison\<close>

lemma compare_down_value:
  "length xs = length ys \<Longrightarrow>
     compare_down xs ys = sgn (int (uval (rev xs)) - int (uval (rev ys)))"
proof (induction xs ys rule: list_induct2)
  case Nil
  then show ?case by simp
next
  case (Cons x xs y ys)
  let ?m = "2 ^ (32 * length ys) :: nat"
  have lt: "uval (rev xs) < ?m" "uval (rev ys) < ?m"
    using uval_less [of "rev xs"] uval_less [of "rev ys"] Cons.hyps by simp_all
  have v: "uval (rev (x # xs)) = uval (rev xs) + ?m * unat x"
    "uval (rev (y # ys)) = uval (rev ys) + ?m * unat y"
    using Cons.hyps by (simp_all add: uval_append)
  have mono: "?m * u + ?m \<le> ?m * w" if "u < w" for u w :: nat
    using mult_le_mono2 [of "u + 1" w ?m] that by (simp add: algebra_simps)
  consider "x < y" | "y < x" | "x = y" by fastforce
  then show ?case
  proof cases
    case 1
    then have "unat x < unat y" by (simp add: word_less_nat_alt)
    from mono [OF this] have "uval (rev (x # xs)) < uval (rev (y # ys))" using lt v by linarith
    then show ?thesis using 1 by simp
  next
    case 2
    then have "unat y < unat x" by (simp add: word_less_nat_alt)
    from mono [OF this] have "uval (rev (y # ys)) < uval (rev (x # xs))" using lt v by linarith
    then show ?thesis using 2 by (simp add: order_less_not_sym)
  next
    case 3
    then show ?thesis using Cons.IH v by simp
  qed
qed

lemma CompareTo_value:
  "length a = length b \<Longrightarrow> CompareTo a b = sgn (int (uval a) - int (uval b))"
  by (simp add: CompareTo_def compare_down_value)

lemma CompareTo_iff [limb_simps]:
  assumes "length a = length b"
  shows "CompareTo a b \<ge> 0 \<longleftrightarrow> uval b \<le> uval a" and "CompareTo a b > 0 \<longleftrightarrow> uval b < uval a"
    and "CompareTo a b \<le> 0 \<longleftrightarrow> uval a \<le> uval b" and "CompareTo a b < 0 \<longleftrightarrow> uval a < uval b"
  using assms by (auto simp: CompareTo_value sgn_if)

subsection \<open>Bit length, low half, equality with a 64-bit number\<close>

lemma limb_bits_bounds:
  assumes "x \<noteq> 0" and "unat x < 2 ^ Suc n" and "n < 32"
  shows "1 \<le> limb_bits n x" and "unat x < 2 ^ limb_bits n x" and "2 ^ (limb_bits n x - 1) \<le> unat x"
  using assms
proof (induction n)
  case 0
  { case 1 then show ?case by simp }
  { case 2 then show ?case by simp }
  { case 3 then show ?case using unat_gt_0 [of x] by simp }
next
  case (Suc n)
  have b: "x AND push_bit (Suc n) 1 \<noteq> 0 \<longleftrightarrow> bit (unat x) (Suc n)" if "Suc n < 32"
    using that by (simp only: bit_iff_and_push_bit_not_eq_0 [symmetric] bit_unsigned_iff) simp
  note top = bit_top_cases [of "unat x" "Suc n"]
  { case 1 then show ?case using b top Suc.IH(1) by (cases "bit (unat x) (Suc n)") simp_all }
  { case 2 then show ?case using b top Suc.IH(2) by (cases "bit (unat x) (Suc n)") simp_all }
  { case 3 then show ?case using b top Suc.IH(3) by (cases "bit (unat x) (Suc n)") simp_all }
qed

lemma bits_down_bounds:
  assumes "pos \<le> length a"
  shows "uval (take pos a) < 2 ^ bits_down a pos \<and>
    (uval (take pos a) \<noteq> 0 \<longrightarrow> 0 < bits_down a pos \<and> 2 ^ (bits_down a pos - 1) \<le> uval (take pos a)) \<and>
    (uval (take pos a) = 0 \<longrightarrow> bits_down a pos = 0)"
  using assms
proof (induction pos)
  case 0
  then show ?case by simp
next
  case (Suc pos)
  let ?x = "a ! pos" and ?v = "uval (take pos a)"
  have v: "uval (take (Suc pos) a) = ?v + 2 ^ (32 * pos) * unat ?x"
    using Suc.prems by (simp add: take_Suc_conv_app_nth uval_append)
  show ?case
  proof (cases "?x = 0")
    case True
    then show ?thesis using Suc v by simp
  next
    case False
    define r where "r = limb_bits 31 ?x"
    have r: "1 \<le> r" "unat ?x < 2 ^ r" "2 ^ (r - 1) \<le> unat ?x"
      using limb_bits_bounds [OF False, of 31] unat_u32_less [of ?x] by (simp_all add: r_def)
    have bd: "bits_down a (Suc pos) = 32 * pos + r" using False by (simp add: r_def)
    have lt: "?v < 2 ^ (32 * pos)" using uval_less [of "take pos a"] Suc.prems by simp
    have "2 ^ (32 * pos) * (unat ?x + 1) \<le> 2 ^ (32 * pos) * 2 ^ r"
      using r(2) by (intro mult_le_mono2) simp
    then have "uval (take (Suc pos) a) < 2 ^ (32 * pos + r)"
      using v lt by (simp add: power_add algebra_simps)
    moreover have "2 ^ (32 * pos + r - 1) \<le> uval (take (Suc pos) a)"
    proof -
      have "2 ^ (32 * pos + r - 1) = 2 ^ (32 * pos) * (2 ^ (r - 1) :: nat)"
        using r(1) by (simp flip: power_add)
      also have "\<dots> \<le> 2 ^ (32 * pos) * unat ?x" using r(3) by (intro mult_le_mono2)
      also have "\<dots> \<le> uval (take (Suc pos) a)" using v by simp
      finally show ?thesis .
    qed
    moreover have "uval (take (Suc pos) a) \<noteq> 0" using v False by (simp add: unat_eq_0)
    ultimately show ?thesis using bd r(1) by simp
  qed
qed

lemma uint_bits_bounds:
  assumes "wf_uint a"
  shows "uval a < 2 ^ uint_bits a" and "uint_bits a = 0 \<longleftrightarrow> uval a = 0"
    and "uval a \<noteq> 0 \<Longrightarrow> 2 ^ (uint_bits a - 1) \<le> uval a" and "uint_bits a \<le> 256"
proof -
  have *: "uval a < 2 ^ uint_bits a \<and> (uval a \<noteq> 0 \<longrightarrow> 0 < uint_bits a \<and> 2 ^ (uint_bits a - 1) \<le> uval a) \<and>
      (uval a = 0 \<longrightarrow> uint_bits a = 0)"
    using bits_down_bounds [of WIDTH a] assms by (simp add: uint_bits_def wf_uint_def)
  then show "uval a < 2 ^ uint_bits a" "uint_bits a = 0 \<longleftrightarrow> uval a = 0"
    "uval a \<noteq> 0 \<Longrightarrow> 2 ^ (uint_bits a - 1) \<le> uval a" by auto
  show "uint_bits a \<le> 256"
  proof (cases "uval a = 0")
    case True
    then show ?thesis using * by simp
  next
    case False
    then have "2 ^ (uint_bits a - 1) < (2 ^ 256 :: nat)"
      using * uval_less [of a] assms by (simp add: wf_uint_def WIDTH_def)
    then have "uint_bits a - 1 < 256" by (rule power_less_imp_less_exp [rotated]) simp
    then show ?thesis by simp
  qed
qed

lemma uval_uint_of_u64 [limb_simps]: "uval (uint_of_u64 b) = unat b"
proof -
  have "unat (ucast b :: u32) + 2 ^ 32 * unat (ucast (drop_bit 32 b) :: u32) = unat b"
  proof -
    have "unat (ucast (drop_bit 32 b) :: u32) = unat b div 2 ^ 32"
      using unat_u64_less [of b] by (simp only: unat_ucast_mod u64_high32) simp
    moreover have "unat (ucast b :: u32) = unat b mod 2 ^ 32" by (simp only: unat_ucast_mod) simp
    ultimately show ?thesis by (simp only: mod_mult_div_eq)
  qed
  then show ?thesis by (simp add: uint_of_u64_def)
qed

lemma wf_uint_simps [simp]:
  "wf_uint uint_zero" "wf_uint (uint_of_u64 w)" "wf_uint (uint_shl a n)" "wf_uint (uint_shr a n)"
  "wf_uint a \<Longrightarrow> wf_uint (uint_not a)" "wf_uint a \<Longrightarrow> wf_uint (uint_neg a)" "wf_uint a \<Longrightarrow> wf_uint (uint_mul32 a c)"
  "wf_uint a \<Longrightarrow> wf_uint b \<Longrightarrow> wf_uint (uint_add a b)" "wf_uint a \<Longrightarrow> wf_uint b \<Longrightarrow> wf_uint (uint_sub a b)"
  "wf_uint a \<Longrightarrow> wf_uint b \<Longrightarrow> wf_uint (uint_mul a b)"
  by (simp_all add: wf_uint_def uint_zero_def uint_of_u64_def WIDTH_def uint_mul_value(2) [unfolded wf_uint_def WIDTH_def])

lemma uval_uint_zero [simp]: "uval uint_zero = 0"
  by (simp add: uint_zero_def)

lemma GetLow64_value: "wf_uint a \<Longrightarrow> unat (GetLow64 a) = uval a mod 2 ^ 64"
proof -
  assume a: "wf_uint a"
  have "bit (unat (GetLow64 a)) n \<longleftrightarrow> n < 64 \<and> bit (uval a) n" for n
  proof -
    have "n div 32 = 0 \<longleftrightarrow> n < 32" "32 \<le> n \<and> n < 64 \<Longrightarrow> n div 32 = 1 \<and> n mod 32 = n - 32"
      by (auto simp: div_eq_0_iff) (simp_all add: mod_if div_if)
    then show ?thesis using a
      by (cases "n < 32"; cases "n < 64")
        (auto simp: GetLow64_def bit_unsigned_iff bit_or_iff bit_push_bit_iff bit_ucast_iff bit_uval
          wf_uint_def WIDTH_def dest: bit_imp_le_length)
  qed
  then have "unat (GetLow64 a) = take_bit 64 (uval a)"
    by (intro bit_eqI) (simp add: bit_take_bit_iff)
  then show ?thesis by (simp add: take_bit_eq_mod)
qed

lemma EqualTo_value:
  assumes "wf_uint a"
  shows "EqualTo a b \<longleftrightarrow> uval a = unat b"
proof -
  have 0: "ucast (a ! 0) = b AND 0xffffffff \<longleftrightarrow> a ! 0 = ucast b"
    using unat_u32_less [of "a ! 0"]
    by (simp only: word_unat_eq_iff u64_low32 unat_ucast_mod) simp
  have 1: "ucast (a ! 1) = drop_bit 32 b \<longleftrightarrow> a ! 1 = ucast (drop_bit 32 b)"
    using unat_u64_less [of b] unat_u32_less [of "a ! 1"]
    by (simp only: word_unat_eq_iff u64_high32 unat_ucast_mod) simp
  have "EqualTo a b \<longleftrightarrow> a = uint_of_u64 b"
  proof -
    have "a = uint_of_u64 b \<longleftrightarrow> (\<forall>i < 8. a ! i = uint_of_u64 b ! i)"
      using assms by (simp add: list_eq_iff_nth_eq wf_uint_def uint_of_u64_def WIDTH_def)
    also have "\<dots> \<longleftrightarrow> a ! 0 = ucast b \<and> a ! 1 = ucast (drop_bit 32 b) \<and> (\<forall>i \<in> {2..<8}. a ! i = 0)"
    proof -
      have "uint_of_u64 b ! 0 = ucast b" "uint_of_u64 b ! 1 = ucast (drop_bit 32 b)"
        by (simp_all add: uint_of_u64_def)
      moreover have "uint_of_u64 b ! i = 0" if "i \<in> {2..<8}" for i
      proof -
        have "i - 2 < 6" using that by auto
        then have "replicate 6 (0::u32) ! (i - 2) = 0" by (rule nth_replicate)
        then show ?thesis using that by (simp add: uint_of_u64_def WIDTH_def nth_Cons' numeral_2_eq_2)
      qed
      moreover have "i = 0 \<or> i = 1 \<or> i \<in> {2..<8}" if "i < 8" for i :: nat using that by auto
      moreover have "(0::nat) < 8" "(1::nat) < 8" "\<And>i. i \<in> {2..<8} \<Longrightarrow> i < (8::nat)" by auto
      ultimately show ?thesis by metis
    qed
    finally have eq: "a = uint_of_u64 b \<longleftrightarrow>
      a ! 0 = ucast b \<and> a ! 1 = ucast (drop_bit 32 b) \<and> (\<forall>i \<in> {2..<8}. a ! i = 0)" .
    have "list_ex (\<lambda>i. a ! i \<noteq> 0) (rev [2..<8]) \<longleftrightarrow> \<not> (\<forall>i \<in> {2..<8}. a ! i = 0)"
      by (simp only: list_ex_iff set_rev set_upt) blast
    then show ?thesis unfolding eq using 0 1 by (simp only: EqualTo_def WIDTH_def) argo
  qed
  also have "\<dots> \<longleftrightarrow> uval a = unat b"
    using uval_inject [of a "uint_of_u64 b"] assms wf_uint_simps(2) [of b]
    by (auto simp: uval_uint_of_u64 wf_uint_def)
  finally show ?thesis .
qed

subsection \<open>Division\<close>

lemma uval_set_bit:
  assumes "length q = WIDTH" and "n < 256" and "\<not> bit (uval q) n"
  shows "uval (q[n div 32 := q ! (n div 32) OR push_bit (n mod 32) 1]) = uval q + 2 ^ n"
proof -
  let ?q' = "q[n div 32 := q ! (n div 32) OR push_bit (n mod 32) 1]"
  have d: "n div 32 < 8" using assms(2) by simp
  have "bit (uval ?q') m \<longleftrightarrow> bit (uval q) m \<or> m = n" for m
  proof (cases "m div 32 = n div 32")
    case True
    then have eq: "m = n \<longleftrightarrow> m mod 32 = n mod 32" by (metis div_mult_mod_eq)
    have "bit (uval ?q') m \<longleftrightarrow> bit (q ! (n div 32) OR push_bit (n mod 32) 1) (m mod 32)"
      using d assms(1) by (simp only: bit_uval True length_list_update WIDTH_def nth_list_update_eq simp_thms)
    also have "\<dots> \<longleftrightarrow> bit (q ! (n div 32)) (m mod 32) \<or> m mod 32 = n mod 32"
      by (simp only: bit_or_iff push_bit_eq_mult mult_1 bit_exp_iff) (auto simp: possible_bit_word)
    finally show ?thesis
      using d assms(1) by (simp only: eq bit_uval True WIDTH_def simp_thms)
  next
    case False
    then show ?thesis using assms(1) by (auto simp: bit_uval)
  qed
  then have "uval ?q' = set_bit n (uval q)"
    by (intro bit_eqI) (auto simp: bit_set_bit_iff)
  then show ?thesis using assms(3) by (simp add: set_bit_eq)
qed

lemma div_loop_value:
  assumes "0 < d" and "n < 256"
    and "wf_uint num" and "wf_uint dv" and "wf_uint q"
    and "uval dv = d * 2 ^ n" and "uval num < d * 2 ^ Suc n" and "2 ^ Suc n dvd uval q"
  shows "uval (fst (div_loop n num dv q)) = uval num mod d \<and>
    uval (snd (div_loop n num dv q)) = uval q + uval num div d \<and> wf_uint (snd (div_loop n num dv q))"
  using assms(2-)
proof (induction n arbitrary: num dv q)
  case (0 num dv q)
  then have nb: "\<not> bit (uval q) 0" by (simp add: bit_0)
  show ?case
  proof (cases "d \<le> uval num")
    case True
    then have "uval num div d = 1" "uval num mod d = uval num - d"
      using 0 assms(1) by (simp_all add: div_nat_eqI mod_if)
    then show ?thesis using True 0 nb uval_set_bit [of q 0]
      by (simp add: div_loop.simps [of 0] CompareTo_iff wf_uint_def uint_sub_value)
  next
    case False
    then show ?thesis using 0
      by (simp add: div_loop.simps [of 0] CompareTo_iff wf_uint_def)
  qed
next
  case (Suc n num dv q)
  have len: "length num = length dv" using Suc.prems by (simp add: wf_uint_def)
  have nb: "\<not> bit (uval q) (Suc n)"
  proof -
    obtain c where "uval q = 2 ^ Suc (Suc n) * c" using Suc.prems(7) by (rule dvdE)
    then show ?thesis using bit_add_mult_exp [of 0 "Suc (Suc n)" c "Suc n"] by simp
  qed
  define ge where "ge \<longleftrightarrow> uval dv \<le> uval num"
  define num1 where "num1 = (if ge then uint_sub num dv else num)"
  define q1 where "q1 = (if ge then q[Suc n div 32 := q ! (Suc n div 32) OR push_bit (Suc n mod 32) 1] else q)"
  have step: "div_loop (Suc n) num dv q = div_loop n num1 (uint_shr dv 1) q1"
    using len by (simp add: div_loop.simps [of "Suc n"] CompareTo_iff num1_def q1_def ge_def Let_def)
  have num1: "uval num1 = uval num - of_bool ge * (d * 2 ^ Suc n)"
    using Suc.prems len by (simp add: num1_def ge_def uint_sub_value)
  have q1: "uval q1 = uval q + of_bool ge * 2 ^ Suc n"
    using Suc.prems nb uval_set_bit [of q "Suc n"] by (simp add: q1_def wf_uint_def)
  have wf: "wf_uint num1" "wf_uint q1"
    using Suc.prems by (simp_all add: num1_def q1_def wf_uint_def)
  have "uval num1 < d * 2 ^ Suc n"
    using Suc.prems(5,6) num1 by (cases ge) (simp_all add: ge_def)
  moreover have "2 ^ Suc n dvd uval q1"
    using q1 Suc.prems(7) by (auto intro!: dvd_add dest: power_le_dvd [of 2 "Suc (Suc n)" _ "Suc n"])
  moreover have "uval (uint_shr dv 1) = d * 2 ^ n"
    using Suc.prems by (simp add: uint_shr_value)
  ultimately have IH: "uval (fst (div_loop n num1 (uint_shr dv 1) q1)) = uval num1 mod d \<and>
      uval (snd (div_loop n num1 (uint_shr dv 1) q1)) = uval q1 + uval num1 div d \<and>
      wf_uint (snd (div_loop n num1 (uint_shr dv 1) q1))"
    using Suc.IH [of num1 "uint_shr dv 1" q1] Suc.prems(1) wf by simp
  have "uval num = uval num1 + d * (of_bool ge * 2 ^ Suc n)"
    using num1 Suc.prems(5) by (cases ge) (simp_all add: ge_def)
  then have "uval num mod d = uval num1 mod d" "uval num div d = uval num1 div d + of_bool ge * 2 ^ Suc n"
    using assms(1) by simp_all
  then show ?case using IH step q1 by simp
qed

lemma uint_div_value:
  assumes "wf_uint a" and "wf_uint b"
  shows "uint_div a b = None \<longleftrightarrow> uval b = 0"
    and "uint_div a b = Some q \<Longrightarrow> uval q = uval a div uval b \<and> wf_uint q"
proof -
  note A = uint_bits_bounds [OF assms(1)] and B = uint_bits_bounds [OF assms(2)]
  show "uint_div a b = None \<longleftrightarrow> uval b = 0" using B(2) by (simp add: uint_div_def Let_def)
  assume q: "uint_div a b = Some q"
  then have b: "uval b \<noteq> 0" using B(2) by (auto simp: uint_div_def Let_def)
  then have bits: "0 < uint_bits b" using B(2) by simp
  show "uval q = uval a div uval b \<and> wf_uint q"
  proof (cases "uint_bits b > uint_bits a")
    case True
    have "uval a < 2 ^ uint_bits a" by (rule A(1))
    also have "\<dots> \<le> 2 ^ (uint_bits b - 1)" using True by (intro power_increasing) simp_all
    also have "\<dots> \<le> uval b" using B(3) b by simp
    finally show ?thesis using q True bits by (simp add: uint_div_def Let_def)
  next
    case False
    define sh where "sh = uint_bits a - uint_bits b"
    have q': "q = snd (div_loop sh a (uint_shl b sh) uint_zero)"
      using q False bits by (simp add: uint_div_def Let_def sh_def)
    have "uval b * 2 ^ sh < 2 ^ uint_bits b * 2 ^ sh" using B(1) by simp
    also have "\<dots> = 2 ^ uint_bits a" using False by (simp add: sh_def flip: power_add)
    also have "\<dots> \<le> 2 ^ 256" using A(4) by (intro power_increasing) simp_all
    finally have shl: "uval (uint_shl b sh) = uval b * 2 ^ sh"
      using assms(2) by (simp add: uint_shl_value)
    have "uval a < 2 ^ uint_bits a" by (rule A(1))
    also have "\<dots> = 2 ^ (uint_bits b - 1) * 2 ^ Suc sh"
      using False bits by (simp add: sh_def flip: power_add power_Suc)
    also have "\<dots> \<le> uval b * 2 ^ Suc sh" using B(3) b by (intro mult_le_mono1) simp
    finally have "uval a < uval b * 2 ^ Suc sh" .
    moreover have "sh < 256" using A(4) bits by (simp add: sh_def)
    ultimately show ?thesis
      using div_loop_value [of "uval b" sh a "uint_shl b sh" uint_zero] b assms shl q' by simp
  qed
qed

lemma uint_div_total:
  assumes "wf_uint a" and "wf_uint b" and "uval b \<noteq> 0"
  shows "\<exists>q. uint_div a b = Some q \<and> wf_uint q \<and> uval q = uval a div uval b"
proof (cases "uint_div a b")
  case None
  then show ?thesis using uint_div_value(1) [OF assms(1,2)] assms(3) by simp
next
  case (Some q)
  then show ?thesis using uint_div_value(2) [OF assms(1,2) Some] by simp
qed

subsection \<open>Refinement to natural numbers\<close>

lemma uint_ring_facts:
  assumes "wf_uint a" and "wf_uint b"
  shows "uval (uint_add a b) = (uval a + uval b) mod 2 ^ 256"
    and "uval (uint_sub a b) = (uval a + 2 ^ 256 - uval b) mod 2 ^ 256"
    and "uval (uint_mul a b) = (uval a * uval b) mod 2 ^ 256"
    and "uval (uint_mul32 a c) = (uval a * unat c) mod 2 ^ 256"
    and "uval (uint_neg a) = (2 ^ 256 - uval a) mod 2 ^ 256"
    and "uval (uint_not a) = 2 ^ 256 - 1 - uval a"
    and "uval (uint_inc a) = (uval a + 1) mod 2 ^ 256"
    and "uval (uint_shl a k) = (uval a * 2 ^ k) mod 2 ^ 256"
    and "uval (uint_shr a k) = uval a div 2 ^ k"
proof -
  have len: "length a = WIDTH" "length b = WIDTH" "32 * WIDTH = 256"
    using assms by (simp_all add: wf_uint_def WIDTH_def)
  have lt: "uval a < 2 ^ 256" "uval b < 2 ^ 256"
    using uval_less [of a] uval_less [of b] by (simp_all only: len)
  show "uval (uint_add a b) = (uval a + uval b) mod 2 ^ 256"
    using uint_add_value [of a b] by (simp only: len)
  show "uval (uint_sub a b) = (uval a + 2 ^ 256 - uval b) mod 2 ^ 256"
  proof (cases "uval b \<le> uval a")
    case True
    then have "uval a + 2 ^ 256 - uval b = (uval a - uval b) + 2 ^ 256" by simp
    moreover have "uval a - uval b < 2 ^ 256" using lt by simp
    ultimately show ?thesis using uint_sub_value [of a b] True
      by (simp only: len if_True mod_add_self2 mod_less)
  next
    case False
    then have "uval a + 2 ^ 256 - uval b < 2 ^ 256" using lt by simp
    then show ?thesis using uint_sub_value [of a b] False by (simp only: len if_False mod_less)
  qed
  show "uval (uint_mul a b) = (uval a * uval b) mod 2 ^ 256" by (rule uint_mul_value(1) [OF assms])
  show "uval (uint_mul32 a c) = (uval a * unat c) mod 2 ^ 256"
    using uint_mul32_value [of a c] by (simp only: len)
  show "uval (uint_neg a) = (2 ^ 256 - uval a) mod 2 ^ 256"
    using uint_neg_value [of a] by (simp only: len)
  show "uval (uint_not a) = 2 ^ 256 - 1 - uval a"
  proof -
    have "uval (uint_not a) + uval a + 1 = 2 ^ 256"
      using uint_not_value [of a] by (simp only: len uint_not_def)
    then show ?thesis by linarith
  qed
  show "uval (uint_inc a) = (uval a + 1) mod 2 ^ 256"
    using uint_inc_value [of a] by (simp only: len)
  show "uval (uint_shl a k) = (uval a * 2 ^ k) mod 2 ^ 256" by (rule uint_shl_value [OF assms(1)])
  show "uval (uint_shr a k) = uval a div 2 ^ k" by (rule uint_shr_value [OF assms(1)])
qed

text \<open>C21: on 256-bit numbers the limb loops of \<open>+=\<close>, \<open>-=\<close>, \<open>*=\<close> (both
  overloads), unary minus, complement, \<open>++\<close>, \<open><<=\<close> and \<open>>>=\<close> compute exactly the corresponding
  operation on naturals modulo \<open>2 ^ 256\<close>.\<close>

theorem uint_ring_refines:
  assumes "wf_uint a" and "wf_uint b"
  shows "uval (uint_add a b) = (uval a + uval b) mod 2 ^ 256 \<and>
    uval (uint_sub a b) = (uval a + 2 ^ 256 - uval b) mod 2 ^ 256 \<and>
    uval (uint_mul a b) = (uval a * uval b) mod 2 ^ 256 \<and>
    uval (uint_mul32 a c) = (uval a * unat c) mod 2 ^ 256 \<and>
    uval (uint_neg a) = (2 ^ 256 - uval a) mod 2 ^ 256 \<and>
    uval (uint_not a) = 2 ^ 256 - 1 - uval a \<and>
    uval (uint_inc a) = (uval a + 1) mod 2 ^ 256 \<and>
    uval (uint_shl a k) = (uval a * 2 ^ k) mod 2 ^ 256 \<and>
    uval (uint_shr a k) = uval a div 2 ^ k"
  by (intro conjI uint_ring_facts [OF assms])

theorem uint_ring_refines_witness:
  "uval (uint_add (uint_of_u64 5) (uint_of_u64 3)) = 8 \<and>
   uval (uint_mul (uint_of_u64 5) (uint_of_u64 3)) = 15 \<and> uval (uint_shl (uint_of_u64 5) 3) = 40"
  using uint_ring_refines [of "uint_of_u64 5" "uint_of_u64 3" 0 3]
  by (simp add: uval_uint_of_u64)

text \<open>C19: the shift-and-subtract division raises \<open>uint_error\<close> exactly on a zero
  divisor and otherwise terminates with the integer quotient.\<close>

theorem uint_div_refines:
  assumes "wf_uint a" and "wf_uint b"
  shows "map_option uval (uint_div a b) = (if uval b = 0 then None else Some (uval a div uval b))"
  using uint_div_value [OF assms] by (cases "uint_div a b") auto

theorem uint_div_refines_witness:
  "map_option uval (uint_div (uint_of_u64 100) (uint_of_u64 7)) = Some 14 \<and>
   map_option uval (uint_div (uint_of_u64 100) uint_zero) = None"
  using uint_div_refines [of "uint_of_u64 100" "uint_of_u64 7"]
    uint_div_refines [of "uint_of_u64 100" uint_zero]
  by (simp add: uval_uint_of_u64)

lemma uint_order_facts:
  assumes "wf_uint a" and "wf_uint b"
  shows "CompareTo a b = sgn (int (uval a) - int (uval b))"
    and "a = b \<longleftrightarrow> uval a = uval b"
    and "EqualTo a c \<longleftrightarrow> uval a = unat c"
    and "uval a < 2 ^ uint_bits a"
    and "uint_bits a = 0 \<longleftrightarrow> uval a = 0"
    and "2 ^ uint_bits a \<le> 2 * uval a \<or> uval a = 0"
    and "unat (GetLow64 a) = uval a mod 2 ^ 64"
proof -
  have len: "length a = length b" using assms by (simp add: wf_uint_def)
  show "CompareTo a b = sgn (int (uval a) - int (uval b))" by (rule CompareTo_value [OF len])
  show "a = b \<longleftrightarrow> uval a = uval b" using uval_inject [OF len] by blast
  show "EqualTo a c \<longleftrightarrow> uval a = unat c" by (rule EqualTo_value [OF assms(1)])
  show "uval a < 2 ^ uint_bits a" by (rule uint_bits_bounds(1) [OF assms(1)])
  show "unat (GetLow64 a) = uval a mod 2 ^ 64" by (rule GetLow64_value [OF assms(1)])
  show z: "uint_bits a = 0 \<longleftrightarrow> uval a = 0" by (rule uint_bits_bounds(2) [OF assms(1)])
  show "2 ^ uint_bits a \<le> 2 * uval a \<or> uval a = 0"
    using uint_bits_bounds(3) [OF assms(1)] z by (cases "uint_bits a") auto
qed

text \<open>\<open>CompareTo\<close>, equality, \<open>EqualTo\<close>, \<open>bits\<close> and \<open>GetLow64\<close> agree with the order,
  equality, bit length and low half of the represented number.\<close>

theorem uint_order_refines:
  assumes "wf_uint a" and "wf_uint b"
  shows "CompareTo a b = sgn (int (uval a) - int (uval b)) \<and>
    (a = b \<longleftrightarrow> uval a = uval b) \<and>
    (EqualTo a c \<longleftrightarrow> uval a = unat c) \<and>
    uval a < 2 ^ uint_bits a \<and>
    (uint_bits a = 0 \<longleftrightarrow> uval a = 0) \<and>
    (2 ^ uint_bits a \<le> 2 * uval a \<or> uval a = 0) \<and>
    unat (GetLow64 a) = uval a mod 2 ^ 64"
  by (intro conjI uint_order_facts [OF assms])

theorem uint_order_refines_witness:
  "CompareTo (uint_of_u64 5) (uint_of_u64 9) = -1 \<and> unat (GetLow64 (uint_of_u64 5)) = 5"
  using uint_order_refines [of "uint_of_u64 5" "uint_of_u64 9" 0]
  by (simp add: uval_uint_of_u64)

end
