(* ===== verification/Compact.thy ===== *)
theory Compact
  imports Arith_Uint256
begin

section \<open>The compact encoding of targets, and conversions (arith_uint256.cpp)\<close>

text \<open>
  \<open>SetCompact\<close> reads a 32-bit \<open>nBits\<close> (exponent byte, sign bit, 23-bit mantissa) into a
  256-bit number and reports sign and overflow; \<open>GetCompact\<close> writes one. The two \<open>assert\<close>s of
  \<open>GetCompact\<close> are the \<open>None\<close> branch.
\<close>

definition SetCompact :: "u32 \<Rightarrow> base_uint \<times> bool \<times> bool" where
  "SetCompact nCompact =
     (let nSize = unat (drop_bit 24 nCompact);
          nWord = nCompact AND 0x007fffff;
          (val, nWord') =
            (if nSize \<le> 3
             then (let w = drop_bit (8 * (3 - nSize)) nWord in (uint_of_u64 (ucast w), w))
             else (uint_shl (uint_of_u64 (ucast nWord)) (8 * (nSize - 3)), nWord));
          fNegative = (nWord' \<noteq> 0 \<and> nCompact AND 0x00800000 \<noteq> 0);
          fOverflow = (nWord' \<noteq> 0 \<and>
            (nSize > 34 \<or> (nWord' > 0xff \<and> nSize > 33) \<or> (nWord' > 0xffff \<and> nSize > 32)))
      in (val, fNegative, fOverflow))"

definition GetCompact :: "base_uint \<Rightarrow> bool \<Rightarrow> u32 option" where
  "GetCompact a fNegative =
     (let nSize = (uint_bits a + 7) div 8;
          nCompact =
            (if nSize \<le> 3 then ucast (push_bit (8 * (3 - nSize)) (GetLow64 a))
             else ucast (GetLow64 (uint_shr a (8 * (nSize - 3)))) :: u32);
          (nCompact, nSize) =
            (if nCompact AND 0x00800000 \<noteq> 0 then (drop_bit 8 nCompact, nSize + 1)
             else (nCompact, nSize))
      in if nCompact AND (NOT 0x007fffff) \<noteq> 0 \<or> nSize \<ge> 256 then None
         else let nCompact = nCompact OR push_bit 24 (of_nat nSize)
              in Some (nCompact OR
                   (if fNegative \<and> nCompact AND 0x007fffff \<noteq> 0 then 0x00800000 else 0)))"

text \<open>\<open>WriteLE32\<close> and \<open>ReadLE32\<close> of a limb, and the conversions to and from \<open>uint256\<close>.\<close>

definition WriteLE32 :: "u32 \<Rightarrow> bytes" where
  "WriteLE32 x = [ucast x, ucast (drop_bit 8 x), ucast (drop_bit 16 x), ucast (drop_bit 24 x)]"

definition ReadLE32 :: "bytes \<Rightarrow> u32" where
  "ReadLE32 bs =
     ucast (bs ! 0) OR push_bit 8 (ucast (bs ! 1)) OR push_bit 16 (ucast (bs ! 2)) OR push_bit 24 (ucast (bs ! 3))"

definition ArithToUint256 :: "base_uint \<Rightarrow> bytes" where
  "ArithToUint256 a = concat (map (\<lambda>x. WriteLE32 (a ! x)) [0..<WIDTH])"

definition UintToArith256 :: "bytes \<Rightarrow> base_uint" where
  "UintToArith256 b = map (\<lambda>x. ReadLE32 (drop (4 * x) b)) [0..<WIDTH]"

subsection \<open>Reading the fields of a compact number\<close>

abbreviation compact_mantissa :: "u32 \<Rightarrow> nat" where
  "compact_mantissa n \<equiv> unat n mod 2 ^ 23"

abbreviation compact_size :: "u32 \<Rightarrow> nat" where
  "compact_size n \<equiv> unat n div 2 ^ 24"

lemma u32_and_mask: "unat ((x::u32) AND mask k) = unat x mod 2 ^ k"
  by (simp only: take_bit_eq_mask [symmetric] unsigned_take_bit_eq take_bit_eq_mod [where ?'a = nat])

lemma u32_mantissa: "unat ((x::u32) AND 0x007fffff) = unat x mod 2 ^ 23"
  using u32_and_mask [of x 23] by (simp add: mask_eq_exp_minus_1)

lemma u32_drop: "unat (drop_bit k (x::u32)) = unat x div 2 ^ k"
  by (simp only: unat_drop_bit_eq drop_bit_eq_div [where ?'a = nat])

lemma u32_bit: "n < 32 \<Longrightarrow> (x::u32) AND push_bit n 1 \<noteq> 0 \<longleftrightarrow> bit (unat x) n"
  by (simp only: bit_iff_and_push_bit_not_eq_0 [symmetric] bit_unsigned_iff) simp

lemma u32_sign: "(x::u32) AND 0x00800000 \<noteq> 0 \<longleftrightarrow> odd (unat x div 2 ^ 23)"
  using u32_bit [of 23 x] by (simp add: bit_iff_odd)

lemma SetCompact_fst:
  "fst (SetCompact n) =
     (if compact_size n \<le> 3
      then uint_of_u64 (ucast (drop_bit (8 * (3 - compact_size n)) (n AND 0x007fffff)))
      else uint_shl (uint_of_u64 (ucast (n AND 0x007fffff))) (8 * (compact_size n - 3)))"
  unfolding SetCompact_def Let_def u32_drop by (cases "compact_size n \<le> 3") simp_all

lemma exp_256: "2 ^ (8 * k) = (256::nat) ^ k"
  by (simp add: power_mult)

lemma SetCompact_value:
  assumes "SetCompact n = (b, neg, ovf)"
  shows "wf_uint b"
    and "uval b = (if compact_size n \<le> 3 then compact_mantissa n div 256 ^ (3 - compact_size n)
       else (compact_mantissa n * 256 ^ (compact_size n - 3)) mod 2 ^ 256)"
proof -
  have b: "b = fst (SetCompact n)" using assms by simp
  show "wf_uint b" unfolding b SetCompact_fst by simp
  have u: "uval (uint_of_u64 (ucast (w::u32))) = unat w" for w
    by (simp add: uval_uint_of_u64 unat_ucast_up)
  show "uval b = (if compact_size n \<le> 3 then compact_mantissa n div 256 ^ (3 - compact_size n)
       else (compact_mantissa n * 256 ^ (compact_size n - 3)) mod 2 ^ 256)"
    unfolding b SetCompact_fst
    by (simp only: if_distrib [of uval] u uint_shl_value wf_uint_simps u32_drop u32_mantissa exp_256)
qed

lemma SetCompact_flags:
  assumes "SetCompact n = (b, neg, ovf)"
  defines "w \<equiv> (if compact_size n \<le> 3 then drop_bit (8 * (3 - compact_size n)) (n AND 0x007fffff)
    else n AND 0x007fffff)"
  shows "neg \<longleftrightarrow> w \<noteq> 0 \<and> n AND 0x00800000 \<noteq> 0"
    and "ovf \<longleftrightarrow> w \<noteq> 0 \<and> (compact_size n > 34 \<or> (w > 0xff \<and> compact_size n > 33) \<or>
      (w > 0xffff \<and> compact_size n > 32))"
proof -
  have "snd (SetCompact n) = (w \<noteq> 0 \<and> n AND 0x00800000 \<noteq> 0,
      w \<noteq> 0 \<and> (compact_size n > 34 \<or> (w > 0xff \<and> compact_size n > 33) \<or> (w > 0xffff \<and> compact_size n > 32)))"
    unfolding SetCompact_def Let_def u32_drop w_def by (cases "compact_size n \<le> 3") simp_all
  then show "neg \<longleftrightarrow> w \<noteq> 0 \<and> n AND 0x00800000 \<noteq> 0"
    and "ovf \<longleftrightarrow> w \<noteq> 0 \<and> (compact_size n > 34 \<or> (w > 0xff \<and> compact_size n > 33) \<or>
      (w > 0xffff \<and> compact_size n > 32))"
    using assms(1) by simp_all
qed

lemma compact_overflow_arith:
  fixes m e :: nat
  assumes "m < 2 ^ 23" and "3 < e"
  shows "2 ^ 256 \<le> m * 256 ^ (e - 3) \<longleftrightarrow>
    m \<noteq> 0 \<and> (e > 34 \<or> (m > 255 \<and> e > 33) \<or> (m > 65535 \<and> e > 32))"
proof -
  consider "34 < e" | "e = 34" | "e = 33" | "e \<le> 32" by linarith
  then show ?thesis
  proof cases
    case 1
    then have "(256::nat) ^ 32 \<le> 256 ^ (e - 3)" by (intro power_increasing) simp_all
    then have "2 ^ 256 \<le> m * 256 ^ (e - 3)" if "m \<noteq> 0"
      using mult_le_mono [of 1 m "256 ^ 32" "256 ^ (e - 3)"] that by simp
    then show ?thesis using 1 by (cases "m = 0") auto
  next
    case 4
    then have "(256::nat) ^ (e - 3) \<le> 256 ^ 29" by (intro power_increasing) simp_all
    moreover have "m \<le> 2 ^ 23" using assms by simp
    ultimately have "m * 256 ^ (e - 3) \<le> 2 ^ 23 * 256 ^ 29" by (intro mult_le_mono)
    also have "\<dots> < (2 ^ 256 :: nat)" by simp
    finally show ?thesis using 4 by auto
  qed auto
qed

lemma SetCompact_overflow_iff:
  assumes "SetCompact n = (b, neg, ovf)"
  shows "ovf \<longleftrightarrow> 2 ^ 256 \<le> compact_mantissa n * 256 ^ (compact_size n - 3)"
proof (cases "compact_size n \<le> 3")
  case True
  have "compact_mantissa n < 2 ^ 23" by simp
  then have "\<not> 2 ^ 256 \<le> compact_mantissa n * 256 ^ (compact_size n - 3)" using True by simp
  then show ?thesis using SetCompact_flags(2) [OF assms] True by simp
next
  case False
  have m: "unat (n AND 0x007fffff) = compact_mantissa n" by (rule u32_mantissa)
  have "n AND 0x007fffff \<noteq> 0 \<longleftrightarrow> compact_mantissa n \<noteq> 0" unfolding m [symmetric] by (simp add: unat_eq_0)
  moreover have "0xff < n AND 0x007fffff \<longleftrightarrow> 255 < compact_mantissa n"
    "0xffff < n AND 0x007fffff \<longleftrightarrow> 65535 < compact_mantissa n"
    unfolding word_less_nat_alt m by simp_all
  moreover have "compact_mantissa n < 2 ^ 23" by simp
  ultimately show ?thesis
    using SetCompact_flags(2) [OF assms] False compact_overflow_arith [of "compact_mantissa n" "compact_size n"]
    by (simp only: if_False not_le)
qed

lemma SetCompact_exact:
  assumes "SetCompact n = (b, neg, False)"
  shows "uval b = compact_mantissa n * 256 ^ (compact_size n - 3) div 256 ^ (3 - compact_size n)"
  using SetCompact_value(2) [OF assms] SetCompact_overflow_iff [OF assms]
  by (cases "compact_size n \<le> 3") simp_all

lemma exp_256_split: "\<not> s \<le> 3 \<Longrightarrow> (256::nat) ^ s = 256 ^ 3 * 256 ^ (s - 3)"
  by (simp only: power_add [symmetric] not_le less_imp_le le_add_diff_inverse)

subsection \<open>\<open>GetCompact\<close> as arithmetic\<close>

definition is_byte_size :: "nat \<Rightarrow> nat \<Rightarrow> bool" where
  "is_byte_size v s \<longleftrightarrow> v < 256 ^ s \<and> (0 < s \<longrightarrow> 256 ^ (s - 1) \<le> v)"

definition compact_norm :: "nat \<Rightarrow> nat \<Rightarrow> nat \<times> nat" where
  "compact_norm v s =
     (let c = (if s \<le> 3 then v * 256 ^ (3 - s) else v div 256 ^ (s - 3))
      in if 2 ^ 23 \<le> c then (c div 256, s + 1) else (c, s))"

lemma is_byte_size_unique: "is_byte_size v s \<Longrightarrow> is_byte_size v t \<Longrightarrow> s = t"
proof -
  have le: "s \<le> t" if "is_byte_size v s" "is_byte_size v t" for s t
  proof (rule ccontr)
    assume "\<not> s \<le> t"
    then have "256 ^ t \<le> (256::nat) ^ (s - 1)" "0 < s" by (auto intro: power_increasing)
    moreover have "v < 256 ^ t" "0 < s \<Longrightarrow> 256 ^ (s - 1) \<le> v" using that by (simp_all add: is_byte_size_def)
    ultimately show False by linarith
  qed
  show "is_byte_size v s \<Longrightarrow> is_byte_size v t \<Longrightarrow> s = t" using le [of s t] le [of t s] by simp
qed

lemma is_byte_size_bits:
  assumes "wf_uint a"
  shows "is_byte_size (uval a) ((uint_bits a + 7) div 8)" and "(uint_bits a + 7) div 8 \<le> 32"
proof -
  note b = uint_bits_bounds [OF assms]
  let ?s = "(uint_bits a + 7) div 8"
  show "?s \<le> 32" using b(4) by simp
  have "uval a < 2 ^ uint_bits a" by (rule b(1))
  also have "\<dots> \<le> 2 ^ (8 * ?s)" by (rule power_increasing) simp_all
  finally have "uval a < 256 ^ ?s" by (simp only: exp_256)
  moreover have "256 ^ (?s - 1) \<le> uval a" if "0 < ?s"
  proof -
    from that have "uint_bits a \<noteq> 0" by (cases "uint_bits a") simp_all
    then have "2 ^ (uint_bits a - 1) \<le> uval a" using b(2,3) by simp
    moreover have "8 * (?s - 1) \<le> uint_bits a - 1" by simp
    then have "(2::nat) ^ (8 * (?s - 1)) \<le> 2 ^ (uint_bits a - 1)" by (intro power_increasing) simp_all
    ultimately show ?thesis by (simp only: exp_256)
  qed
  ultimately show "is_byte_size (uval a) ?s" by (simp add: is_byte_size_def)
qed

lemma compact_norm_bounds:
  assumes "is_byte_size v s" and "compact_norm v s = (m, e)"
  shows "m < 2 ^ 23" and "e \<le> s + 1" and "s \<le> e"
proof -
  let ?c = "if s \<le> 3 then v * 256 ^ (3 - s) else v div 256 ^ (s - 3)"
  have v: "v < 256 ^ s" using assms(1) by (simp add: is_byte_size_def)
  have "?c < 256 ^ 3"
  proof (cases "s \<le> 3")
    case True
    have "v * 256 ^ (3 - s) < 256 ^ s * 256 ^ (3 - s)" using v by simp
    also have "\<dots> = 256 ^ 3" using True by (simp flip: power_add)
    finally show ?thesis using True by simp
  next
    case False
    have "256 ^ s = (256::nat) ^ 3 * 256 ^ (s - 3)" using False by (rule exp_256_split)
    then have "v div 256 ^ (s - 3) < 256 ^ 3" using v by (simp only: less_mult_imp_div_less)
    then show ?thesis using False by simp
  qed
  then have "?c div 256 < 2 ^ 23" by simp
  then show "m < 2 ^ 23" "e \<le> s + 1" "s \<le> e"
    using assms(2) by (auto simp: compact_norm_def Let_def split: if_splits)
qed

text \<open>The 24-bit intermediate of \<open>GetCompact\<close>, before the sign bit is made free.\<close>

definition compact_raw :: "base_uint \<Rightarrow> nat \<Rightarrow> u32" where
  "compact_raw a s = (if s \<le> 3 then ucast (push_bit (8 * (3 - s)) (GetLow64 a))
     else ucast (GetLow64 (uint_shr a (8 * (s - 3)))))"

lemma compact_raw_value:
  assumes "wf_uint a" and s: "is_byte_size (uval a) s"
  shows "unat (compact_raw a s) = (if s \<le> 3 then uval a * 256 ^ (3 - s) else uval a div 256 ^ (s - 3))"
    and "unat (compact_raw a s) < 2 ^ 24"
proof -
  have v: "uval a < 256 ^ s" using s by (simp add: is_byte_size_def)
  have *: "unat (compact_raw a s) = (if s \<le> 3 then uval a * 256 ^ (3 - s) else uval a div 256 ^ (s - 3)) \<and>
      unat (compact_raw a s) < 2 ^ 24"
  proof (cases "s \<le> 3")
    case True
    have "uval a * 256 ^ (3 - s) < 256 ^ s * 256 ^ (3 - s)" using v by simp
    also have "\<dots> = 2 ^ 24" using True by (simp flip: power_add)
    finally have c: "uval a * 256 ^ (3 - s) < 2 ^ 24" .
    then have "uval a < 2 ^ 24" using le_less_trans [OF _ c, of "uval a"] by simp
    then have "unat (GetLow64 a) = uval a" using assms(1) by (simp add: GetLow64_value)
    then have "unat (push_bit (8 * (3 - s)) (GetLow64 a)) = uval a * 256 ^ (3 - s) mod 2 ^ 64"
      by (simp only: unsigned_push_bit_eq take_bit_eq_mod [where ?'a = nat] push_bit_eq_mult [where ?'a = nat] exp_256) simp
    then have "unat (compact_raw a s) = uval a * 256 ^ (3 - s)"
      using True c by (simp add: compact_raw_def unat_ucast_mod)
    then show ?thesis using c True by simp
  next
    case False
    have "256 ^ s = (256::nat) ^ 3 * 256 ^ (s - 3)" using False by (rule exp_256_split)
    then have c: "uval a div 256 ^ (s - 3) < 256 ^ 3" using v by (simp only: less_mult_imp_div_less)
    have "unat (GetLow64 (uint_shr a (8 * (s - 3)))) = uval a div 256 ^ (s - 3) mod 2 ^ 64"
      using assms(1) by (simp only: GetLow64_value wf_uint_simps uint_shr_value exp_256)
    then have "unat (compact_raw a s) = uval a div 256 ^ (s - 3)"
      using False c by (simp add: compact_raw_def unat_ucast_mod)
    then show ?thesis using c False by simp
  qed
  from * show "unat (compact_raw a s) = (if s \<le> 3 then uval a * 256 ^ (3 - s) else uval a div 256 ^ (s - 3))"
    by (rule conjunct1)
  from * show "unat (compact_raw a s) < 2 ^ 24" by (rule conjunct2)
qed

lemma sign_bit_iff: "unat (x::u32) < 2 ^ 24 \<Longrightarrow> x AND 0x00800000 \<noteq> 0 \<longleftrightarrow> 2 ^ 23 \<le> unat x"
proof -
  assume x: "unat x < 2 ^ 24"
  have "x AND 0x00800000 \<noteq> 0 \<longleftrightarrow> bit (unat x) 23" using u32_bit [of 23 x] by simp
  also have "\<dots> \<longleftrightarrow> 2 ^ 23 \<le> unat x"
    using bit_top_cases [of "unat x" 23] x by (auto simp flip: not_less)
  finally show ?thesis .
qed

lemma mantissa_clear: "unat (x::u32) < 2 ^ 23 \<Longrightarrow> x AND (NOT 0x007fffff) = 0"
proof -
  assume "unat x < 2 ^ 23"
  then have "x AND mask 23 = x" by (intro less_mask_eq) (simp add: word_less_nat_alt)
  then have "x AND NOT (mask 23) = (x AND mask 23) AND NOT (mask 23)" by simp
  also have "\<dots> = 0" by (intro bit_word_eqI) (simp add: bit_and_iff bit_not_iff)
  finally show ?thesis by (simp add: mask_eq_exp_minus_1)
qed

lemma or_size_field:
  fixes x :: u32
  assumes "unat x < 2 ^ 24" and "e < 256"
  shows "unat (x OR push_bit 24 (of_nat e)) = unat x + 2 ^ 24 * e"
proof -
  have "bit (unat (x OR push_bit 24 (of_nat e))) n \<longleftrightarrow> bit (unat x + 2 ^ 24 * e) n" for n
  proof -
    have "bit (unat x + 2 ^ 24 * e) n \<longleftrightarrow> (if n < 24 then bit (unat x) n else bit e (n - 24))"
      using assms(1) by (rule bit_add_mult_exp)
    moreover have "\<not> bit (unat x) n" if "24 \<le> n" using assms(1) that by (rule not_bit_ge)
    moreover have "bit e (n - 24) \<longrightarrow> n < 32"
    proof (rule impI, rule ccontr)
      assume "bit e (n - 24)" and "\<not> n < 32"
      moreover from this have "8 \<le> n - 24" by simp
      ultimately show False using assms(2) not_bit_ge [of e 8 "n - 24"] by simp
    qed
    ultimately show ?thesis
      by (auto simp: bit_unsigned_iff bit_or_iff bit_push_bit_iff bit_of_nat_iff possible_bit_word dest: bit_imp_le_length)
  qed
  then show ?thesis by (rule bit_eqI)
qed

lemma GetCompact_norm:
  assumes "wf_uint a" and s: "is_byte_size (uval a) s" and me: "compact_norm (uval a) s = (m, e)"
  shows "\<exists>n. GetCompact a False = Some n \<and> unat n = m + 2 ^ 24 * e"
proof -
  have s_eq: "(uint_bits a + 7) div 8 = s" and s32: "s \<le> 32"
    using is_byte_size_bits [OF assms(1)] is_byte_size_unique [OF s] by auto
  let ?c = "compact_raw a s"
  note c = compact_raw_value [OF assms(1) s]
  note b = compact_norm_bounds [OF s me]
  define x where "x = (if ?c AND 0x00800000 \<noteq> 0 then drop_bit 8 ?c else ?c)"
  have sign: "?c AND 0x00800000 \<noteq> 0 \<longleftrightarrow> 2 ^ 23 \<le> unat ?c" using c(2) by (rule sign_bit_iff)
  have x: "unat x = m" and e: "e = (if ?c AND 0x00800000 \<noteq> 0 then s + 1 else s)"
    using me unfolding compact_norm_def Let_def c(1) [symmetric] x_def
    by (auto simp: sign u32_drop split: if_splits)
  have "GetCompact a False = (if x AND (NOT 0x007fffff) \<noteq> 0 \<or> e \<ge> 256 then None
      else Some ((x OR push_bit 24 (of_nat e)) OR 0))"
    unfolding GetCompact_def s_eq Let_def compact_raw_def [symmetric] x_def e
    by (cases "?c AND 0x00800000 \<noteq> 0") simp_all
  moreover have "x AND (NOT 0x007fffff) = 0" using b(1) x by (intro mantissa_clear) simp
  moreover have "e < 256" using b(2) s32 by simp
  moreover have "unat (x OR push_bit 24 (of_nat e)) = m + 2 ^ 24 * e"
    using or_size_field [of x e] x b(1) \<open>e < 256\<close> by simp
  ultimately show ?thesis by simp
qed

lemma compact_fields:
  assumes "unat n = m + 2 ^ 24 * e" and "m < 2 ^ 23"
  shows "compact_mantissa n = m" and "compact_size n = e" and "n AND 0x00800000 = 0"
proof -
  have "unat n = m + 2 ^ 23 * (2 * e)" using assms by simp
  then have "unat n mod 2 ^ 23 = m" "unat n div 2 ^ 23 = 2 * e"
    using assms(2) by (simp_all only: mod_mult_self2 mod_less div_mult_self2) simp_all
  moreover from this have "\<not> odd (unat n div 2 ^ 23)" by (simp only: even_mult_iff) simp
  then have "n AND 0x00800000 = 0" using u32_sign [of n] by blast
  moreover have "unat n div 2 ^ 24 = e" using assms by simp
  ultimately show "compact_mantissa n = m" "compact_size n = e" "n AND 0x00800000 = 0" by blast+
qed

text \<open>What a round trip through the compact form keeps: the leading bytes of the number.\<close>

lemma compact_norm_value:
  assumes s: "is_byte_size v s" and me: "compact_norm v s = (m, e)"
  shows "m * 256 ^ (e - 3) div 256 ^ (3 - e) = v div 256 ^ (e - 3) * 256 ^ (e - 3)"
proof (cases "e \<le> 3")
  case True
  let ?c = "v * 256 ^ (3 - s)"
  have se: "s \<le> e" using compact_norm_bounds(3) [OF s me] .
  have s3: "s \<le> 3" using se True by simp
  have cn: "compact_norm v s = (if 2 ^ 23 \<le> ?c then (?c div 256, s + 1) else (?c, s))"
    unfolding compact_norm_def Let_def if_P [OF s3] by (rule refl)
  show ?thesis
  proof (cases "2 ^ 23 \<le> ?c")
    case c: True
    then have eq: "m = ?c div 256" "e = s + 1" using cn me by (simp_all only: if_True prod.inject)
    then have "3 - s = Suc (3 - e)" using True by simp
    then have "m = v * 256 ^ (3 - e)" using eq(1) by simp
    then show ?thesis using True by simp
  next
    case c: False
    then have "m = ?c" "e = s" using cn me by (simp_all only: if_False prod.inject)
    then show ?thesis using True by simp
  qed
next
  case False
  have es: "s \<le> e" "e \<le> s + 1" using compact_norm_bounds(2,3) [OF s me] by simp_all
  have "m = v div 256 ^ (e - 3)"
  proof (cases "s \<le> 3")
    case True
    then have "s = 3" "e = 4" using False es by simp_all
    then show ?thesis using me by (auto simp: compact_norm_def Let_def split: if_splits)
  next
    case s3: False
    then have "(256::nat) ^ (s + 1 - 3) = 256 ^ (s - 3) * 256"
      by (simp only: power_Suc2 [symmetric] not_le Suc_eq_plus1 [symmetric] Suc_diff_le less_imp_le)
    then have "v div 256 ^ (s - 3) div 256 = v div 256 ^ (s + 1 - 3)" by (simp only: div_mult2_eq)
    then show ?thesis using me s3 by (auto simp: compact_norm_def Let_def split: if_splits)
  qed
  then show ?thesis using False by simp
qed

lemma GetCompact_SetCompact:
  assumes "wf_uint a"
  obtains n e b where "GetCompact a False = Some n" and "SetCompact n = (b, False, False)"
    and "wf_uint b" and "compact_size n = e" and "uval b = uval a div 256 ^ (e - 3) * 256 ^ (e - 3)"
    and "is_byte_size (uval a) e \<or> (0 < e \<and> is_byte_size (uval a) (e - 1))"
    and "compact_norm (uval a) ((uint_bits a + 7) div 8) = (compact_mantissa n, e)"
proof -
  let ?s = "(uint_bits a + 7) div 8"
  note s = is_byte_size_bits(1) [OF assms]
  obtain m e where me: "compact_norm (uval a) ?s = (m, e)" by fastforce
  note nb = compact_norm_bounds [OF s me]
  obtain n where n: "GetCompact a False = Some n" "unat n = m + 2 ^ 24 * e"
    using GetCompact_norm [OF assms s me] by blast
  note f = compact_fields [OF n(2) nb(1)]
  obtain b neg ovf where b: "SetCompact n = (b, neg, ovf)" by (cases "SetCompact n")
  have "\<not> neg" using SetCompact_flags(1) [OF b] f(3) by simp
  moreover have "\<not> ovf"
  proof -
    have "m * 256 ^ (e - 3) div 256 ^ (3 - e) \<le> uval a"
      unfolding compact_norm_value [OF s me] by simp
    also have "\<dots> < 2 ^ 256" using uval_less [of a] assms by (simp add: wf_uint_def WIDTH_def)
    finally have "m * 256 ^ (e - 3) div 256 ^ (3 - e) < 2 ^ 256" .
    moreover have "m < 2 ^ 256" using nb(1) by simp
    ultimately have "m * 256 ^ (e - 3) < 2 ^ 256" by (cases "e \<le> 3") simp_all
    then show ?thesis using SetCompact_overflow_iff [OF b] f by simp
  qed
  ultimately have b': "SetCompact n = (b, False, False)" using b by simp
  have "uval b = uval a div 256 ^ (e - 3) * 256 ^ (e - 3)"
    using SetCompact_exact [OF b'] compact_norm_value [OF s me] f by simp
  moreover have "is_byte_size (uval a) e \<or> (0 < e \<and> is_byte_size (uval a) (e - 1))"
  proof -
    from nb(2,3) consider "e = ?s" | "e = ?s + 1" by linarith
    then show ?thesis using s by cases simp_all
  qed
  ultimately show ?thesis using that n(1) b' SetCompact_value(1) [OF b'] f me by blast
qed

lemma compact_norm_ge3:
  "3 \<le> s \<Longrightarrow> compact_norm v s =
     (if 2 ^ 23 \<le> v div 256 ^ (s - 3) then (v div 256 ^ (s - 3) div 256, s + 1) else (v div 256 ^ (s - 3), s))"
  by (cases "s = 3") (simp_all add: compact_norm_def Let_def)

lemma compact_norm_truncate:
  assumes s: "is_byte_size v s" and me: "compact_norm v s = (m, e)"
  defines "w \<equiv> v div 256 ^ (e - 3) * 256 ^ (e - 3)"
  shows "is_byte_size w s" and "compact_norm w s = (m, e)"
proof -
  note nb = compact_norm_bounds [OF s me]
  have "is_byte_size w s \<and> compact_norm w s = (m, e)"
  proof (cases "e \<le> 3")
    case True
    then have "w = v" by (simp add: w_def)
    then show ?thesis using s me by simp
  next
    case False
    then have s3: "3 \<le> s" and k: "e - 3 \<le> s - 1" using nb by simp_all
    have v: "v < 256 ^ s" "256 ^ (s - 1) \<le> v" using s s3 by (simp_all add: is_byte_size_def)
    have "w \<le> v" by (simp add: w_def)
    moreover have "256 ^ (s - 1) \<le> w"
    proof -
      have "(256::nat) ^ (e - 3) dvd 256 ^ (s - 1)" using k by (rule le_imp_power_dvd)
      then have "(256::nat) ^ (s - 1) = 256 ^ (s - 1) div 256 ^ (e - 3) * 256 ^ (e - 3)" by simp
      also have "\<dots> \<le> w" unfolding w_def using v(2) by (intro mult_le_mono1 div_le_mono)
      finally show ?thesis .
    qed
    ultimately have bs: "is_byte_size w s" using v by (simp add: is_byte_size_def)
    let ?c = "v div 256 ^ (s - 3)"
    have "compact_norm w s = compact_norm v s"
    proof (cases "2 ^ 23 \<le> ?c")
      case True
      then have "e = s + 1" using me compact_norm_ge3 [OF s3, of v] by simp
      moreover have "(256::nat) ^ (s + 1 - 3) = 256 ^ (s - 3) * 256"
        using s3 by (simp only: power_Suc2 [symmetric] Suc_eq_plus1 [symmetric] Suc_diff_le)
      ultimately have K: "(256::nat) ^ (e - 3) = 256 ^ (s - 3) * 256" by simp
      have "v div 256 ^ (e - 3) = ?c div 256" unfolding K by (rule div_mult2_eq)
      then have "w = (?c div 256 * 256) * 256 ^ (s - 3)" using K by (simp only: w_def ac_simps)
      then have w: "w div 256 ^ (s - 3) = ?c div 256 * 256" by simp
      have "(2::nat) ^ 23 div 256 * 256 \<le> ?c div 256 * 256"
        using True by (intro mult_le_mono1 div_le_mono)
      then have "2 ^ 23 \<le> ?c div 256 * 256" by simp
      then show ?thesis using True by (simp add: compact_norm_ge3 [OF s3] w)
    next
      case False
      then have "e = s" using me compact_norm_ge3 [OF s3, of v] by simp
      then have "w div 256 ^ (s - 3) = ?c" by (simp add: w_def)
      then show ?thesis using False by (simp add: compact_norm_ge3 [OF s3])
    qed
    then show ?thesis using bs me by simp
  qed
  then show "is_byte_size w s" "compact_norm w s = (m, e)" by simp_all
qed

lemma compact_norm_precision:
  assumes s: "is_byte_size v s" and me: "compact_norm v s = (m, e)"
  defines "w \<equiv> v div 256 ^ (e - 3) * 256 ^ (e - 3)"
  shows "(v - w) * 2 ^ 15 \<le> w"
proof (cases "e \<le> 3")
  case True
  then show ?thesis by (simp add: w_def)
next
  case False
  note nb = compact_norm_bounds [OF s me]
  have s3: "3 \<le> s" using False nb by simp
  let ?c = "v div 256 ^ (s - 3)" and ?K = "(256::nat) ^ (e - 3)"
  have "2 ^ 15 \<le> v div ?K"
  proof (cases "2 ^ 23 \<le> ?c")
    case True
    then have e: "e = s + 1" using me compact_norm_ge3 [OF s3, of v] by simp
    have "(256::nat) ^ (s + 1 - 3) = 256 ^ (s - 3) * 256"
      using s3 by (simp only: power_Suc2 [symmetric] Suc_eq_plus1 [symmetric] Suc_diff_le)
    then have "v div ?K = ?c div 256" using e by (simp only: div_mult2_eq)
    moreover have "(2::nat) ^ 23 div 256 \<le> ?c div 256" using True by (rule div_le_mono)
    ultimately show ?thesis by simp
  next
    case c: False
    then have e: "e = s" using me compact_norm_ge3 [OF s3, of v] by simp
    have "256 ^ (s - 1) \<le> v" using s s3 by (simp add: is_byte_size_def)
    moreover have "s - 1 = 2 + (s - 3)" using s3 by simp
    then have "(256::nat) ^ (s - 1) = 256 ^ 2 * 256 ^ (s - 3)" by (simp only: power_add)
    ultimately have "256 ^ 2 * 256 ^ (s - 3) div 256 ^ (s - 3) \<le> v div 256 ^ (s - 3)"
      by (intro div_le_mono) simp
    then show ?thesis using e by simp
  qed
  then have K: "?K * 2 ^ 15 \<le> w" unfolding w_def by (simp add: mult.commute)
  have "v - w = v mod ?K" by (simp add: w_def minus_div_mult_eq_mod)
  moreover have "v mod ?K \<le> ?K" by simp
  ultimately have "(v - w) * 2 ^ 15 \<le> ?K * 2 ^ 15" by (simp only: mult_le_mono1)
  then show ?thesis using K by (rule order_trans)
qed

subsection \<open>Byte order\<close>

lemma ReadLE32_WriteLE32: "ReadLE32 (WriteLE32 x @ bs) = x"
proof (rule bit_word_eqI)
  fix n
  assume n: "n < LENGTH(32)"
  have l: "ReadLE32 (WriteLE32 x @ bs) = ucast (ucast x :: byte) OR push_bit 8 (ucast (ucast (drop_bit 8 x) :: byte))
      OR push_bit 16 (ucast (ucast (drop_bit 16 x) :: byte)) OR push_bit 24 (ucast (ucast (drop_bit 24 x) :: byte))"
    by (simp only: ReadLE32_def WriteLE32_def append_Cons nth_Cons_0 nth_Cons_Suc One_nat_def
        numeral_2_eq_2 numeral_3_eq_3)
  have "bit (ReadLE32 (WriteLE32 x @ bs)) n \<longleftrightarrow>
      n < 8 \<and> bit x n \<or> 8 \<le> n \<and> n - 8 < 8 \<and> bit x (8 + (n - 8)) \<or>
      16 \<le> n \<and> n - 16 < 8 \<and> bit x (16 + (n - 16)) \<or> 24 \<le> n \<and> n - 24 < 8 \<and> bit x (24 + (n - 24))"
    unfolding l using n
    by (simp only: bit_or_iff bit_push_bit_iff bit_ucast_iff bit_drop_bit_eq o_apply possible_bit_word) auto
  moreover have "8 \<le> n \<Longrightarrow> 8 + (n - 8) = n" "16 \<le> n \<Longrightarrow> 16 + (n - 16) = n" "24 \<le> n \<Longrightarrow> 24 + (n - 24) = n"
    by simp_all
  moreover have "n < 8 \<or> 8 \<le> n \<and> n - 8 < 8 \<or> 16 \<le> n \<and> n - 16 < 8 \<or> 24 \<le> n \<and> n - 24 < 8"
    using n by simp linarith
  ultimately show "bit (ReadLE32 (WriteLE32 x @ bs)) n = bit x n" by metis
qed

lemma length_WriteLE32 [simp]: "length (WriteLE32 x) = 4"
  by (simp add: WriteLE32_def)

lemma drop_ArithToUint256:
  "k \<le> n \<Longrightarrow> drop (4 * k) (concat (map (\<lambda>x. WriteLE32 (a ! x)) [0..<n])) =
     concat (map (\<lambda>x. WriteLE32 (a ! x)) [k..<n])"
proof (induction k)
  case 0
  then show ?case by simp
next
  case (Suc k)
  have "drop (4 * Suc k) (concat (map (\<lambda>x. WriteLE32 (a ! x)) [0..<n])) =
      drop 4 (drop (4 * k) (concat (map (\<lambda>x. WriteLE32 (a ! x)) [0..<n])))" by (simp add: add.commute)
  also have "\<dots> = drop 4 (concat (map (\<lambda>x. WriteLE32 (a ! x)) [k..<n]))" using Suc by simp
  also have "[k..<n] = k # [Suc k..<n]" using Suc.prems by (simp add: upt_conv_Cons)
  finally show ?case by simp
qed

lemma UintToArith256_ArithToUint256: "wf_uint a \<Longrightarrow> UintToArith256 (ArithToUint256 a) = a"
proof (rule nth_equalityI)
  assume a: "wf_uint a"
  then show "length (UintToArith256 (ArithToUint256 a)) = length a"
    by (simp add: UintToArith256_def wf_uint_def)
  fix i
  assume "i < length (UintToArith256 (ArithToUint256 a))"
  then have i: "i < WIDTH" by (simp add: UintToArith256_def)
  then have "drop (4 * i) (ArithToUint256 a) = WriteLE32 (a ! i) @ concat (map (\<lambda>x. WriteLE32 (a ! x)) [Suc i..<WIDTH])"
    using drop_ArithToUint256 [of i WIDTH a] upt_conv_Cons [of i WIDTH] by (simp add: ArithToUint256_def)
  then show "UintToArith256 (ArithToUint256 a) ! i = a ! i"
    using i by (simp add: UintToArith256_def ReadLE32_WriteLE32)
qed

lemma wf_UintToArith256 [simp]: "wf_uint (UintToArith256 b)"
  by (simp add: wf_uint_def UintToArith256_def)

text \<open>The number whose little-endian bytes a list holds.\<close>

definition le_value :: "bytes \<Rightarrow> nat" where
  "le_value bs = foldr (\<lambda>x v. unat x + 256 * v) bs 0"

lemma byte_of_u32: "unat (ucast (drop_bit k (x::u32)) :: byte) = unat x div 2 ^ k mod 256"
  using unat_ucast_mod [of "drop_bit k x", where ?'b = 8] by (simp add: u32_drop)

lemma le_value_WriteLE32: "le_value (WriteLE32 x @ bs) = unat x + 2 ^ 32 * le_value bs"
proof -
  let ?n = "unat x"
  have "?n div 2 ^ 24 < 256" using unat_u32_less [of x] by (simp add: less_mult_imp_div_less)
  then have top: "?n div 2 ^ 24 mod 256 = ?n div 2 ^ 24" by simp
  have split: "m = m mod 256 + 256 * (m div 256)" for m :: nat by simp
  have "?n = ?n mod 256 + 256 * (?n div 2 ^ 8 mod 256 + 256 * (?n div 2 ^ 16 mod 256 + 256 * (?n div 2 ^ 24)))"
    using split [of ?n] split [of "?n div 2 ^ 8"] split [of "?n div 2 ^ 16"]
      div_mult2_eq [of ?n "2 ^ 8" 256] div_mult2_eq [of ?n "2 ^ 16" 256] by simp
  then show ?thesis
    using byte_of_u32 [of 0 x] byte_of_u32 [of 8 x] byte_of_u32 [of 16 x] byte_of_u32 [of 24 x] top
    by (simp add: WriteLE32_def le_value_def)
qed

lemma le_value_limbs: "le_value (concat (map WriteLE32 a)) = uval a"
  by (induction a) (simp_all add: le_value_WriteLE32, simp add: le_value_def)

lemma length_limb_bytes: "length (concat (map WriteLE32 a)) = 4 * length a"
  by (induction a) simp_all

lemma ArithToUint256_concat: "wf_uint a \<Longrightarrow> ArithToUint256 a = concat (map WriteLE32 a)"
proof -
  assume "wf_uint a"
  then have "map (\<lambda>x. WriteLE32 (a ! x)) [0..<WIDTH] = map WriteLE32 a"
    using map_nth [of a] by (metis (no_types, lifting) map_map comp_def map_eq_conv wf_uint_def)
  then show ?thesis by (simp add: ArithToUint256_def)
qed

subsection \<open>What a caller of the encoding relies on\<close>

text \<open>
  The difficulty rules compute a number, cap it and return its code; the checks decode a code and read its
  flags. What they rely on is that codes exist, decode without a flag, and lose at most one part in
  \<open>2 ^ 15\<close>, always downwards.
\<close>

locale target_codec =
  fixes enc :: "'t \<Rightarrow> 'c option" and dec :: "'c \<Rightarrow> 't \<times> bool \<times> bool"
    and val :: "'t \<Rightarrow> nat" and wf :: "'t \<Rightarrow> bool"
  assumes enc_dec: "wf t \<Longrightarrow> \<exists>c u. enc t = Some c \<and> dec c = (u, False, False) \<and> wf u \<and>
      val u \<le> val t \<and> (val t - val u) * 2 ^ 15 \<le> val u"
begin

lemma enc_le:
  assumes "wf t" and "val t \<le> m"
  shows "\<exists>c u. enc t = Some c \<and> dec c = (u, False, False) \<and> wf u \<and> val u \<le> m"
  using enc_dec [OF assms(1)] assms(2) by (meson le_trans)

lemma enc_capped:
  assumes "wf t" and "wf l" and "P \<Longrightarrow> val t \<le> val l"
  shows "\<exists>c u. enc (if P then t else l) = Some c \<and> dec c = (u, False, False) \<and> wf u \<and> val u \<le> val l"
  using enc_le [of "if P then t else l" "val l"] assms by (cases P) auto

lemma enc_zero_iff:
  assumes "enc t = Some c" and "wf t" and "dec c = (u, neg, ovf)"
  shows "val u = 0 \<longleftrightarrow> val t = 0"
  using enc_dec [OF assms(2)] assms(1,3) by auto

end

interpretation compact: target_codec "\<lambda>a. GetCompact a False" SetCompact uval wf_uint
proof
  fix t
  assume t: "wf_uint t"
  obtain n e b where n: "GetCompact t False = Some n" "SetCompact n = (b, False, False)" "wf_uint b"
      "uval b = uval t div 256 ^ (e - 3) * 256 ^ (e - 3)"
      "compact_norm (uval t) ((uint_bits t + 7) div 8) = (compact_mantissa n, e)"
    by (rule GetCompact_SetCompact [OF t])
  have "uval b \<le> uval t" unfolding n(4) by simp
  moreover have "(uval t - uval b) * 2 ^ 15 \<le> uval b"
    using compact_norm_precision [OF is_byte_size_bits(1) [OF t] n(5), folded n(4)] .
  ultimately show "\<exists>c u. GetCompact t False = Some c \<and> SetCompact c = (u, False, False) \<and> wf_uint u \<and>
      uval u \<le> uval t \<and> (uval t - uval u) * 2 ^ 15 \<le> uval u"
    using n(1-3) by blast
qed

subsection \<open>The compact encoding and the byte order\<close>

text \<open>\<open>SetCompact\<close> decodes mantissa and exponent to the number of the format's
  documentation, and sets the overflow flag exactly when that number does not fit 256 bits.\<close>

theorem SetCompact_decodes:
  "(case SetCompact n of (b, neg, ovf) \<Rightarrow>
      wf_uint b \<and>
      (ovf \<longleftrightarrow> 2 ^ 256 \<le> compact_mantissa n * 256 ^ (compact_size n - 3)) \<and>
      uval b = (compact_mantissa n * 256 ^ (compact_size n - 3) div 256 ^ (3 - compact_size n)) mod 2 ^ 256)"
proof -
  obtain b neg ovf where e: "SetCompact n = (b, neg, ovf)" by (cases "SetCompact n")
  have "compact_mantissa n div 256 ^ (3 - compact_size n) \<le> compact_mantissa n" by (rule div_le_dividend)
  also have "\<dots> < 2 ^ 256" by (rule less_trans [of _ "2 ^ 23"]) simp_all
  finally show ?thesis
    using SetCompact_value [OF e] SetCompact_overflow_iff [OF e] e
    by (cases "compact_size n \<le> 3") simp_all
qed

text \<open>C22: every 256-bit target encodes without an assertion failure; the code decodes,
  without a sign or overflow flag, to a target that is not above the original, differs by less than
  one part in \<open>2 ^ 15\<close>, and encodes to the same code again.\<close>

theorem compact_roundtrip:
  assumes "wf_uint a"
  shows "\<exists>n b. GetCompact a False = Some n \<and> SetCompact n = (b, False, False) \<and>
    uval b \<le> uval a \<and> (uval a - uval b) * 2 ^ 15 \<le> uval b \<and> GetCompact b False = Some n"
proof -
  obtain n e b where n: "GetCompact a False = Some n" "SetCompact n = (b, False, False)" "wf_uint b"
      "uval b = uval a div 256 ^ (e - 3) * 256 ^ (e - 3)"
      "compact_norm (uval a) ((uint_bits a + 7) div 8) = (compact_mantissa n, e)" "compact_size n = e"
    by (rule GetCompact_SetCompact [OF assms])
  note s = is_byte_size_bits(1) [OF assms]
  note t = compact_norm_truncate [OF s n(5), folded n(4)]
  obtain k where k: "GetCompact b False = Some k" "unat k = compact_mantissa n + 2 ^ 24 * e"
    using GetCompact_norm [OF n(3) t] by auto
  obtain j where "GetCompact a False = Some j" "unat j = compact_mantissa n + 2 ^ 24 * e"
    using GetCompact_norm [OF assms s n(5)] by auto
  then have "k = n" using n(1) k(2) by (simp add: word_unat_eq_iff)
  moreover have "uval b \<le> uval a" unfolding n(4) by simp
  ultimately show ?thesis using n(1,2) k(1) compact_norm_precision [OF s n(5), folded n(4)] by blast
qed

theorem compact_roundtrip_witness:
  "\<exists>n b. GetCompact (uint_of_u64 0x123456789a) False = Some n \<and> SetCompact n = (b, False, False) \<and>
     uval b \<le> 0x123456789a \<and> (0x123456789a - uval b) * 2 ^ 15 \<le> uval b"
  using compact_roundtrip [of "uint_of_u64 0x123456789a"] by (auto simp: uval_uint_of_u64)

text \<open>Conversion to the 32-byte \<open>uint256\<close> and back is the identity, and the
  bytes are those of the number in little-endian order.\<close>

theorem uint256_bytes_roundtrip:
  assumes "wf_uint a"
  shows "UintToArith256 (ArithToUint256 a) = a \<and> length (ArithToUint256 a) = 32 \<and>
    le_value (ArithToUint256 a) = uval a"
  using assms UintToArith256_ArithToUint256 [OF assms]
  by (simp add: ArithToUint256_concat le_value_limbs length_limb_bytes wf_uint_def WIDTH_def)

theorem uint256_bytes_roundtrip_witness:
  "UintToArith256 (ArithToUint256 (uint_of_u64 77)) = uint_of_u64 77 \<and>
   le_value (ArithToUint256 (uint_of_u64 77)) = 77"
  using uint256_bytes_roundtrip [of "uint_of_u64 77"] by (simp add: uval_uint_of_u64)

end
