(* ===== verification/Serialize.thy ===== *)
theory Serialize
  imports Compact "HOL-Library.Monad_Syntax"
begin

section \<open>Serialization (serialize.h)\<close>

text \<open>
  A stream that is written is the list of its bytes. A reader takes the bytes that are left and returns
  the value with the bytes after it; \<open>None\<close> is the exception \<open>std::ios_base::failure\<close>, thrown at the end
  of the stream and for malformed data.
\<close>

type_synonym 'a reader = "bytes \<Rightarrow> ('a \<times> bytes) option"

definition MAX_SIZE :: u64 where
  "MAX_SIZE = 0x02000000"

subsection \<open>Integers\<close>

fun le_bytes :: "nat \<Rightarrow> nat \<Rightarrow> bytes" where
  "le_bytes 0 v = []"
| "le_bytes (Suc n) v = of_nat v # le_bytes n (v div 256)"

definition read_bytes :: "nat \<Rightarrow> bytes reader" where
  "read_bytes n s = (if length s < n then None else Some (take n s, drop n s))"

definition ser_writedata8 :: "u8 \<Rightarrow> bytes" where
  "ser_writedata8 x = [x]"

definition ser_writedata16 :: "u16 \<Rightarrow> bytes" where
  "ser_writedata16 x = le_bytes 2 (unat x)"

definition ser_writedata16be :: "u16 \<Rightarrow> bytes" where
  "ser_writedata16be x = rev (le_bytes 2 (unat x))"

definition ser_writedata32 :: "u32 \<Rightarrow> bytes" where
  "ser_writedata32 x = le_bytes 4 (unat x)"

definition ser_writedata32be :: "u32 \<Rightarrow> bytes" where
  "ser_writedata32be x = rev (le_bytes 4 (unat x))"

definition ser_writedata64 :: "u64 \<Rightarrow> bytes" where
  "ser_writedata64 x = le_bytes 8 (unat x)"

definition ser_readdata8 :: "u8 reader" where
  "ser_readdata8 s = do { (b, s) \<leftarrow> read_bytes 1 s; Some (hd b, s) }"

definition ser_readdata16 :: "u16 reader" where
  "ser_readdata16 s = do { (b, s) \<leftarrow> read_bytes 2 s; Some (of_nat (le_value b), s) }"

definition ser_readdata16be :: "u16 reader" where
  "ser_readdata16be s = do { (b, s) \<leftarrow> read_bytes 2 s; Some (of_nat (le_value (rev b)), s) }"

definition ser_readdata32 :: "u32 reader" where
  "ser_readdata32 s = do { (b, s) \<leftarrow> read_bytes 4 s; Some (of_nat (le_value b), s) }"

definition ser_readdata32be :: "u32 reader" where
  "ser_readdata32be s = do { (b, s) \<leftarrow> read_bytes 4 s; Some (of_nat (le_value (rev b)), s) }"

definition ser_readdata64 :: "u64 reader" where
  "ser_readdata64 s = do { (b, s) \<leftarrow> read_bytes 8 s; Some (of_nat (le_value b), s) }"

subsection \<open>Compact sizes\<close>

definition GetSizeOfCompactSize :: "u64 \<Rightarrow> nat" where
  "GetSizeOfCompactSize nSize =
     (if nSize < 253 then 1 else if nSize \<le> 0xffff then 1 + 2 else if nSize \<le> 0xffffffff then 1 + 4 else 1 + 8)"

definition WriteCompactSize :: "u64 \<Rightarrow> bytes" where
  "WriteCompactSize nSize =
     (if nSize < 253 then ser_writedata8 (ucast nSize)
      else if nSize \<le> 0xffff then ser_writedata8 253 @ ser_writedata16 (ucast nSize)
      else if nSize \<le> 0xffffffff then ser_writedata8 254 @ ser_writedata32 (ucast nSize)
      else ser_writedata8 255 @ ser_writedata64 nSize)"

definition ReadCompactSize :: "bool \<Rightarrow> u64 reader" where
  "ReadCompactSize range_check s =
     do { (chSize, s) \<leftarrow> ser_readdata8 s;
          (nSizeRet, s) \<leftarrow>
            (if chSize < 253 then Some (ucast chSize, s)
             else if chSize = 253 then
               do { (n, s) \<leftarrow> ser_readdata16 s; if (ucast n :: u64) < 253 then None else Some (ucast n, s) }
             else if chSize = 254 then
               do { (n, s) \<leftarrow> ser_readdata32 s; if (ucast n :: u64) < 0x10000 then None else Some (ucast n, s) }
             else
               do { (n, s) \<leftarrow> ser_readdata64 s; if n < 0x100000000 then None else Some (n, s) });
          if range_check \<and> nSizeRet > MAX_SIZE then None else Some (nSizeRet, s) }"

subsection \<open>Variable-length integers\<close>

text \<open>
  \<open>tmp\<close> is filled from the low digits on and written from its end, so the digit computed last comes
  first; the template's integer type is the word length.
\<close>

lemma varint_shrinks: "\<not> n \<le> 0x7F \<Longrightarrow> unat (drop_bit 7 n - 1) < unat (n :: 'a::len word)"
proof -
  assume a: "\<not> n \<le> 0x7F"
  have len: "7 < LENGTH('a)"
  proof (rule ccontr)
    assume "\<not> 7 < LENGTH('a)"
    then have l: "LENGTH('a) \<le> 7" by simp
    have "(0x7F :: 'a word) = mask 7"
      by (simp add: mask_eq_exp_minus_1)
    also have "\<dots> = - 1"
      using l by (intro bit_word_eqI) (auto simp: bit_mask_iff)
    finally have "n \<le> 0x7F"
      using word_order.extremum [of n] by (simp only:)
    then show False
      using a by contradiction
  qed
  then have "(2::nat) ^ 8 \<le> 2 ^ LENGTH('a)"
    by (intro power_increasing) simp_all
  then have "unat (0x7F :: 'a word) = 127"
    by (simp add: unsigned_numeral take_bit_eq_mod)
  then have "127 < unat n"
    using a by (simp add: word_le_nat_alt)
  moreover have "unat (drop_bit 7 n) = unat n div 128"
    unfolding unat_drop_bit_eq by (simp add: drop_bit_eq_div)
  moreover have "unat (drop_bit 7 n - 1) \<le> unat (drop_bit 7 n) - 1" if "drop_bit 7 n \<noteq> 0"
    using that by (simp add: unat_minus_one)
  ultimately show ?thesis
    by (cases "drop_bit 7 n = 0") auto
qed

function write_varint_loop :: "'a::len word \<Rightarrow> bytes \<Rightarrow> bytes" where
  "write_varint_loop n tmp =
     (let d = ucast (n AND 0x7F) OR (if tmp \<noteq> [] then 0x80 else 0)
      in if n \<le> 0x7F then d # tmp else write_varint_loop (drop_bit 7 n - 1) (d # tmp))"
  by pat_completeness auto
termination
  by (relation "measure (\<lambda>(n, tmp). unat n)") (simp_all add: varint_shrinks)

declare write_varint_loop.simps [simp del]

definition WriteVarInt :: "'a::len word \<Rightarrow> bytes" where
  "WriteVarInt n = write_varint_loop n []"

fun read_varint_loop :: "'a::len word \<Rightarrow> ('a word) reader" where
  "read_varint_loop n [] = None"
| "read_varint_loop n (chData # s) =
     (if n > drop_bit 7 (- 1) then None
      else let n' = push_bit 7 n OR ucast (chData AND 0x7F)
           in if chData AND 0x80 \<noteq> 0 then (if n' = - 1 then None else read_varint_loop (n' + 1) s)
              else Some (n', s))"

definition ReadVarInt :: "('a::len word) reader" where
  "ReadVarInt s = read_varint_loop 0 s"

function GetSizeOfVarInt :: "'a::len word \<Rightarrow> nat" where
  "GetSizeOfVarInt n = (if n \<le> 0x7F then 1 else 1 + GetSizeOfVarInt (drop_bit 7 n - 1))"
  by pat_completeness auto
termination
  by (relation "measure unat") (simp_all add: varint_shrinks)

declare GetSizeOfVarInt.simps [simp del]

subsection \<open>Vectors\<close>

text \<open>
  Vectors of bytes are read in blocks of five million. Other vectors are read element by element; the
  batches of their allocation do not change what is read.
\<close>

function read_blocks :: "nat \<Rightarrow> bytes reader" where
  "read_blocks n s =
     (if n = 0 then Some ([], s)
      else do { (b, s) \<leftarrow> read_bytes (min n 5000000) s;
                (bs, s) \<leftarrow> read_blocks (n - min n 5000000) s;
                Some (b @ bs, s) })"
  by pat_completeness auto
termination
  by (relation "measure (\<lambda>(n, s). n)") auto

declare read_blocks.simps [simp del]

definition ser_bytes :: "bytes \<Rightarrow> bytes" where
  "ser_bytes v = WriteCompactSize (of_nat (length v)) @ v"

definition unser_bytes :: "bytes reader" where
  "unser_bytes s = do { (nSize, s) \<leftarrow> ReadCompactSize True s; read_blocks (unat nSize) s }"

definition ser_vector :: "('a \<Rightarrow> bytes) \<Rightarrow> 'a list \<Rightarrow> bytes" where
  "ser_vector f v = WriteCompactSize (of_nat (length v)) @ concat (map f v)"

fun read_elems :: "'a reader \<Rightarrow> nat \<Rightarrow> 'a list reader" where
  "read_elems f 0 s = Some ([], s)"
| "read_elems f (Suc n) s = do { (x, s) \<leftarrow> f s; (xs, s) \<leftarrow> read_elems f n s; Some (x # xs, s) }"

definition unser_vector :: "'a reader \<Rightarrow> 'a list reader" where
  "unser_vector f s = do { (nSize, s) \<leftarrow> ReadCompactSize True s; read_elems f (unat nSize) s }"

definition ser_limited_string :: "bytes \<Rightarrow> bytes" where
  "ser_limited_string v = ser_bytes v"

definition unser_limited_string :: "u64 \<Rightarrow> bytes reader" where
  "unser_limited_string limit s =
     do { (n, s) \<leftarrow> ReadCompactSize True s; if n > limit then None else read_bytes (unat n) s }"

subsection \<open>Bit sets\<close>

definition GetSizeOfFixedBitSet :: "nat \<Rightarrow> nat" where
  "GetSizeOfFixedBitSet n = (n + 7) div 8"

definition WriteFixedBitSet :: "bool list \<Rightarrow> nat \<Rightarrow> bytes" where
  "WriteFixedBitSet vec n =
     fold (\<lambda>p v. v[p div 8 := v ! (p div 8) OR push_bit (p mod 8) (of_bool (vec ! p))])
       [0..<min n (length vec)] (replicate ((n + 7) div 8) 0)"

definition ReadFixedBitSet :: "nat \<Rightarrow> bool list reader" where
  "ReadFixedBitSet n s =
     do { (vBytes, s) \<leftarrow> read_bytes ((n + 7) div 8) s;
          let vec = map (\<lambda>p. vBytes ! (p div 8) AND push_bit (p mod 8) 1 \<noteq> 0) [0..<n];
              rem = length vBytes * 8 - n
          in if length vBytes * 8 \<noteq> n \<and> vBytes ! (length vBytes - 1) AND NOT (drop_bit rem 0xff) \<noteq> 0
             then None else Some (vec, s) }"

definition int32_of_size :: "nat \<Rightarrow> int" where
  "int32_of_size n = sint (of_nat n :: u32)"

fun varints_of_bits :: "int \<Rightarrow> int \<Rightarrow> bool list \<Rightarrow> bytes" where
  "varints_of_bits prev i [] = []"
| "varints_of_bits prev i (b # bs) =
     (if b then WriteVarInt (word_of_int (i - prev) :: u32) @ varints_of_bits i (i + 1) bs
      else varints_of_bits prev (i + 1) bs)"

definition WriteFixedVarIntsBitSet :: "bool list \<Rightarrow> bytes" where
  "WriteFixedVarIntsBitSet vec =
     varints_of_bits (- 1) 0 (take (nat (int32_of_size (length vec))) vec) @ WriteVarInt (0 :: u32)"

text \<open>
  The reader of the offsets can also write outside the vector; that outcome is told apart from the
  exception. The loop consumes at least one byte per round: its fuel is the length of the stream.
\<close>

datatype 'a read_result = ReadOk 'a bytes | IosFailure | OutOfBoundsWrite int

fun read_varints_loop :: "nat \<Rightarrow> bool list \<Rightarrow> int \<Rightarrow> bytes \<Rightarrow> bool list read_result" where
  "read_varints_loop 0 vec prev s = IosFailure"
| "read_varints_loop (Suc k) vec prev s =
     (case (ReadVarInt s :: (u32 \<times> bytes) option) of
        None \<Rightarrow> IosFailure
      | Some (offset, s) \<Rightarrow>
          if offset = 0 then ReadOk vec s
          else let idx = sint (word_of_int prev + offset)
               in if idx \<ge> int32_of_size (length vec) then IosFailure
                  else if prev \<noteq> -1 \<and> idx \<le> prev then IosFailure
                  else if idx < 0 then OutOfBoundsWrite idx
                  else read_varints_loop k (vec[nat idx := True]) idx s)"

definition ReadFixedVarIntsBitSet :: "nat \<Rightarrow> bytes \<Rightarrow> bool list read_result" where
  "ReadFixedVarIntsBitSet n s = read_varints_loop (length s + 1) (replicate n False) (- 1) s"

text \<open>The two assertions of the writer are the \<open>None\<close> case.\<close>

definition WriteAutoBitSet :: "bool list \<Rightarrow> nat \<Rightarrow> bytes option" where
  "WriteAutoBitSet vec n =
     (let size1 = length (WriteFixedBitSet vec n); size2 = length (WriteFixedVarIntsBitSet vec)
      in if length vec \<noteq> n then None
         else if size1 \<noteq> GetSizeOfFixedBitSet n then None
         else if size1 < size2 then Some (ser_writedata8 0 @ WriteFixedBitSet vec (length vec))
         else Some (ser_writedata8 1 @ WriteFixedVarIntsBitSet vec))"

definition ReadAutoBitSet :: "nat \<Rightarrow> bytes \<Rightarrow> bool list read_result" where
  "ReadAutoBitSet n s =
     (case ser_readdata8 s of
        None \<Rightarrow> IosFailure
      | Some (isVarInts, s) \<Rightarrow>
          if isVarInts \<noteq> 0 \<and> isVarInts \<noteq> 1 then IosFailure
          else if isVarInts = 0 then
            (case ReadFixedBitSet n s of None \<Rightarrow> IosFailure | Some (vec, s) \<Rightarrow> ReadOk vec s)
          else ReadFixedVarIntsBitSet n s)"

definition ser_dynbitset :: "bool list \<Rightarrow> bytes" where
  "ser_dynbitset vec = WriteCompactSize (of_nat (length vec)) @ WriteFixedBitSet vec (length vec)"

definition unser_dynbitset :: "bool list reader" where
  "unser_dynbitset s = do { (n, s) \<leftarrow> ReadCompactSize True s; ReadFixedBitSet (unat n) s }"

subsection \<open>Reading what was written: the contract\<close>

text \<open>
  A codec reads back every admissible value that was written and leaves the rest of the stream; a
  canonical codec reads nothing else, so each value has one encoding.
\<close>

locale codec =
  fixes ser :: "'a \<Rightarrow> bytes" and unser :: "'a reader" and ok :: "'a \<Rightarrow> bool"
  assumes unser_ser: "ok x \<Longrightarrow> unser (ser x @ s) = Some (x, s)"
begin

lemma prefix_free:
  assumes "ok x" "ok y" "ser x @ s = ser y @ t"
  shows "x = y \<and> s = t"
proof -
  have "Some (x, s) = Some (y, t)"
    unfolding unser_ser [OF assms(1), of s, symmetric] unser_ser [OF assms(2), of t, symmetric]
    by (rule arg_cong [OF assms(3)])
  then show ?thesis
    by simp
qed

lemma read_elems_ser:
  "list_all ok xs \<Longrightarrow> read_elems unser (length xs) (concat (map ser xs) @ s) = Some (xs, s)"
  by (induction xs) (simp_all add: unser_ser)

end

locale canonical_codec = codec +
  assumes ser_unser: "unser s = Some (x, r) \<Longrightarrow> ok x \<and> s = ser x @ r"
begin

lemma read_elems_unser:
  "read_elems unser n s = Some (xs, r) \<Longrightarrow>
     list_all ok xs \<and> length xs = n \<and> s = concat (map ser xs) @ r"
proof (induction n arbitrary: s xs)
  case (Suc n)
  from Suc.prems obtain x s' xs' where x: "unser s = Some (x, s')" "read_elems unser n s' = Some (xs', r)"
      "xs = x # xs'"
    by (auto split: Option.bind_splits)
  show ?case
    using Suc.IH [OF x(2)] ser_unser [OF x(1)] x(3) by simp
qed simp

end

subsection \<open>Integers\<close>

lemma length_le_bytes [simp]: "length (le_bytes n v) = n"
  by (induction n arbitrary: v) simp_all

lemma le_value_Nil [simp]: "le_value [] = 0" and le_value_Cons [simp]: "le_value (b # bs) = unat b + 256 * le_value bs"
  by (simp_all add: le_value_def)

lemma le_value_less: "le_value bs < 256 ^ length bs"
proof (induction bs)
  case (Cons b bs)
  have "unat b < 256"
    using unsigned_less [of b, where 'a = nat] by simp
  then show ?case
    using Cons.IH by simp
qed simp

lemma le_value_le_bytes: "v < 256 ^ n \<Longrightarrow> le_value (le_bytes n v) = v"
proof (induction n arbitrary: v)
  case (Suc n)
  have "v div 256 < 256 ^ n"
    using Suc.prems by (simp add: less_mult_imp_div_less mult.commute)
  moreover have "unat (of_nat v :: u8) = v mod 256"
    by (simp add: unat_of_nat)
  ultimately show ?case
    using Suc.IH by simp
qed simp

lemma le_bytes_le_value: "le_bytes (length bs) (le_value bs) = bs"
proof (induction bs)
  case (Cons b bs)
  have "unat b < 256"
    using unsigned_less [of b, where 'a = nat] by simp
  then have "(unat b + 256 * le_value bs) div 256 = le_value bs"
    by simp
  moreover have "(of_nat (unat b + 256 * le_value bs) :: u8) = b"
    unfolding word_unat_eq_iff unsigned_of_nat take_bit_eq_mod
    using \<open>unat b < 256\<close> by simp
  ultimately show ?case
    using Cons.IH by simp
qed simp

lemma read_bytes_append [simp]: "n = length b \<Longrightarrow> read_bytes n (b @ s) = Some (b, s)"
  by (simp add: read_bytes_def)

lemma read_bytes_SomeD: "read_bytes n s = Some (b, r) \<Longrightarrow> length b = n \<and> s = b @ r"
  by (auto simp: read_bytes_def split: if_splits)

lemma read_le_word:
  assumes "LENGTH('a) = 8 * n"
  shows "unat (of_nat (le_value (le_bytes n (unat (x :: 'a::len word)))) :: 'a word) = unat x"
    and "le_value (le_bytes n (unat x)) = unat x"
    and "length bs = n \<Longrightarrow> unat (of_nat (le_value bs) :: 'a word) = le_value bs"
proof -
  have e: "(256::nat) ^ n = 2 ^ LENGTH('a)"
    using assms by (simp add: power_mult)
  show l: "le_value (le_bytes n (unat x)) = unat x"
    by (rule le_value_le_bytes) (simp add: e)
  show "unat (of_nat (le_value (le_bytes n (unat x))) :: 'a word) = unat x"
    by (simp add: l)
  show "unat (of_nat (le_value bs) :: 'a word) = le_value bs" if "length bs = n"
    using le_value_less [of bs] unfolding that e unsigned_of_nat take_bit_eq_mod of_nat_id by (rule mod_less)
qed

lemmas ser_word_defs =
  ser_writedata8_def ser_writedata16_def ser_writedata16be_def ser_writedata32_def ser_writedata32be_def
  ser_writedata64_def ser_readdata8_def ser_readdata16_def ser_readdata16be_def ser_readdata32_def
  ser_readdata32be_def ser_readdata64_def

lemma ser_readdata8_simps [simp]:
  "ser_readdata8 [] = None" "ser_readdata8 (b # s) = Some (b, s)"
  by (simp_all add: ser_readdata8_def read_bytes_def)

interpretation u8: canonical_codec ser_writedata8 ser_readdata8 "\<lambda>_. True"
proof
  show "ser_readdata8 (ser_writedata8 x @ s) = Some (x, s)" for x s
    by (simp add: ser_writedata8_def)
  show "True \<and> s = ser_writedata8 x @ r" if "ser_readdata8 s = Some (x, r)" for s x r
    using that by (cases s) (simp_all add: ser_writedata8_def)
qed

lemma word_codec:
  assumes "LENGTH('a) = 8 * n"
    "\<And>x. w x = le_bytes n (unat (x :: 'a::len word))"
    "\<And>s. r s = do { (b, s) \<leftarrow> read_bytes n s; Some (of_nat (le_value b), s) }"
  shows "canonical_codec w r (\<lambda>_. True)"
proof
  show "r (w x @ s) = Some (x, s)" for x s
    using assms read_le_word(2) [OF assms(1), of x] by simp
  show "True \<and> s = w x @ t" if e: "r s = Some (x, t)" for s x t
  proof -
    obtain b where b: "read_bytes n s = Some (b, t)" "x = of_nat (le_value b)"
      using e unfolding assms(3) by (auto split: Option.bind_splits)
    from read_bytes_SomeD [OF b(1)] have l: "length b = n" and s: "s = b @ t"
      by simp_all
    have "w x = b"
      unfolding assms(2) b(2) using read_le_word(3) [OF assms(1), of b] le_bytes_le_value [of b] l by simp
    then show ?thesis
      by (simp add: s)
  qed
qed

lemma word_codec_be:
  assumes "LENGTH('a) = 8 * n"
    "\<And>x. w x = rev (le_bytes n (unat (x :: 'a::len word)))"
    "\<And>s. r s = do { (b, s) \<leftarrow> read_bytes n s; Some (of_nat (le_value (rev b)), s) }"
  shows "canonical_codec w r (\<lambda>_. True)"
proof
  show "r (w x @ s) = Some (x, s)" for x s
    using assms read_le_word(2) [OF assms(1), of x] by simp
  show "True \<and> s = w x @ t" if e: "r s = Some (x, t)" for s x t
  proof -
    obtain b where b: "read_bytes n s = Some (b, t)" "x = of_nat (le_value (rev b))"
      using e unfolding assms(3) by (auto split: Option.bind_splits)
    from read_bytes_SomeD [OF b(1)] have l: "length b = n" and s: "s = b @ t"
      by simp_all
    have "w x = b"
      unfolding assms(2) b(2) using read_le_word(3) [OF assms(1), of "rev b"] le_bytes_le_value [of "rev b"] l by simp
    then show ?thesis
      by (simp add: s)
  qed
qed

interpretation u16: canonical_codec ser_writedata16 ser_readdata16 "\<lambda>_. True"
  by (rule word_codec [where n = 2]) (simp_all add: ser_word_defs)

interpretation u16be: canonical_codec ser_writedata16be ser_readdata16be "\<lambda>_. True"
  by (rule word_codec_be [where n = 2]) (simp_all add: ser_word_defs)

interpretation u32: canonical_codec ser_writedata32 ser_readdata32 "\<lambda>_. True"
  by (rule word_codec [where n = 4]) (simp_all add: ser_word_defs)

interpretation u32be: canonical_codec ser_writedata32be ser_readdata32be "\<lambda>_. True"
  by (rule word_codec_be [where n = 4]) (simp_all add: ser_word_defs)

interpretation u64: canonical_codec ser_writedata64 ser_readdata64 "\<lambda>_. True"
  by (rule word_codec [where n = 8]) (simp_all add: ser_word_defs)

subsection \<open>Compact sizes\<close>

lemma unat_ucast_small:
  "unat (x :: 'a::len word) < 2 ^ LENGTH('b) \<Longrightarrow> unat (ucast x :: 'b::len word) = unat x"
  by (simp add: unsigned_ucast_eq take_bit_eq_mod)

lemma ucast_ucast_small:
  fixes x :: "'a::len word"
  assumes "unat x < 2 ^ LENGTH('b)"
  shows "ucast (ucast x :: 'b::len word) = x"
  unfolding word_unat_eq_iff
  using unat_ucast_small [OF assms] unat_ucast_small [of "ucast x :: 'b word", where 'b = 'a] unsigned_less [of x, where 'a = nat]
  by simp

lemma unat_le_iff: "(n :: u64) \<le> 0xffff \<longleftrightarrow> unat n < 2 ^ 16" "n \<le> 0xffffffff \<longleftrightarrow> unat n < 2 ^ 32"
  "n < 253 \<longleftrightarrow> unat n < 253"
  by (auto simp: word_le_nat_alt word_less_nat_alt)

lemma ReadCompactSize_WriteCompactSize:
  assumes "range_check \<longrightarrow> n \<le> MAX_SIZE"
  shows "ReadCompactSize range_check (WriteCompactSize n @ s) = Some (n, s)"
proof -
  have rc: "(range_check \<and> MAX_SIZE < n) = False"
    using assms by auto
  consider "n < 253" | "\<not> n < 253" "n \<le> 0xffff" | "\<not> n \<le> 0xffff" "n \<le> 0xffffffff" | "\<not> n \<le> 0xffffffff"
    by blast
  then show ?thesis
  proof cases
    case 1
    then have u: "unat n < 253"
      by (simp add: word_less_nat_alt)
    then have "(ucast n :: u8) < 253"
      by (simp add: word_less_nat_alt unat_ucast_small)
    moreover have "ucast (ucast n :: u8) = n"
      using u by (simp add: ucast_ucast_small)
    ultimately show ?thesis
      using 1 by (simp add: rc ReadCompactSize_def WriteCompactSize_def ser_writedata8_def)
  next
    case 2
    then have "ucast (ucast n :: u16) = n"
      by (simp add: ucast_ucast_small unat_le_iff)
    then show ?thesis
      using 2 by (simp add: rc ReadCompactSize_def WriteCompactSize_def ser_writedata8_def u16.unser_ser)
  next
    case 3
    then have "ucast (ucast n :: u32) = n"
      by (simp add: ucast_ucast_small unat_le_iff)
    moreover have "\<not> n < 253" "\<not> n < 0x10000"
      using 3 by (simp_all add: word_le_nat_alt word_less_nat_alt)
    ultimately show ?thesis
      using 3 by (simp add: rc ReadCompactSize_def WriteCompactSize_def ser_writedata8_def u32.unser_ser)
  next
    case 4
    then have "\<not> n < 253" "\<not> n \<le> 0xffff" "\<not> n < 0x100000000"
      by (simp_all add: word_le_nat_alt word_less_nat_alt)
    then show ?thesis
      using 4 by (simp add: rc ReadCompactSize_def WriteCompactSize_def ser_writedata8_def u64.unser_ser)
  qed
qed

lemma ReadCompactSize_cases:
  assumes "ReadCompactSize range_check s = Some (n, r)"
  shows "(range_check \<longrightarrow> n \<le> MAX_SIZE) \<and>
    ((\<exists>b. b < 253 \<and> s = b # r \<and> n = ucast b) \<or>
     (\<exists>m t. s = 253 # t \<and> ser_readdata16 t = Some (m, r) \<and> \<not> (ucast m :: u64) < 253 \<and> n = ucast m) \<or>
     (\<exists>m t. s = 254 # t \<and> ser_readdata32 t = Some (m, r) \<and> \<not> (ucast m :: u64) < 0x10000 \<and> n = ucast m) \<or>
     (\<exists>t. s = 255 # t \<and> ser_readdata64 t = Some (n, r) \<and> \<not> n < 0x100000000))"
proof -
  obtain b t where s: "s = b # t"
    using assms by (cases s) (simp_all add: ReadCompactSize_def)
  have "b = 255" if "\<not> b < 253" "b \<noteq> 253" "b \<noteq> 254"
  proof -
    have "unat b < 256" "unat b \<noteq> 253" "unat b \<noteq> 254" "253 \<le> unat b"
      using that unsigned_less [of b, where 'a = nat] by (auto simp: word_less_nat_alt word_unat_eq_iff)
    then have "unat b = 255"
      by simp
    then show ?thesis
      by (simp add: word_unat_eq_iff)
  qed
  then consider "b < 253" | "b = 253" | "b = 254" | "b = 255"
    by blast
  then show ?thesis
    using assms unfolding s ReadCompactSize_def
    by cases (auto split: if_splits Option.bind_splits)
qed

lemma ReadCompactSize_SomeD:
  assumes "ReadCompactSize range_check s = Some (n, r)"
  shows "(range_check \<longrightarrow> n \<le> MAX_SIZE) \<and> s = WriteCompactSize n @ r"
  using ReadCompactSize_cases [OF assms]
proof (elim conjE disjE exE, goal_cases)
  case (1 b)
  then have "unat b < 253" "ucast (ucast b :: u64) = b"
    by (simp_all add: word_less_nat_alt ucast_ucast_small)
  moreover have "(ucast b :: u64) < 253"
    using \<open>unat b < 253\<close> by (simp add: word_less_nat_alt unat_ucast_small)
  ultimately show ?case
    using 1 by (simp add: WriteCompactSize_def ser_writedata8_def)
next
  case (2 m t)
  have u: "unat (ucast m :: u64) = unat m" "unat m < 2 ^ 16"
    using unsigned_less [of m, where 'a = nat] by (simp_all add: unat_ucast_small)
  have "(ucast m :: u64) \<le> 0xffff" "ucast (ucast m :: u64) = m"
    using u by (simp_all add: unat_le_iff ucast_ucast_small)
  then show ?case
    using 2 u16.ser_unser [OF 2(3)] by (simp add: WriteCompactSize_def ser_writedata8_def)
next
  case (3 m t)
  have u: "unat (ucast m :: u64) = unat m" "unat m < 2 ^ 32"
    using unsigned_less [of m, where 'a = nat] by (simp_all add: unat_ucast_small)
  have "(ucast m :: u64) \<le> 0xffffffff" "ucast (ucast m :: u64) = m"
    using u by (simp_all add: unat_le_iff ucast_ucast_small)
  moreover have "\<not> (ucast m :: u64) < 253" "\<not> (ucast m :: u64) \<le> 0xffff"
    using 3(4) by (simp_all add: word_le_nat_alt word_less_nat_alt u)
  ultimately show ?case
    using 3 u32.ser_unser [OF 3(3)] by (simp add: WriteCompactSize_def ser_writedata8_def)
next
  case (4 t)
  then have "\<not> n < 253" "\<not> n \<le> 0xffff" "\<not> n \<le> 0xffffffff"
    by (simp_all add: word_le_nat_alt word_less_nat_alt)
  then show ?case
    using 4 u64.ser_unser [OF 4(3)] by (simp add: WriteCompactSize_def ser_writedata8_def)
qed

lemma length_WriteCompactSize: "length (WriteCompactSize n) = GetSizeOfCompactSize n"
  by (simp add: WriteCompactSize_def GetSizeOfCompactSize_def ser_word_defs)

interpretation compact_size: canonical_codec WriteCompactSize "ReadCompactSize range_check"
  "\<lambda>n. range_check \<longrightarrow> n \<le> MAX_SIZE" for range_check
  by unfold_locales (rule ReadCompactSize_WriteCompactSize, assumption, rule ReadCompactSize_SomeD)

subsection \<open>Variable-length integers\<close>

lemma word_127: "(0x7F :: 'a::len word) = mask 7"
  by (simp add: mask_eq_exp_minus_1)

lemma unat_drop_bit_7: "unat (drop_bit 7 n) = unat n div 128"
  unfolding unat_drop_bit_eq by (simp add: drop_bit_eq_div)

lemma varint_high_bits:
  assumes "m \<le> drop_bit 7 (- 1 :: 'a::len word)" "bit m i"
  shows "i < LENGTH('a) - 7"
proof (rule ccontr)
  assume "\<not> i < LENGTH('a) - 7"
  then have "LENGTH('a) \<le> i + 7"
    by simp
  then have "(2::nat) ^ LENGTH('a) \<le> 2 ^ (i + 7)"
    by (intro power_increasing) simp_all
  then have "unat (- 1 :: 'a word) < 2 ^ (i + 7)"
    by (rule less_le_trans [OF unsigned_less])
  then have "unat (- 1 :: 'a word) div 128 < 2 ^ i"
    by (intro less_mult_imp_div_less) (simp add: power_add)
  moreover have "unat m \<le> unat (- 1 :: 'a word) div 128"
    using assms(1) unfolding word_le_nat_alt unat_drop_bit_7 .
  ultimately have "unat m < 2 ^ i"
    by (rule le_less_trans [rotated])
  then have "\<not> bit (unat m) i"
    by (simp add: bit_iff_odd)
  then show False
    using assms(2) bit_imp_le_length [OF assms(2)] by (simp add: bit_unsigned_iff)
qed

lemma le_127_iff: "8 \<le> LENGTH('a) \<Longrightarrow> (n :: 'a::len word) \<le> 0x7F \<longleftrightarrow> drop_bit 7 n = 0"
proof -
  assume "8 \<le> LENGTH('a)"
  then have "(2::nat) ^ 8 \<le> 2 ^ LENGTH('a)"
    by (intro power_increasing) simp_all
  then have "unat (0x7F :: 'a word) = 127"
    by (simp add: unsigned_numeral take_bit_eq_mod)
  then show ?thesis
    unfolding word_le_nat_alt word_unat_eq_iff unat_drop_bit_7 by auto
qed

lemma varint_digit:
  fixes m :: "'a::len word"
  assumes "8 \<le> LENGTH('a)" "m \<le> drop_bit 7 (- 1)"
  shows "drop_bit 7 (push_bit 7 m OR ucast (ch AND (0x7F :: u8))) = m"
    and "ucast ((push_bit 7 m OR ucast (ch AND (0x7F :: u8))) AND 0x7F) = ch AND 0x7F"
    and "push_bit 7 m OR ucast (ch AND (0x7F :: u8)) \<le> 0x7F \<longleftrightarrow> m = 0"
proof -
  let ?n = "push_bit 7 m OR ucast (ch AND (0x7F :: u8)) :: 'a word"
  show d: "drop_bit 7 ?n = m"
    unfolding word_127
    by (intro bit_word_eqI) (auto simp: bit_simps dest: varint_high_bits [OF assms(2)])
  show "ucast (?n AND 0x7F) = ch AND 0x7F"
    using assms(1) unfolding word_127 by (intro bit_word_eqI) (auto simp: bit_simps)
  show "?n \<le> 0x7F \<longleftrightarrow> m = 0"
    by (simp only: le_127_iff [OF assms(1)] d)
qed

lemma varint_split:
  assumes "8 \<le> LENGTH('a::len)"
  shows "push_bit 7 (drop_bit 7 n) OR ucast (ucast (n AND 0x7F) AND (0x7F :: u8)) = (n :: 'a word)"
proof (rule bit_word_eqI)
  show "bit (push_bit 7 (drop_bit 7 n) OR ucast (ucast (n AND 0x7F) AND (0x7F :: u8))) i = bit n i"
    if "i < LENGTH('a)" for i
    using that assms unfolding word_127 by (cases "i < 7") (auto simp: bit_simps)
qed

lemma bit_128: "bit (0x80 :: u8) i \<longleftrightarrow> i = 7"
proof -
  have "(0x80 :: u8) = push_bit 7 1"
    by simp
  then show ?thesis
    by (simp only: bit_push_bit_iff bit_1_iff) auto
qed

lemma and_128: "ch AND (0x80 :: u8) = (if bit ch 7 then 0x80 else 0)"
proof (rule bit_word_eqI)
  fix i
  have "bit (ch AND 0x80) i \<longleftrightarrow> bit ch i \<and> i = 7"
    by (simp only: bit_and_iff bit_128)
  moreover have "bit (if bit ch 7 then 0x80 else (0 :: u8)) i \<longleftrightarrow> bit ch 7 \<and> i = 7"
    by (cases "bit ch 7") (simp_all only: if_True if_False bit_128, simp_all)
  ultimately show "bit (ch AND 0x80) i \<longleftrightarrow> bit (if bit ch 7 then 0x80 else (0 :: u8)) i"
    by blast
qed

lemma write_varint_digit:
  assumes "8 \<le> LENGTH('a::len)" "m \<le> drop_bit 7 (- 1 :: 'a word)" "ch AND 0x80 \<noteq> 0 \<longleftrightarrow> tmp \<noteq> []"
  shows "write_varint_loop (push_bit 7 m OR ucast (ch AND (0x7F :: u8))) tmp =
    (if m = 0 then ch # tmp else write_varint_loop (m - 1) (ch # tmp))"
proof -
  have "ch = (ch AND 0x7F) OR (if tmp \<noteq> [] then 0x80 else 0)"
  proof -
    have "ch AND 0x80 = (if tmp \<noteq> [] then 0x80 else 0)"
      using assms(3) by (simp add: and_128 split: if_splits)
    moreover have "ch = (ch AND 0x7F) OR (ch AND 0x80)"
    proof -
      have "(ch AND 0x7F) OR (ch AND 0x80) = ch AND (0x7F OR 0x80)"
        by (simp only: and.commute bit.conj_disj_distrib)
      also have "(0x7F OR 0x80 :: u8) = - 1"
        by simp
      finally show ?thesis
        by (simp only: bit.conj_one_right)
    qed
    ultimately show ?thesis
      by simp
  qed
  then show ?thesis
    using varint_digit [OF assms(1,2), of ch]
    by (subst write_varint_loop.simps) (simp add: Let_def)
qed

lemma drop_bit_7_le: "drop_bit 7 n \<le> drop_bit 7 (- 1 :: 'a::len word)"
  unfolding word_le_nat_alt unat_drop_bit_7
  by (intro div_le_mono) (simp only: word_le_nat_alt [symmetric] word_order.extremum)

lemma read_varint_digit:
  assumes "8 \<le> LENGTH('a::len)" "tmp \<noteq> [] \<longrightarrow> n < drop_bit 7 (- 1)"
  shows "read_varint_loop (drop_bit 7 n)
      ((ucast (n AND 0x7F) OR (if tmp \<noteq> [] then 0x80 else 0)) # s) =
    (if tmp = [] then Some (n, s) else read_varint_loop ((n :: 'a word) + 1) s)"
proof -
  let ?c = "ucast (n AND 0x7F) :: u8"
  have c: "?c AND 0x80 = 0"
    unfolding and_128 word_127 by (simp add: bit_simps)
  have d: "(?c OR 0x80) AND 0x80 = 0x80" "(?c OR 0x80) AND 0x7F = ?c AND 0x7F"
    using c by (simp_all add: bit.conj_disj_distrib2)
  have "\<not> drop_bit 7 (- 1) < drop_bit 7 n"
    using drop_bit_7_le [of n] by (simp only: not_less)
  moreover have "n \<noteq> - 1" if "tmp \<noteq> []"
    using that assms(2) word_order.extremum [of "drop_bit 7 (- 1 :: 'a word)"] by (auto simp only: not_less [symmetric])
  ultimately show ?thesis
    using varint_split [OF assms(1), of n] c d by (simp only: read_varint_loop.simps if_False) (simp add: Let_def)
qed

lemma read_write_varint_loop:
  assumes "8 \<le> LENGTH('a::len)" "tmp \<noteq> [] \<longrightarrow> n < drop_bit 7 (- 1)"
  shows "read_varint_loop 0 (write_varint_loop n tmp @ s) =
    (if tmp = [] then Some (n :: 'a word, s) else read_varint_loop (n + 1) (tmp @ s))"
  using assms(2)
proof (induction n tmp rule: write_varint_loop.induct)
  case (1 n tmp)
  let ?d = "ucast (n AND 0x7F) OR (if tmp \<noteq> [] then 0x80 else 0) :: u8"
  note digit = read_varint_digit [OF assms(1) 1(2), of "tmp @ s"]
  show ?case
  proof (cases "n \<le> 0x7F")
    case True
    then have "drop_bit 7 n = 0"
      using le_127_iff [OF assms(1)] by blast
    then show ?thesis
      using True digit by (subst write_varint_loop.simps) (simp add: Let_def)
  next
    case False
    have z: "drop_bit 7 n \<noteq> 0"
      using False le_127_iff [OF assms(1)] by blast
    have "unat (drop_bit 7 n - 1) < unat (drop_bit 7 n)"
      using z unat_gt_0 [of "drop_bit 7 n"] by (simp add: unat_minus_one)
    also have "\<dots> \<le> unat (drop_bit 7 (- 1 :: 'a word))"
      by (simp only: word_le_nat_alt [symmetric] drop_bit_7_le)
    finally have "drop_bit 7 n - 1 < drop_bit 7 (- 1)"
      by (simp only: word_less_nat_alt)
    then have "read_varint_loop 0 (write_varint_loop (drop_bit 7 n - 1) (?d # tmp) @ s) =
        read_varint_loop (drop_bit 7 n) (?d # tmp @ s)"
      using 1(1) [OF refl False] by (simp only: append_Cons) simp
    also have "write_varint_loop (drop_bit 7 n - 1) (?d # tmp) = write_varint_loop n tmp"
      using False by (subst (2) write_varint_loop.simps) (simp only: Let_def if_False)
    finally show ?thesis
      using digit by simp
  qed
qed

lemma read_varint_loop_SomeD:
  assumes "8 \<le> LENGTH('a::len)" "read_varint_loop (m :: 'a word) s = Some (n, r)"
  shows "\<exists>t. t \<noteq> [] \<and> s = t @ r \<and>
    WriteVarInt n = (if m = 0 then t else write_varint_loop (m - 1) t)"
  using assms(2)
proof (induction m s rule: read_varint_loop.induct)
  case (2 m ch s)
  let ?n = "push_bit 7 m OR ucast (ch AND (0x7F :: u8)) :: 'a word"
  have m: "m \<le> drop_bit 7 (- 1)"
    using "2.prems" by (auto split: if_splits)
  then have nm: "\<not> drop_bit 7 (- 1) < m"
    by (simp only: not_less)
  note digit = write_varint_digit [OF assms(1) m, of ch]
  show ?case
  proof (cases "ch AND 0x80 = 0")
    case True
    then have "n = ?n" "r = s"
      using "2.prems" m by (simp_all add: Let_def split: if_splits)
    then show ?thesis
      using True digit [of "[]"] by (intro exI [of _ "[ch]"]) (simp add: WriteVarInt_def)
  next
    case False
    then have e: "?n \<noteq> - 1" "read_varint_loop (?n + 1) s = Some (n, r)"
      using "2.prems" m by (simp_all add: Let_def split: if_splits)
    have nz: "?n + 1 \<noteq> 0"
      using e(1) by (metis add_eq_0_iff2)
    obtain t where t: "t \<noteq> []" "s = t @ r" "WriteVarInt n = write_varint_loop ?n t"
      using "2.IH" [OF nm refl False e(1) e(2)] nz by auto
    then show ?thesis
      using False digit [of t] by (intro exI [of _ "ch # t"]) simp
  qed
qed simp

lemma ReadVarInt_WriteVarInt:
  "8 \<le> LENGTH('a::len) \<Longrightarrow> ReadVarInt (WriteVarInt (n :: 'a word) @ s) = Some (n, s)"
  by (simp add: ReadVarInt_def WriteVarInt_def read_write_varint_loop)

lemma ReadVarInt_SomeD:
  "8 \<le> LENGTH('a::len) \<Longrightarrow> ReadVarInt s = Some (n :: 'a word, r) \<Longrightarrow> s = WriteVarInt n @ r"
  unfolding ReadVarInt_def by (drule (1) read_varint_loop_SomeD) auto

lemma length_write_varint_loop: "length (write_varint_loop n tmp) = GetSizeOfVarInt n + length tmp"
  by (induction n tmp rule: write_varint_loop.induct)
    (subst write_varint_loop.simps, subst GetSizeOfVarInt.simps, simp add: Let_def)

interpretation varint32: canonical_codec "WriteVarInt :: u32 \<Rightarrow> bytes" ReadVarInt "\<lambda>_. True"
  by unfold_locales (simp_all add: ReadVarInt_WriteVarInt ReadVarInt_SomeD)

interpretation varint64: canonical_codec "WriteVarInt :: u64 \<Rightarrow> bytes" ReadVarInt "\<lambda>_. True"
  by unfold_locales (simp_all add: ReadVarInt_WriteVarInt ReadVarInt_SomeD)

subsection \<open>Vectors\<close>

lemma read_bytes_0 [simp]: "read_bytes 0 s = Some ([], s)"
  by (simp add: read_bytes_def)

lemma read_blocks_eq: "read_blocks n s = read_bytes n s"
proof (induction n s rule: read_blocks.induct)
  case (1 n s)
  let ?k = "min n 5000000"
  have IH: "read_blocks (n - ?k) (drop ?k s) = read_bytes (n - ?k) (drop ?k s)"
    if "n \<noteq> 0" "\<not> length s < ?k"
    using that by (intro 1) (simp_all add: read_bytes_def)
  show ?case
  proof (cases "n = 0")
    case False
    have "read_blocks n s = do { (b, t) \<leftarrow> read_bytes ?k s;
        (bs, t) \<leftarrow> read_blocks (n - ?k) t; Some (b @ bs, t) }"
      using False by (subst read_blocks.simps) simp
    also have "\<dots> = read_bytes n s"
    proof (cases "length s < ?k")
      case shorter: False
      have "take ?k s @ take (n - ?k) (drop ?k s) = take n s"
        by (simp flip: take_add)
      then show ?thesis
        using IH [OF False shorter] shorter by (auto simp: read_bytes_def)
    qed (auto simp: read_bytes_def)
    finally show ?thesis .
  qed (simp add: read_blocks.simps)
qed

lemma of_nat_size: "n \<le> 0x02000000 \<Longrightarrow> unat (of_nat n :: u64) = n \<and> (of_nat n :: u64) \<le> MAX_SIZE"
  by (simp add: MAX_SIZE_def word_le_nat_alt unsigned_of_nat take_bit_eq_mod)

lemma unat_MAX_SIZE: "n \<le> MAX_SIZE \<Longrightarrow> unat n \<le> 0x02000000"
  by (simp add: MAX_SIZE_def word_le_nat_alt)

interpretation byte_vector: canonical_codec ser_bytes unser_bytes "\<lambda>v. length v \<le> 0x02000000"
proof
  show "unser_bytes (ser_bytes v @ s) = Some (v, s)" if "length v \<le> 0x02000000" for v s
    using of_nat_size [OF that]
    by (simp add: unser_bytes_def ser_bytes_def compact_size.unser_ser read_blocks_eq)
  show "length v \<le> 0x02000000 \<and> s = ser_bytes v @ r" if e: "unser_bytes s = Some (v, r)" for s v r
  proof -
    obtain n t where n: "ReadCompactSize True s = Some (n, t)" "read_bytes (unat n) t = Some (v, r)"
      using e by (auto simp: unser_bytes_def read_blocks_eq split: Option.bind_splits)
    show ?thesis
      using compact_size.ser_unser [OF n(1)] read_bytes_SomeD [OF n(2)] unat_MAX_SIZE [of n]
      by (auto simp: ser_bytes_def)
  qed
qed

context codec
begin

lemma unser_vector_ser:
  assumes "list_all ok xs" "length xs \<le> 0x02000000"
  shows "unser_vector unser (ser_vector ser xs @ s) = Some (xs, s)"
  using of_nat_size [OF assms(2)] read_elems_ser [OF assms(1)]
  by (simp add: unser_vector_def ser_vector_def compact_size.unser_ser)

end

context canonical_codec
begin

lemma unser_vector_unser:
  assumes "unser_vector unser s = Some (xs, r)"
  shows "list_all ok xs \<and> length xs \<le> 0x02000000 \<and> s = ser_vector ser xs @ r"
proof -
  obtain n t where n: "ReadCompactSize True s = Some (n, t)" "read_elems unser (unat n) t = Some (xs, r)"
    using assms by (auto simp: unser_vector_def split: Option.bind_splits)
  show ?thesis
    using compact_size.ser_unser [OF n(1)] read_elems_unser [OF n(2)] unat_MAX_SIZE [of n]
    by (auto simp: ser_vector_def)
qed

end

lemma unser_limited_string_iff:
  "unser_limited_string limit s = Some (v, r) \<longleftrightarrow> unser_bytes s = Some (v, r) \<and> of_nat (length v) \<le> limit"
proof -
  have "ReadCompactSize True s = Some (n, t) \<Longrightarrow> length v = unat n \<Longrightarrow> of_nat (length v) = n" for n t
    by simp
  then show ?thesis
    by (auto simp: unser_limited_string_def unser_bytes_def read_blocks_eq not_less
        dest: read_bytes_SomeD split: Option.bind_splits if_splits)
qed

subsection \<open>Bit sets\<close>

lemma length_bitset_fold:
  "length (fold (\<lambda>p v. v[f p := g p v]) ps v) = length v"
  by (induction ps arbitrary: v) simp_all

lemma length_WriteFixedBitSet: "length (WriteFixedBitSet vec n) = GetSizeOfFixedBitSet n"
  by (simp add: WriteFixedBitSet_def GetSizeOfFixedBitSet_def length_bitset_fold)

lemma bit_bitset_fold:
  assumes "j < length v" "k < 8" "m \<le> 8 * length v"
  shows "bit (fold (\<lambda>p v. v[p div 8 := v ! (p div 8) OR push_bit (p mod 8) (of_bool (vec ! p) :: u8)]) [0..<m] v ! j) k
    \<longleftrightarrow> bit (v ! j) k \<or> 8 * j + k < m \<and> vec ! (8 * j + k)"
  using assms(3)
proof (induction m)
  case (Suc m)
  let ?f = "fold (\<lambda>p v. v[p div 8 := v ! (p div 8) OR push_bit (p mod 8) (of_bool (vec ! p) :: u8)]) [0..<m] v"
  have l: "m div 8 < length ?f"
    using Suc.prems by (simp add: length_bitset_fold less_mult_imp_div_less mult.commute)
  have e: "8 * j + k = m \<longleftrightarrow> j = m div 8 \<and> k = m mod 8"
    using assms(2) by auto
  have IH: "bit (?f ! j) k \<longleftrightarrow> bit (v ! j) k \<or> 8 * j + k < m \<and> vec ! (8 * j + k)"
    using Suc by simp
  show ?case
  proof (cases "j = m div 8")
    case True
    have "bit (push_bit (m mod 8) (of_bool (vec ! m) :: u8)) k \<longleftrightarrow> k = m mod 8 \<and> vec ! m"
      using assms(2) by (auto simp: bit_simps)
    then show ?thesis
      using True l e IH by (auto simp: bit_or_iff less_Suc_eq)
  next
    case False
    then have "8 * j + k \<noteq> m"
      using e by blast
    then show ?thesis
      using False IH by (auto simp: less_Suc_eq)
  qed
qed simp

lemma bit_WriteFixedBitSet:
  assumes "length vec = n" "j < (n + 7) div 8" "k < 8"
  shows "bit (WriteFixedBitSet vec n ! j) k \<longleftrightarrow> 8 * j + k < n \<and> vec ! (8 * j + k)"
  using bit_bitset_fold [of j "replicate ((n + 7) div 8) 0" k n vec] assms
  by (simp add: WriteFixedBitSet_def)

lemma and_push_bit_1: "(x :: u8) AND push_bit k 1 \<noteq> 0 \<longleftrightarrow> bit x k"
  by (metis and_exp_eq_0_iff_not_bit push_bit_of_1)

lemma rem_mask_eq_0:
  assumes "rem < 8"
  shows "(x :: u8) AND NOT (drop_bit rem 0xff) = 0 \<longleftrightarrow> (\<forall>k. 8 - rem \<le> k \<and> k < 8 \<longrightarrow> \<not> bit x k)"
proof -
  have f: "(0xff :: u8) = - 1"
    by simp
  have "bit (x AND NOT (drop_bit rem 0xff)) k \<longleftrightarrow> bit x k \<and> 8 - rem \<le> k \<and> k < 8" for k
    unfolding f using assms by (cases "k < 8") (auto simp: bit_simps dest: bit_imp_le_length)
  then show ?thesis
    unfolding bit_eq_iff by (auto dest: bit_imp_le_length)
qed

lemma ReadFixedBitSet_eq:
  "ReadFixedBitSet n s = (case read_bytes ((n + 7) div 8) s of None \<Rightarrow> None
     | Some (v, t) \<Rightarrow>
         if \<exists>p. n \<le> p \<and> p < 8 * ((n + 7) div 8) \<and> bit (v ! (p div 8)) (p mod 8) then None
         else Some (map (\<lambda>p. bit (v ! (p div 8)) (p mod 8)) [0..<n], t))"
proof (cases "read_bytes ((n + 7) div 8) s")
  case (Some a)
  obtain v t where a: "a = (v, t)"
    by fastforce
  let ?l = "(n + 7) div 8" and ?rem = "(n + 7) div 8 * 8 - n"
  have lv: "length v = ?l"
    using read_bytes_SomeD Some a by blast
  have l: "n \<le> 8 * ?l" "8 * ?l < n + 8"
    using div_mult_mod_eq [of "n + 7" 8] mod_less_divisor [of 8 "n + 7"] by linarith+
  have rem: "?rem < 8"
    using l by linarith
  have last: "p div 8 = ?l - 1 \<and> 8 - ?rem \<le> p mod 8" if "n \<le> p" "p < 8 * ?l" for p
  proof -
    define k where "k = p - 8 * (?l - 1)"
    then have k: "p = 8 * (?l - 1) + k"
      using that l by linarith
    then have "k < 8" "8 - ?rem \<le> k"
      using that l by linarith+
    then show ?thesis
      by (simp add: k)
  qed
  have conv: "8 * (?l - 1) + k < 8 * ?l \<and> n \<le> 8 * (?l - 1) + k" if "8 - ?rem \<le> k" "k < 8" "?l * 8 \<noteq> n" for k
    using that l by linarith
  have "(?l * 8 \<noteq> n \<and> v ! (?l - 1) AND NOT (drop_bit ?rem 0xff) \<noteq> 0) \<longleftrightarrow>
      (\<exists>p. n \<le> p \<and> p < 8 * ?l \<and> bit (v ! (p div 8)) (p mod 8))" (is "?a \<longleftrightarrow> ?b")
  proof
    assume ?a
    then obtain k where k: "8 - ?rem \<le> k" "k < 8" "bit (v ! (?l - 1)) k"
      using rem_mask_eq_0 [OF rem] by blast
    then show ?b
      using conv [OF k(1,2)] \<open>?a\<close> by (intro exI [of _ "8 * (?l - 1) + k"]) simp
  next
    assume ?b
    then obtain p where p: "n \<le> p" "p < 8 * ?l" "bit (v ! (p div 8)) (p mod 8)"
      by blast
    have "?l * 8 \<noteq> n"
      using p(1,2) by simp
    moreover have "\<exists>k. 8 - ?rem \<le> k \<and> k < 8 \<and> bit (v ! (?l - 1)) k"
      using last [OF p(1,2)] p(3) by (intro exI [of _ "p mod 8"]) simp
    ultimately show ?a
      using rem_mask_eq_0 [OF rem] by blast
  qed
  then show ?thesis
    unfolding ReadFixedBitSet_def Some a Let_def and_push_bit_1 bind.simps prod.case option.case lv
    by (simp only:)
qed (simp add: ReadFixedBitSet_def)

lemma ReadFixedBitSet_WriteFixedBitSet:
  assumes "length vec = n"
  shows "ReadFixedBitSet n (WriteFixedBitSet vec n @ s) = Some (vec, s)"
proof -
  have "read_bytes ((n + 7) div 8) (WriteFixedBitSet vec n @ s) = Some (WriteFixedBitSet vec n, s)"
    by (rule read_bytes_append) (simp add: length_WriteFixedBitSet GetSizeOfFixedBitSet_def)
  moreover have bits: "bit (WriteFixedBitSet vec n ! (p div 8)) (p mod 8) \<longleftrightarrow> p < n \<and> vec ! p"
    if "p < 8 * ((n + 7) div 8)" for p
    using bit_WriteFixedBitSet [OF assms, of "p div 8" "p mod 8"] that by (simp add: less_mult_imp_div_less mult.commute)
  have "p < 8 * ((n + 7) div 8)" if "p < n" for p
    using that by presburger
  then have "map (\<lambda>p. bit (WriteFixedBitSet vec n ! (p div 8)) (p mod 8)) [0..<n] = vec"
    using bits assms by (intro nth_equalityI) auto
  ultimately show ?thesis
    using bits by (auto simp: ReadFixedBitSet_eq)
qed

lemma ReadFixedBitSet_SomeD:
  assumes "ReadFixedBitSet n s = Some (vec, r)"
  shows "length vec = n \<and> s = WriteFixedBitSet vec n @ r"
proof -
  let ?l = "(n + 7) div 8"
  obtain v where v: "read_bytes ?l s = Some (v, r)" "vec = map (\<lambda>p. bit (v ! (p div 8)) (p mod 8)) [0..<n]"
    and z: "\<And>p. n \<le> p \<Longrightarrow> p < 8 * ?l \<Longrightarrow> \<not> bit (v ! (p div 8)) (p mod 8)"
    using assms unfolding ReadFixedBitSet_eq by (auto split: option.splits if_splits)
  have l: "length vec = n" "length v = ?l" "s = v @ r"
    using v(2) read_bytes_SomeD [OF v(1)] by simp_all
  have "WriteFixedBitSet vec n ! j = v ! j" if j: "j < ?l" for j
  proof (rule bit_word_eqI)
    show "bit (WriteFixedBitSet vec n ! j) k \<longleftrightarrow> bit (v ! j) k" if "k < LENGTH(8)" for k
    proof (cases "8 * j + k < n")
      case True
      then show ?thesis
        using bit_WriteFixedBitSet [OF l(1) j, of k] that by (simp add: v(2))
    next
      case False
      then show ?thesis
        using bit_WriteFixedBitSet [OF l(1) j, of k] z [of "8 * j + k"] that j by simp
    qed
  qed
  then have "WriteFixedBitSet vec n = v"
    using l by (intro nth_equalityI) (simp_all add: length_WriteFixedBitSet GetSizeOfFixedBitSet_def)
  then show ?thesis
    using l by simp
qed

interpretation fixed_bitset: canonical_codec "\<lambda>vec. WriteFixedBitSet vec n" "ReadFixedBitSet n" "\<lambda>vec. length vec = n" for n
  by unfold_locales (rule ReadFixedBitSet_WriteFixedBitSet, assumption, rule ReadFixedBitSet_SomeD)

interpretation dynbitset: canonical_codec ser_dynbitset unser_dynbitset "\<lambda>vec. length vec \<le> 0x02000000"
proof
  show "unser_dynbitset (ser_dynbitset v @ s) = Some (v, s)" if "length v \<le> 0x02000000" for v s
    using of_nat_size [OF that]
    by (simp add: unser_dynbitset_def ser_dynbitset_def compact_size.unser_ser fixed_bitset.unser_ser)
  show "length v \<le> 0x02000000 \<and> s = ser_dynbitset v @ r" if e: "unser_dynbitset s = Some (v, r)" for s v r
  proof -
    obtain n t where n: "ReadCompactSize True s = Some (n, t)" "ReadFixedBitSet (unat n) t = Some (v, r)"
      using e by (auto simp: unser_dynbitset_def split: Option.bind_splits)
    show ?thesis
      using compact_size.ser_unser [OF n(1)] fixed_bitset.ser_unser [OF n(2)] unat_MAX_SIZE [of n]
      by (auto simp: ser_dynbitset_def)
  qed
qed

lemma WriteVarInt_not_Nil: "WriteVarInt n \<noteq> []"
proof -
  have "0 < GetSizeOfVarInt n"
    by (subst GetSizeOfVarInt.simps) simp
  then show ?thesis
    using length_write_varint_loop [of n "[]"] by (auto simp: WriteVarInt_def)
qed

lemma sint_word_of_int32: "- (2 ^ 31) \<le> i \<Longrightarrow> i < 2 ^ 31 \<Longrightarrow> sint (word_of_int i :: u32) = i"
  by (simp add: signed_of_int signed_take_bit_int_eq_self)

lemma int32_of_size_small: "n < 2 ^ 31 \<Longrightarrow> int32_of_size n = int n"
  using sint_word_of_int32 [of "int n"] by (simp add: int32_of_size_def)

lemma read_varints_of_bits:
  assumes "length done + length bs < 2 ^ 31" "- 1 \<le> prev" "prev < int (length done)"
    "length (varints_of_bits prev (int (length done)) bs) < k"
  shows "read_varints_loop k (done @ replicate (length bs) False) prev
      (varints_of_bits prev (int (length done)) bs @ WriteVarInt (0 :: u32) @ s) = ReadOk (done @ bs) s"
  using assms
proof (induction bs arbitrary: "done" prev k)
  case Nil
  then obtain k' where "k = Suc k'"
    by (cases k) simp_all
  then show ?case
    by (simp add: varint32.unser_ser)
next
  case (Cons b bs)
  have z: "(0 :: int) < int (length done) - prev" "int (length done) - prev \<le> 2 ^ 31"
    using Cons.prems by simp_all
  show ?case
  proof (cases b)
    case False
    then show ?thesis
      using Cons.IH [of "done @ [False]" prev k] Cons.prems by (simp add: add.commute)
  next
    case True
    let ?o = "word_of_int (int (length done) - prev) :: u32"
    have "0 < length (WriteVarInt ?o)"
      using WriteVarInt_not_Nil [of ?o] by blast
    moreover have "length (WriteVarInt ?o) + length (varints_of_bits (int (length done)) (int (length done) + 1) bs) < k"
      using Cons.prems(4) True by simp
    ultimately have "length (varints_of_bits (int (length done)) (int (length done) + 1) bs) < k - 1" "k = Suc (k - 1)"
      by linarith+
    then obtain k' where k: "k = Suc k'" "length (varints_of_bits (int (length done)) (int (length done) + 1) bs) < k'"
      by blast
    have "?o \<noteq> 0"
    proof
      assume "?o = 0"
      then have "uint ?o = 0"
        by simp
      moreover have "uint ?o = int (length done) - prev"
        using z by (simp only: unsigned_of_int) (simp add: take_bit_int_eq_self)
      ultimately show False
        using z by simp
    qed
    moreover have "word_of_int prev + ?o = word_of_int (int (length done))"
      by (simp flip: of_int_add)
    then have "sint (word_of_int prev + ?o) = int (length done)"
      using sint_word_of_int32 [of "int (length done)"] Cons.prems(1) by simp
    moreover have "int32_of_size (length done + Suc (length bs)) = int (length done + Suc (length bs))"
      using Cons.prems(1) by (intro int32_of_size_small) simp
    ultimately show ?thesis
      using True Cons.prems Cons.IH [of "done @ [True]" "int (length done)" k'] k
      by (simp add: varint32.unser_ser Let_def list_update_append add.commute)
  qed
qed

lemma ReadFixedVarIntsBitSet_Write:
  assumes "length vec = n" "n < 2 ^ 31"
  shows "ReadFixedVarIntsBitSet n (WriteFixedVarIntsBitSet vec @ s) = ReadOk vec s"
  using read_varints_of_bits [of "[]" vec "- 1" _ s] assms
  by (simp del: read_varints_loop.simps add: ReadFixedVarIntsBitSet_def WriteFixedVarIntsBitSet_def int32_of_size_small)

text \<open>The fuel of the reader is enough: more of it changes nothing.\<close>

lemma read_varints_loop_fuel:
  "length s < k \<Longrightarrow> length s < k' \<Longrightarrow> read_varints_loop k vec prev s = read_varints_loop k' vec prev s"
proof (induction k arbitrary: k' vec prev s)
  case (Suc k)
  obtain k'' where k': "k' = Suc k''"
    using Suc.prems by (cases k') simp_all
  show ?case
  proof (cases "ReadVarInt s :: (u32 \<times> bytes) option")
    case (Some a)
    then obtain offset t where a: "a = (offset, t)" "s = WriteVarInt offset @ t"
      using varint32.ser_unser by (cases a) blast
    have "length t < length s"
      using a(2) WriteVarInt_not_Nil [of offset] by simp
    then have "read_varints_loop k v i t = read_varints_loop k'' v i t" for v i
      using Suc.prems k' by (intro Suc.IH) simp_all
    then show ?thesis
      by (simp add: k' Some a(1) Let_def)
  qed (simp add: k')
qed simp

text \<open>
  The automatic bit set encoding is read back. For every vector of fewer
  than $2^{31}$ bits neither assertion of \<open>WriteAutoBitSet\<close> fails, the encoding chosen is no longer than
  the other one, and \<open>ReadAutoBitSet\<close> with the same size returns the vector and the rest of the stream.
\<close>

theorem auto_bitset_roundtrip:
  assumes "length vec < 2 ^ 31"
  shows "\<exists>b. WriteAutoBitSet vec (length vec) = Some b \<and>
    length b = 1 + min (GetSizeOfFixedBitSet (length vec)) (length (WriteFixedVarIntsBitSet vec)) \<and>
    ReadAutoBitSet (length vec) (b @ s) = ReadOk vec s"
  using ReadFixedVarIntsBitSet_Write [OF refl assms] fixed_bitset.unser_ser [OF refl, of vec]
  by (auto simp: WriteAutoBitSet_def ReadAutoBitSet_def length_WriteFixedBitSet ser_writedata8_def Let_def)

theorem auto_bitset_roundtrip_witness:
  "\<exists>b. WriteAutoBitSet [True, False, True] 3 = Some b \<and>
    length b = 1 + min (GetSizeOfFixedBitSet 3) (length (WriteFixedVarIntsBitSet [True, False, True])) \<and>
    ReadAutoBitSet 3 (b @ [7]) = ReadOk [True, False, True] [7]"
  using auto_bitset_roundtrip [of "[True, False, True]" "[7]"] by (simp add: numeral_3_eq_3)

text \<open>
  A stream can make \<open>ReadFixedVarIntsBitSet\<close> write outside the
  vector. The first offset is added to -1 in 32 bits; an offset above $2^{31}$ makes the index negative,
  it is below the size, and the check against the previous index is skipped for the first entry.
  For every vector size below $2^{31}$ and every such offset the index is negative.
\<close>

theorem varints_bitset_out_of_bounds:
  assumes "0x80000000 < offset" "n < 2 ^ 31"
  shows "ReadFixedVarIntsBitSet n (WriteVarInt (offset :: u32) @ s) = OutOfBoundsWrite (uint offset - 1 - 2 ^ 32)"
proof -
  have u: "2 ^ 31 < uint offset" "uint offset < 2 ^ 32"
    using assms(1) unsigned_less [of offset, where 'a = int] by (simp_all add: word_less_def)
  have "word_of_int (- 1) + offset = word_of_int (uint offset - 1 - 2 ^ 32)"
  proof -
    have "word_of_int (uint offset - 1 - 2 ^ 32) = (word_of_int (uint offset) - 1 - word_of_int (2 ^ 32) :: u32)"
      by (simp only: of_int_diff of_int_1)
    also have "(word_of_int (2 ^ 32) :: u32) = 0"
      by simp
    finally show ?thesis
      by simp
  qed
  then have "sint (word_of_int (- 1) + offset) = uint offset - 1 - 2 ^ 32"
    using u by (simp only:) (rule sint_word_of_int32, simp_all)
  moreover have "offset \<noteq> 0"
    using assms(1) by auto
  ultimately show ?thesis
    using u assms(2) by (simp add: ReadFixedVarIntsBitSet_def varint32.unser_ser int32_of_size_small Let_def)
qed

theorem varints_bitset_out_of_bounds_witness:
  "ReadFixedVarIntsBitSet 400 [0x86, 0xfe, 0xfe, 0xff, 0x1, 0x00] = OutOfBoundsWrite (- (2 ^ 31))"
proof -
  have "WriteVarInt (0x80000001 :: u32) = [0x86, 0xfe, 0xfe, 0xff, 0x1]"
    by code_simp
  then show ?thesis
    using varints_bitset_out_of_bounds [where offset = "0x80000001" and n = 400 and s = "[0]"] by simp
qed

subsection \<open>Properties of the integer encodings\<close>

lemma GetSizeOfVarInt_bound:
  assumes "8 \<le> LENGTH('a::len)"
  shows "unat (n :: 'a word) < 2 ^ (7 * k) \<Longrightarrow> 0 < k \<Longrightarrow> GetSizeOfVarInt n \<le> k"
proof (induction n arbitrary: k rule: GetSizeOfVarInt.induct)
  case (1 n)
  show ?case
  proof (cases "n \<le> 0x7F")
    case True
    then show ?thesis
      using 1 by (subst GetSizeOfVarInt.simps) simp
  next
    case False
    then have z: "drop_bit 7 n \<noteq> 0"
      using le_127_iff [OF assms, of n] by blast
    then have n: "unat n div 128 \<noteq> 0"
      unfolding unat_drop_bit_7 [symmetric] by (simp add: unat_eq_0)
    obtain k' where k: "k = Suc k'"
      using 1 by (cases k) simp_all
    have "k' \<noteq> 0"
      using "1.prems"(1) n by (intro notI) (simp add: k)
    moreover have "unat n div 128 < 2 ^ (7 * k')"
      using "1.prems"(1) by (intro less_mult_imp_div_less) (simp add: k power_add)
    then have "unat (drop_bit 7 n - 1) < 2 ^ (7 * k')"
      using z by (simp add: unat_minus_one unat_drop_bit_7)
    ultimately show ?thesis
      using False "1.IH" [of k'] by (subst GetSizeOfVarInt.simps) (simp add: k)
  qed
qed

text \<open>
  The variable-length integers of 32 and 64 bits are a bijection onto their
  encodings: the reader returns \<open>n\<close> and leaves \<open>s\<close> exactly on the streams that are the encoding of \<open>n\<close>
  followed by \<open>s\<close>, so that every integer has one encoding and no two encodings overlap.
\<close>

theorem varint_canonical:
  "(ReadVarInt t = Some (n :: u64, s) \<longleftrightarrow> t = WriteVarInt n @ s) \<and>
   (ReadVarInt t = Some (m :: u32, s) \<longleftrightarrow> t = WriteVarInt m @ s)"
  using varint64.unser_ser varint64.ser_unser varint32.unser_ser varint32.ser_unser by blast

text \<open>
  \<open>WriteVarInt\<close> stays inside its buffer \<open>tmp\<close> of \<open>(sizeof(n)*8+6)/7\<close> bytes, 10 for
  64 bits and 5 for 32, and writes as many bytes as \<open>GetSizeOfVarInt\<close> announces.
\<close>

theorem varint_buffer:
  "length (WriteVarInt (n :: u64)) = GetSizeOfVarInt n \<and> GetSizeOfVarInt n \<le> (64 + 6) div 7 \<and>
   length (WriteVarInt (m :: u32)) = GetSizeOfVarInt m \<and> GetSizeOfVarInt m \<le> (32 + 6) div 7"
proof -
  have "unat n < 2 ^ (7 * 10)" "unat m < 2 ^ (7 * 5)"
    using unsigned_less [of n, where 'a = nat] unsigned_less [of m, where 'a = nat] by simp_all
  then have "GetSizeOfVarInt n \<le> 10" "GetSizeOfVarInt m \<le> 5"
    by (auto intro!: GetSizeOfVarInt_bound)
  then show ?thesis
    by (simp add: WriteVarInt_def length_write_varint_loop)
qed

text \<open>
  \<open>ReadCompactSize\<close> accepts exactly the canonical encodings: it returns
  \<open>n\<close> and leaves \<open>s\<close> exactly when the stream is what \<open>WriteCompactSize\<close> writes for \<open>n\<close> followed by \<open>s\<close>,
  and, when the range is checked, \<open>n\<close> does not exceed \<open>MAX_SIZE\<close>; the encoding has the size that
  \<open>GetSizeOfCompactSize\<close> announces.
\<close>

theorem compact_size_canonical:
  "(ReadCompactSize range_check t = Some (n, s) \<longleftrightarrow>
     t = WriteCompactSize n @ s \<and> (if range_check then n \<le> MAX_SIZE else True)) \<and>
   length (WriteCompactSize n) = GetSizeOfCompactSize n"
proof -
  have "ReadCompactSize range_check t = Some (n, s) \<longleftrightarrow>
      t = WriteCompactSize n @ s \<and> (range_check \<longrightarrow> n \<le> MAX_SIZE)"
    using compact_size.ser_unser compact_size.unser_ser by blast
  then show ?thesis
    by (simp add: length_WriteCompactSize)
qed

end
