(* ===== verification/Hasher.thy ===== *)
theory Hasher
  imports Serialize
begin

section \<open>Byte order and buffered hashing (crypto/common.h and the hasher classes)\<close>

text \<open>
  The reads and writes of crypto/common.h, and the part that the hasher classes of crypto/sha1.cpp,
  crypto/sha256.cpp, crypto/sha512.cpp and crypto/ripemd160.cpp have in common: a buffer of one block, a
  count of the bytes, and \<open>Write\<close>, which fills the buffer, hashes full blocks straight from the input and
  keeps the rest. The locale \<open>block_hasher\<close> shows once that any sequence of writes hashes the
  concatenation of its data; each class is an interpretation.
\<close>

subsection \<open>Byte order\<close>

definition ReadLE16 :: "bytes \<Rightarrow> u16" where
  "ReadLE16 p = of_nat (le_value (take 2 p))"

definition ReadLE64 :: "bytes \<Rightarrow> u64" where
  "ReadLE64 p = of_nat (le_value (take 8 p))"

definition WriteLE16 :: "u16 \<Rightarrow> bytes" where
  "WriteLE16 x = le_bytes 2 (unat x)"

definition WriteLE64 :: "u64 \<Rightarrow> bytes" where
  "WriteLE64 x = le_bytes 8 (unat x)"

definition ReadBE16 :: "bytes \<Rightarrow> u16" where
  "ReadBE16 p = of_nat (le_value (rev (take 2 p)))"

definition ReadBE32 :: "bytes \<Rightarrow> u32" where
  "ReadBE32 p = of_nat (le_value (rev (take 4 p)))"

definition ReadBE64 :: "bytes \<Rightarrow> u64" where
  "ReadBE64 p = of_nat (le_value (rev (take 8 p)))"

definition WriteBE32 :: "u32 \<Rightarrow> bytes" where
  "WriteBE32 x = rev (le_bytes 4 (unat x))"

definition WriteBE64 :: "u64 \<Rightarrow> bytes" where
  "WriteBE64 x = rev (le_bytes 8 (unat x))"

text \<open>\<open>CountBits\<close>, in the loop that is compiled where the compiler has no built-in.\<close>

lemma length_Write [simp]:
  "length (WriteLE16 x) = 2" "length (WriteLE64 y) = 8" "length (WriteBE32 z) = 4" "length (WriteBE64 y) = 8"
  by (simp_all add: WriteLE16_def WriteLE64_def WriteBE32_def WriteBE64_def)

lemma of_nat_bits: "push_bit 3 (of_nat n :: u64) = of_nat (8 * n)"
  by (simp add: push_bit_eq_mult mult.commute)

lemma length_concat_Write [simp]:
  "length (concat (map WriteBE32 ws)) = 4 * length ws" "length (concat (map WriteBE64 vs)) = 8 * length vs"
  by (induction ws, simp_all) (induction vs, simp_all)

lemma unat_drop_bit_1_less: "x \<noteq> 0 \<Longrightarrow> unat (drop_bit 1 (x :: u64)) < unat x"
  by (simp only: unat_drop_bit_eq drop_bit_eq_div [where ?'a = nat]) (simp add: unat_gt_0)

function count_bits_loop :: "u64 \<Rightarrow> nat \<Rightarrow> nat" where
  "count_bits_loop x ret = (if x = 0 then ret else count_bits_loop (drop_bit 1 x) (ret + 1))"
  by pat_completeness auto
termination
  by (relation "measure (\<lambda>(x, r). unat x)") (simp_all add: unat_drop_bit_1_less [unfolded One_nat_def])

declare count_bits_loop.simps [simp del]

definition CountBits :: "u64 \<Rightarrow> nat" where
  "CountBits x = count_bits_loop x 0"

subsection \<open>A hasher\<close>

record 's hasher =
  hs_s :: 's
  hs_buf :: bytes
  hs_bytes :: u64

text \<open>\<open>memcpy(buf + pos, data, n)\<close> for the whole of \<open>data\<close>.\<close>

definition buf_copy :: "bytes \<Rightarrow> nat \<Rightarrow> bytes \<Rightarrow> bytes" where
  "buf_copy buf pos data = take pos buf @ data @ drop (pos + length data) buf"

text \<open>The compression of \<open>n\<close> blocks in a row.\<close>

fun transform_blocks :: "nat \<Rightarrow> ('s \<Rightarrow> bytes \<Rightarrow> 's) \<Rightarrow> 's \<Rightarrow> bytes \<Rightarrow> nat \<Rightarrow> 's" where
  "transform_blocks B tr s data 0 = s"
| "transform_blocks B tr s data (Suc n) = transform_blocks B tr (tr s (take B data)) (drop B data) n"

definition hasher_fill :: "nat \<Rightarrow> ('s \<Rightarrow> bytes \<Rightarrow> 's) \<Rightarrow> 's hasher \<Rightarrow> nat \<Rightarrow> bytes \<Rightarrow> 's hasher" where
  "hasher_fill B tr h bufsize data =
     (let buf = buf_copy (hs_buf h) bufsize (take (B - bufsize) data)
      in \<lparr>hs_s = tr (hs_s h) buf, hs_buf = buf, hs_bytes = hs_bytes h + of_nat (B - bufsize)\<rparr>)"

definition hasher_rest :: "nat \<Rightarrow> ('s \<Rightarrow> bytes \<Rightarrow> 's) \<Rightarrow> 's hasher \<Rightarrow> nat \<Rightarrow> bytes \<Rightarrow> 's hasher" where
  "hasher_rest B tr h bufsize data =
     (let blocks = length data div B;
          h = h\<lparr>hs_s := transform_blocks B tr (hs_s h) data blocks, hs_bytes := hs_bytes h + of_nat (B * blocks)\<rparr>;
          data = drop (B * blocks) data
      in if data \<noteq> [] then
           h\<lparr>hs_buf := buf_copy (hs_buf h) bufsize data, hs_bytes := hs_bytes h + of_nat (length data)\<rparr>
         else h)"

definition hasher_Write :: "nat \<Rightarrow> ('s \<Rightarrow> bytes \<Rightarrow> 's) \<Rightarrow> 's hasher \<Rightarrow> bytes \<Rightarrow> 's hasher" where
  "hasher_Write B tr h data =
     (let bufsize = unat (hs_bytes h) mod B
      in if bufsize \<noteq> 0 \<and> bufsize + length data \<ge> B
         then hasher_rest B tr (hasher_fill B tr h bufsize data) 0 (drop (B - bufsize) data)
         else hasher_rest B tr h bufsize data)"

text \<open>The two writes of \<open>Finalize\<close>: a one bit, zeros, and the length in bits.\<close>

definition hasher_pad :: "nat \<Rightarrow> nat \<Rightarrow> ('s \<Rightarrow> bytes \<Rightarrow> 's) \<Rightarrow> 's hasher \<Rightarrow> bytes \<Rightarrow> 's hasher" where
  "hasher_pad B lensize tr h sizedesc =
     (let pad = 0x80 # replicate ((2 * B - 1 - lensize - unat (hs_bytes h) mod B) mod B) 0
      in hasher_Write B tr (hasher_Write B tr h pad) sizedesc)"

subsection \<open>What a hasher computes\<close>

fun blocks_of :: "nat \<Rightarrow> nat \<Rightarrow> bytes \<Rightarrow> bytes list" where
  "blocks_of B 0 m = []"
| "blocks_of B (Suc n) m = take B m # blocks_of B n (drop B m)"

definition full_blocks :: "nat \<Rightarrow> bytes \<Rightarrow> bytes list" where
  "full_blocks B m = blocks_of B (length m div B) m"

text \<open>The padded message: whole blocks, ending with the description of the length.\<close>

definition md_pad :: "nat \<Rightarrow> nat \<Rightarrow> bytes \<Rightarrow> bytes \<Rightarrow> bytes" where
  "md_pad B lensize sizedesc m = 0x80 # replicate ((2 * B - 1 - lensize - length m mod B) mod B) 0 @ sizedesc"

lemma transform_blocks_foldl: "transform_blocks B tr s data n = foldl tr s (blocks_of B n data)"
  by (induction n arbitrary: s data) simp_all

lemma blocks_of_append: "B * n \<le> length a \<Longrightarrow> blocks_of B n (a @ b) = blocks_of B n a"
  by (induction n arbitrary: a) auto

lemma blocks_of_add: "blocks_of B (n + k) m = blocks_of B n m @ blocks_of B k (drop (B * n) m)"
  by (induction n arbitrary: m) (simp_all add: add.commute)

locale block_hasher =
  fixes B :: nat and tr :: "'s \<Rightarrow> bytes \<Rightarrow> 's" and iv :: 's
  assumes block_pos: "0 < B" and block_dvd: "B dvd 2 ^ 64"
begin

definition hashed :: "'s hasher \<Rightarrow> bytes \<Rightarrow> bool" where
  "hashed h m \<longleftrightarrow> hs_s h = foldl tr iv (full_blocks B m) \<and> length (hs_buf h) = B \<and>
     hs_bytes h = of_nat (length m) \<and>
     take (length m mod B) (hs_buf h) = drop (B * (length m div B)) m"

lemma hashed_bufsize:
  assumes "hashed h m"
  shows "unat (hs_bytes h) mod B = length m mod B"
proof -
  have "unat (hs_bytes h) = length m mod 2 ^ 64"
    using assms unfolding hashed_def by (simp add: unat_of_nat)
  then show ?thesis
    using block_dvd by (simp add: mod_mod_cancel)
qed

lemma hashed_init: "length buf = B \<Longrightarrow> hashed \<lparr>hs_s = iv, hs_buf = buf, hs_bytes = 0\<rparr> []"
  unfolding hashed_def full_blocks_def by simp

lemma full_blocks_append:
  assumes "length m mod B = 0"
  shows "full_blocks B (m @ d) = full_blocks B m @ blocks_of B (length d div B) d"
proof -
  have l: "B * (length m div B) = length m"
    using assms by (simp add: mult.commute dvd_div_mult_self mod_eq_0_iff_dvd)
  then have "length (m @ d) div B = length m div B + length d div B"
    using assms by (simp add: div_add1_eq)
  then show ?thesis
    unfolding full_blocks_def using l by (simp add: blocks_of_add blocks_of_append)
qed

lemma full_blocks_short:
  assumes "length m mod B + length d < B"
  shows "full_blocks B (m @ d) = full_blocks B m" "length (m @ d) div B = length m div B"
    "length (m @ d) mod B = length m mod B + length d"
proof -
  have e: "length (m @ d) = B * (length m div B) + (length m mod B + length d)"
    by simp
  have "(B * q + r) div B = q" "(B * q + r) mod B = r" if "r < B" for q r
    using that block_pos by simp_all
  from this [OF assms, of "length m div B"]
  show div: "length (m @ d) div B = length m div B" "length (m @ d) mod B = length m mod B + length d"
    unfolding e by blast+
  show "full_blocks B (m @ d) = full_blocks B m"
    unfolding full_blocks_def div(1) by (rule blocks_of_append) simp
qed

lemma hashed_rest:
  assumes h: "hashed h m" and b: "length m mod B = 0 \<or> length m mod B + length d < B"
  shows "hashed (hasher_rest B tr h (length m mod B) d) (m @ d)"
proof (cases "length m mod B = 0")
  case True
  have l: "B * (length m div B) = length m"
    using True by (simp add: mult.commute dvd_div_mult_self mod_eq_0_iff_dvd)
  have dv: "length (m @ d) div B = length m div B + length d div B" "length (m @ d) mod B = length d mod B"
    using True by (simp_all add: div_add1_eq mod_add_left_eq [symmetric])
  have rest: "length (drop (B * (length d div B)) d) = length d mod B"
    by (simp add: minus_mult_div_eq_mod)
  have nil: "length d mod B = 0" if "drop (B * (length d div B)) d = []"
    using that rest by simp
  have drop: "drop (B * (length (m @ d) div B)) (m @ d) = drop (B * (length d div B)) d"
    unfolding dv using l by (simp add: distrib_left)
  have bytes: "hs_bytes h + of_nat (B * (length d div B)) + of_nat (length d mod B) = of_nat (length (m @ d))"
    using h unfolding hashed_def by (metis add.assoc length_append mult_div_mod_eq of_nat_add)
  have lt: "length d mod B < B"
    using block_pos by simp
  show ?thesis
  proof (cases "drop (B * (length d div B)) d = []")
    case n: True
    then show ?thesis
      using h nil [OF n] bytes unfolding hashed_def hasher_rest_def Let_def drop dv(2) full_blocks_append [OF True]
      by (simp add: transform_blocks_foldl)
  next
    case n: False
    have "length (drop (length d mod B) (hs_buf h)) = B - length d mod B"
      using h unfolding hashed_def by simp
    with n show ?thesis
      using h rest lt bytes unfolding hashed_def hasher_rest_def Let_def drop dv(2) full_blocks_append [OF True]
      by (simp add: transform_blocks_foldl True buf_copy_def del: length_drop of_nat_mult)
  qed
next
  case False
  then have sm: "length m mod B + length d < B"
    using b by simp
  note short = full_blocks_short [OF sm]
  have "length d div B = 0"
    using sm by simp
  moreover have "drop (B * (length m div B)) (m @ d) = drop (B * (length m div B)) m @ d"
    by simp
  ultimately show ?thesis
    using h sm unfolding hashed_def hasher_rest_def Let_def short
    by (auto simp: buf_copy_def minus_mult_div_eq_mod)
qed

lemma length_fill:
  assumes "B \<le> length m mod B + length d"
  shows "length (m @ take (B - length m mod B) d) = B * (length m div B) + B"
proof -
  have "length (take (B - length m mod B) d) = B - length m mod B" "length m mod B < B"
    using assms block_pos by simp_all
  then show ?thesis
    by (metis add.assoc le_add_diff_inverse length_append less_imp_le mult_div_mod_eq)
qed

lemma hashed_fill:
  assumes h: "hashed h m" and b: "length m mod B \<noteq> 0" "B \<le> length m mod B + length d"
  shows "hashed (hasher_fill B tr h (length m mod B) d) (m @ take (B - length m mod B) d)"
proof -
  let ?d = "take (B - length m mod B) d"
  have lt: "length m mod B < B"
    using block_pos by simp
  have ld: "length ?d = B - length m mod B"
    using b(2) by simp
  have lm: "length (m @ ?d) = B * (length m div B) + B"
    using b(2) by (rule length_fill)
  then have dv: "length (m @ ?d) div B = Suc (length m div B)" "length (m @ ?d) mod B = 0"
    using block_pos by simp_all
  have buf: "buf_copy (hs_buf h) (length m mod B) ?d = drop (B * (length m div B)) m @ ?d"
    using h ld lt unfolding hashed_def buf_copy_def by simp
  have "full_blocks B (m @ ?d) = full_blocks B m @ [drop (B * (length m div B)) m @ ?d]"
    unfolding full_blocks_def dv(1)
    using blocks_of_add [of B "length m div B" 1 "m @ ?d"] ld lt
    by (simp add: blocks_of_append minus_mult_div_eq_mod)
  moreover have "hs_bytes h + of_nat (B - length m mod B) = of_nat (length (m @ ?d))"
    using h ld unfolding hashed_def by (simp del: of_nat_diff length_take)
  moreover have "drop (B * (length (m @ ?d) div B)) (m @ ?d) = []"
    using lm dv(1) by simp
  moreover have "length (drop (B * (length m div B)) m @ ?d) = B"
    using ld lt by (simp add: minus_mult_div_eq_mod)
  ultimately show ?thesis
    using h unfolding hashed_def hasher_fill_def Let_def dv(2) buf by simp
qed

lemma hashed_Write:
  assumes "hashed h m"
  shows "hashed (hasher_Write B tr h d) (m @ d)"
proof (cases "length m mod B \<noteq> 0 \<and> B \<le> length m mod B + length d")
  case True
  let ?d = "take (B - length m mod B) d"
  have "length (m @ ?d) mod B = 0"
    using length_fill [of m d] True by simp
  then have "hashed (hasher_rest B tr (hasher_fill B tr h (length m mod B) d) 0 (drop (B - length m mod B) d)) (m @ d)"
    using hashed_rest [OF hashed_fill [OF assms], of d "drop (B - length m mod B) d"] True by simp
  then show ?thesis
    using True unfolding hasher_Write_def Let_def hashed_bufsize [OF assms] by simp
next
  case False
  then show ?thesis
    using hashed_rest [OF assms, of d] unfolding hasher_Write_def Let_def hashed_bufsize [OF assms] by auto
qed

lemma hashed_writes: "hashed h m \<Longrightarrow> hashed (fold (\<lambda>d h. hasher_Write B tr h d) ds h) (m @ concat ds)"
proof (induction ds arbitrary: h m)
  case (Cons d ds)
  show ?case
    using Cons.IH [OF hashed_Write [OF Cons.prems, of d]] by simp
qed simp

lemma hashed_pad:
  assumes "hashed h m"
  shows "hashed (hasher_pad B lensize tr h sizedesc) (m @ md_pad B lensize sizedesc m)"
  using hashed_Write [OF hashed_Write [OF assms, of "0x80 # replicate ((2 * B - 1 - lensize - length m mod B) mod B) 0"],
      of sizedesc]
  unfolding hasher_pad_def md_pad_def Let_def hashed_bufsize [OF assms] by simp

lemma length_padded:
  assumes "length sizedesc = lensize" "lensize < B"
  shows "length (m @ md_pad B lensize sizedesc m) mod B = 0"
proof -
  let ?z = "2 * B - 1 - lensize - length m mod B"
  have "length m mod B < B"
    using block_pos by simp
  then have z: "1 + lensize + length m mod B + ?z = 2 * B"
    using assms(2) by linarith
  have e: "(k + (l + z mod B)) mod B = (k + l mod B + z) mod B" for k l z :: nat
    by (metis add.assoc mod_add_left_eq mod_add_right_eq)
  have "length (m @ md_pad B lensize sizedesc m) = (1 + lensize) + (length m + ?z mod B)"
    unfolding md_pad_def using assms(1) by simp
  then have "length (m @ md_pad B lensize sizedesc m) mod B = (1 + lensize + length m mod B + ?z) mod B"
    using e [of "1 + lensize" "length m" ?z] by (simp only:)
  then show ?thesis
    unfolding z by simp
qed

lemma hash_state:
  assumes "hashed h m"
  shows "hs_s (hasher_pad B lensize tr h sizedesc) = foldl tr iv (full_blocks B (m @ md_pad B lensize sizedesc m))"
  using hashed_pad [OF assms] unfolding hashed_def by blast

end

subsection \<open>A schedule in sixteen words\<close>

text \<open>
  The transformations keep the last sixteen words of the message schedule \<open>W\<close>, word \<open>t\<close> in place \<open>t mod 16\<close>, and
  overwrite the oldest one on each line.
\<close>

definition window :: "(nat \<Rightarrow> 'w) \<Rightarrow> nat \<Rightarrow> 'w list \<Rightarrow> bool" where
  "window W n w \<longleftrightarrow> length w = 16 \<and> (\<forall>t. n \<le> t + 16 \<and> t < max 16 n \<longrightarrow> w ! (t mod 16) = W t)"

lemma window_length: "window W n w \<Longrightarrow> length w = 16"
  unfolding window_def by blast

lemma window_first: "window W n w \<Longrightarrow> n < 16 \<Longrightarrow> window W (Suc n) w \<and> w ! n = W n"
  unfolding window_def by (auto simp: max_def split: if_splits)

lemma window_last:
  assumes "window W n w" "16 \<le> n" "k < 16"
  shows "w ! ((n + k) mod 16) = W (n - (16 - k))"
proof -
  have "n + k = n - (16 - k) + 16"
    using assms(2,3) by simp
  then have "(n + k) mod 16 = (n - (16 - k)) mod 16"
    by (metis mod_add_self2)
  then show ?thesis
    using assms unfolding window_def by auto
qed

lemma mod_16_neq:
  fixes t n :: nat
  assumes "t < n" "n < t + 16"
  shows "t mod 16 \<noteq> n mod 16"
proof
  assume "t mod 16 = n mod 16"
  then have "16 dvd n - t"
    using assms(1) by (metis mod_eq_dvd_iff_nat less_imp_le)
  then show False
    using assms by (auto dest!: dvd_imp_le)
qed

lemma window_next:
  assumes "window W n w" "16 \<le> n"
  shows "window W (Suc n) (w[n mod 16 := W n])"
  unfolding window_def
proof (intro conjI allI impI)
  show "length (w[n mod 16 := W n]) = 16"
    using window_length [OF assms(1)] by simp
  fix t
  assume t: "Suc n \<le> t + 16 \<and> t < max 16 (Suc n)"
  show "w[n mod 16 := W n] ! (t mod 16) = W t"
  proof (cases "t = n")
    case True
    then show ?thesis
      using window_length [OF assms(1)] by simp
  next
    case False
    then have "t mod 16 \<noteq> n mod 16"
      using t assms(2) by (intro mod_16_neq) auto
    then show ?thesis
      using t False assms unfolding window_def by auto
  qed
qed

end
