(* ===== verification/Sha2.thy ===== *)
theory Sha2
  imports Hasher
begin

section \<open>SHA-256 and SHA-512 (crypto/sha256.cpp, crypto/sha512.cpp)\<close>

text \<open>
  The two files have the same shape at two word sizes. The transformation of a block is written out line
  by line: line \<open>i\<close> calls \<open>Round\<close> with the eight variables renamed by a rotation, so that only two of them
  change, and keeps the message schedule in sixteen variables that are overwritten in turn. The model
  has the same registers and the same overwriting, with the line number as an argument. The first part
  shows, for any word size and any constants, that this computes the compression function of the
  standard, with its schedule of as many words as rounds and its shifting variables.
\<close>

subsection \<open>Lines\<close>

definition Ch :: "'w::len word \<Rightarrow> 'w word \<Rightarrow> 'w word \<Rightarrow> 'w word" where
  "Ch x y z = z XOR (x AND (y XOR z))"

definition Maj :: "'w::len word \<Rightarrow> 'w word \<Rightarrow> 'w word \<Rightarrow> 'w word" where
  "Maj x y z = (x AND y) OR (z AND (x OR y))"

text \<open>\<open>Round\<close> returns the new values of its reference arguments \<open>d\<close> and \<open>h\<close>.\<close>

definition sha2_Round ::
  "('w::len word \<Rightarrow> 'w word) \<Rightarrow> ('w word \<Rightarrow> 'w word) \<Rightarrow> 'w word list \<Rightarrow> 'w word \<Rightarrow> 'w word \<times> 'w word" where
  "sha2_Round S0 S1 x k =
     (let t1 = x ! 7 + S1 (x ! 4) + Ch (x ! 4) (x ! 5) (x ! 6) + k;
          t2 = S0 (x ! 0) + Maj (x ! 0) (x ! 1) (x ! 2)
      in (x ! 3 + t1, t1 + t2))"

text \<open>The variable that stands in place \<open>j\<close> of the arguments of \<open>Round\<close> on line \<open>i\<close>.\<close>

definition sha2_reg :: "nat \<Rightarrow> nat \<Rightarrow> nat" where
  "sha2_reg i j = (j + 8 - i mod 8) mod 8"

definition sha2_line ::
  "('w::len word \<Rightarrow> 'w word) \<Rightarrow> ('w word \<Rightarrow> 'w word) \<Rightarrow> nat \<Rightarrow> 'w word \<Rightarrow> 'w word list \<Rightarrow> 'w word list" where
  "sha2_line S0 S1 i k r =
     (case sha2_Round S0 S1 (map (\<lambda>j. r ! sha2_reg i j) [0..<8]) k of
        (d, h) \<Rightarrow> r[sha2_reg i 3 := d, sha2_reg i 7 := h])"

definition sha2_word :: "('w::len word \<Rightarrow> 'w word) \<Rightarrow> ('w word \<Rightarrow> 'w word) \<Rightarrow> nat \<Rightarrow> 'w word list \<Rightarrow> 'w word list" where
  "sha2_word s0 s1 i w =
     (if i < 16 then w
      else w[i mod 16 := w ! (i mod 16) + (s1 (w ! ((i + 14) mod 16)) + w ! ((i + 9) mod 16) + s0 (w ! ((i + 1) mod 16)))])"

definition sha2_step ::
  "('w::len word \<Rightarrow> 'w word) \<Rightarrow> ('w word \<Rightarrow> 'w word) \<Rightarrow> ('w word \<Rightarrow> 'w word) \<Rightarrow> ('w word \<Rightarrow> 'w word) \<Rightarrow> 'w word list \<Rightarrow>
   nat \<Rightarrow> 'w word list \<times> 'w word list \<Rightarrow> 'w word list \<times> 'w word list" where
  "sha2_step S0 S1 s0 s1 K i = (\<lambda>(r, w).
     let w = sha2_word s0 s1 i w in (sha2_line S0 S1 i (K ! i + w ! (i mod 16)) r, w))"

definition sha2_transform ::
  "('w::len word \<Rightarrow> 'w word) \<Rightarrow> ('w word \<Rightarrow> 'w word) \<Rightarrow> ('w word \<Rightarrow> 'w word) \<Rightarrow> ('w word \<Rightarrow> 'w word) \<Rightarrow> 'w word list \<Rightarrow>
   'w word list \<Rightarrow> 'w word list \<Rightarrow> 'w word list" where
  "sha2_transform S0 S1 s0 s1 K s w =
     map2 (+) s (fst (fold (sha2_step S0 S1 s0 s1 K) [0..<length K] (s, w)))"

subsection \<open>SHA-256\<close>

definition sha256_Sigma0 :: "u32 \<Rightarrow> u32" where
  "sha256_Sigma0 x = (drop_bit 2 x OR push_bit 30 x) XOR (drop_bit 13 x OR push_bit 19 x) XOR (drop_bit 22 x OR push_bit 10 x)"

definition sha256_Sigma1 :: "u32 \<Rightarrow> u32" where
  "sha256_Sigma1 x = (drop_bit 6 x OR push_bit 26 x) XOR (drop_bit 11 x OR push_bit 21 x) XOR (drop_bit 25 x OR push_bit 7 x)"

definition sha256_sigma0 :: "u32 \<Rightarrow> u32" where
  "sha256_sigma0 x = (drop_bit 7 x OR push_bit 25 x) XOR (drop_bit 18 x OR push_bit 14 x) XOR drop_bit 3 x"

definition sha256_sigma1 :: "u32 \<Rightarrow> u32" where
  "sha256_sigma1 x = (drop_bit 17 x OR push_bit 15 x) XOR (drop_bit 19 x OR push_bit 13 x) XOR drop_bit 10 x"

definition sha256_K :: "u32 list" where
  "sha256_K = concat [
     [0x428a2f98, 0x71374491, 0xb5c0fbcf, 0xe9b5dba5, 0x3956c25b, 0x59f111f1, 0x923f82a4, 0xab1c5ed5],
     [0xd807aa98, 0x12835b01, 0x243185be, 0x550c7dc3, 0x72be5d74, 0x80deb1fe, 0x9bdc06a7, 0xc19bf174],
     [0xe49b69c1, 0xefbe4786, 0x0fc19dc6, 0x240ca1cc, 0x2de92c6f, 0x4a7484aa, 0x5cb0a9dc, 0x76f988da],
     [0x983e5152, 0xa831c66d, 0xb00327c8, 0xbf597fc7, 0xc6e00bf3, 0xd5a79147, 0x06ca6351, 0x14292967],
     [0x27b70a85, 0x2e1b2138, 0x4d2c6dfc, 0x53380d13, 0x650a7354, 0x766a0abb, 0x81c2c92e, 0x92722c85],
     [0xa2bfe8a1, 0xa81a664b, 0xc24b8b70, 0xc76c51a3, 0xd192e819, 0xd6990624, 0xf40e3585, 0x106aa070],
     [0x19a4c116, 0x1e376c08, 0x2748774c, 0x34b0bcb5, 0x391c0cb3, 0x4ed8aa4a, 0x5b9cca4f, 0x682e6ff3],
     [0x748f82ee, 0x78a5636f, 0x84c87814, 0x8cc70208, 0x90befffa, 0xa4506ceb, 0xbef9a3f7, 0xc67178f2]]"

definition sha256_Initialize :: "u32 list" where
  "sha256_Initialize =
     [0x6a09e667, 0xbb67ae85, 0x3c6ef372, 0xa54ff53a, 0x510e527f, 0x9b05688c, 0x1f83d9ab, 0x5be0cd19]"

text \<open>One turn of the loop of \<open>Transform\<close>. The words are read on the first sixteen lines; here at once.\<close>

definition sha256_block :: "u32 list \<Rightarrow> bytes \<Rightarrow> u32 list" where
  "sha256_block s chunk =
     sha2_transform sha256_Sigma0 sha256_Sigma1 sha256_sigma0 sha256_sigma1 sha256_K s
       (map (\<lambda>i. ReadBE32 (drop (4 * i) chunk)) [0..<16])"

definition sha256_Transform :: "u32 list \<Rightarrow> bytes \<Rightarrow> nat \<Rightarrow> u32 list" where
  "sha256_Transform s chunk blocks = transform_blocks 64 sha256_block s chunk blocks"

type_synonym CSHA256 = "u32 list hasher"

text \<open>The constructor leaves the buffer uninitialised: its contents are an argument.\<close>

definition CSHA256_init :: "bytes \<Rightarrow> CSHA256" where
  "CSHA256_init buf = \<lparr>hs_s = sha256_Initialize, hs_buf = buf, hs_bytes = 0\<rparr>"

definition CSHA256_Write :: "CSHA256 \<Rightarrow> bytes \<Rightarrow> CSHA256" where
  "CSHA256_Write = hasher_Write 64 sha256_block"

text \<open>\<open>Finalize\<close> writes the padding and reads the digest off the state.\<close>

definition CSHA256_padded :: "CSHA256 \<Rightarrow> CSHA256" where
  "CSHA256_padded h = hasher_pad 64 8 sha256_block h (WriteBE64 (push_bit 3 (hs_bytes h)))"

definition CSHA256_Finalize :: "CSHA256 \<Rightarrow> bytes" where
  "CSHA256_Finalize h = concat (map WriteBE32 (hs_s (CSHA256_padded h)))"

definition CSHA256_Reset :: "CSHA256 \<Rightarrow> CSHA256" where
  "CSHA256_Reset h = h\<lparr>hs_bytes := 0, hs_s := sha256_Initialize\<rparr>"

subsection \<open>SHA-512\<close>

definition sha512_Sigma0 :: "u64 \<Rightarrow> u64" where
  "sha512_Sigma0 x = (drop_bit 28 x OR push_bit 36 x) XOR (drop_bit 34 x OR push_bit 30 x) XOR (drop_bit 39 x OR push_bit 25 x)"

definition sha512_Sigma1 :: "u64 \<Rightarrow> u64" where
  "sha512_Sigma1 x = (drop_bit 14 x OR push_bit 50 x) XOR (drop_bit 18 x OR push_bit 46 x) XOR (drop_bit 41 x OR push_bit 23 x)"

definition sha512_sigma0 :: "u64 \<Rightarrow> u64" where
  "sha512_sigma0 x = (drop_bit 1 x OR push_bit 63 x) XOR (drop_bit 8 x OR push_bit 56 x) XOR drop_bit 7 x"

definition sha512_sigma1 :: "u64 \<Rightarrow> u64" where
  "sha512_sigma1 x = (drop_bit 19 x OR push_bit 45 x) XOR (drop_bit 61 x OR push_bit 3 x) XOR drop_bit 6 x"

definition sha512_K :: "u64 list" where
  "sha512_K = concat [
     [0x428a2f98d728ae22, 0x7137449123ef65cd, 0xb5c0fbcfec4d3b2f, 0xe9b5dba58189dbbc,
      0x3956c25bf348b538, 0x59f111f1b605d019, 0x923f82a4af194f9b, 0xab1c5ed5da6d8118],
     [0xd807aa98a3030242, 0x12835b0145706fbe, 0x243185be4ee4b28c, 0x550c7dc3d5ffb4e2,
      0x72be5d74f27b896f, 0x80deb1fe3b1696b1, 0x9bdc06a725c71235, 0xc19bf174cf692694],
     [0xe49b69c19ef14ad2, 0xefbe4786384f25e3, 0x0fc19dc68b8cd5b5, 0x240ca1cc77ac9c65,
      0x2de92c6f592b0275, 0x4a7484aa6ea6e483, 0x5cb0a9dcbd41fbd4, 0x76f988da831153b5],
     [0x983e5152ee66dfab, 0xa831c66d2db43210, 0xb00327c898fb213f, 0xbf597fc7beef0ee4,
      0xc6e00bf33da88fc2, 0xd5a79147930aa725, 0x06ca6351e003826f, 0x142929670a0e6e70],
     [0x27b70a8546d22ffc, 0x2e1b21385c26c926, 0x4d2c6dfc5ac42aed, 0x53380d139d95b3df,
      0x650a73548baf63de, 0x766a0abb3c77b2a8, 0x81c2c92e47edaee6, 0x92722c851482353b],
     [0xa2bfe8a14cf10364, 0xa81a664bbc423001, 0xc24b8b70d0f89791, 0xc76c51a30654be30,
      0xd192e819d6ef5218, 0xd69906245565a910, 0xf40e35855771202a, 0x106aa07032bbd1b8],
     [0x19a4c116b8d2d0c8, 0x1e376c085141ab53, 0x2748774cdf8eeb99, 0x34b0bcb5e19b48a8,
      0x391c0cb3c5c95a63, 0x4ed8aa4ae3418acb, 0x5b9cca4f7763e373, 0x682e6ff3d6b2b8a3],
     [0x748f82ee5defb2fc, 0x78a5636f43172f60, 0x84c87814a1f0ab72, 0x8cc702081a6439ec,
      0x90befffa23631e28, 0xa4506cebde82bde9, 0xbef9a3f7b2c67915, 0xc67178f2e372532b],
     [0xca273eceea26619c, 0xd186b8c721c0c207, 0xeada7dd6cde0eb1e, 0xf57d4f7fee6ed178,
      0x06f067aa72176fba, 0x0a637dc5a2c898a6, 0x113f9804bef90dae, 0x1b710b35131c471b],
     [0x28db77f523047d84, 0x32caab7b40c72493, 0x3c9ebe0a15c9bebc, 0x431d67c49c100d4c,
      0x4cc5d4becb3e42b6, 0x597f299cfc657e2a, 0x5fcb6fab3ad6faec, 0x6c44198c4a475817]]"

definition sha512_Initialize :: "u64 list" where
  "sha512_Initialize =
     [0x6a09e667f3bcc908, 0xbb67ae8584caa73b, 0x3c6ef372fe94f82b, 0xa54ff53a5f1d36f1,
      0x510e527fade682d1, 0x9b05688c2b3e6c1f, 0x1f83d9abfb41bd6b, 0x5be0cd19137e2179]"

definition sha512_Transform :: "u64 list \<Rightarrow> bytes \<Rightarrow> u64 list" where
  "sha512_Transform s chunk =
     sha2_transform sha512_Sigma0 sha512_Sigma1 sha512_sigma0 sha512_sigma1 sha512_K s
       (map (\<lambda>i. ReadBE64 (drop (8 * i) chunk)) [0..<16])"

type_synonym CSHA512 = "u64 list hasher"

definition CSHA512_init :: "bytes \<Rightarrow> CSHA512" where
  "CSHA512_init buf = \<lparr>hs_s = sha512_Initialize, hs_buf = buf, hs_bytes = 0\<rparr>"

definition CSHA512_Write :: "CSHA512 \<Rightarrow> bytes \<Rightarrow> CSHA512" where
  "CSHA512_Write = hasher_Write 128 sha512_Transform"

definition CSHA512_Finalize :: "CSHA512 \<Rightarrow> bytes" where
  "CSHA512_Finalize h =
     concat (map WriteBE64 (hs_s (hasher_pad 128 16 sha512_Transform h
       (replicate 8 0 @ WriteBE64 (push_bit 3 (hs_bytes h))))))"

definition CSHA512_Reset :: "CSHA512 \<Rightarrow> CSHA512" where
  "CSHA512_Reset h = h\<lparr>hs_bytes := 0, hs_s := sha512_Initialize\<rparr>"

subsection \<open>The standard\<close>

function sha2_W :: "('w::len word \<Rightarrow> 'w word) \<Rightarrow> ('w word \<Rightarrow> 'w word) \<Rightarrow> 'w word list \<Rightarrow> nat \<Rightarrow> 'w word" where
  "sha2_W s0 s1 M t =
     (if t < 16 then M ! t
      else s1 (sha2_W s0 s1 M (t - 2)) + sha2_W s0 s1 M (t - 7) + s0 (sha2_W s0 s1 M (t - 15)) + sha2_W s0 s1 M (t - 16))"
  by pat_completeness auto
termination
  by (relation "measure (\<lambda>(s0, s1, M, t). t)") auto

declare sha2_W.simps [simp del]

definition sha2_shift :: "('w::len word \<Rightarrow> 'w word) \<Rightarrow> ('w word \<Rightarrow> 'w word) \<Rightarrow> 'w word \<Rightarrow> 'w word list \<Rightarrow> 'w word list" where
  "sha2_shift S0 S1 kw v =
     (let a = v ! 0; b = v ! 1; c = v ! 2; d = v ! 3; e = v ! 4; f = v ! 5; g = v ! 6; h = v ! 7;
          T1 = h + S1 e + ((e AND f) XOR (NOT e AND g)) + kw;
          T2 = S0 a + ((a AND b) XOR (a AND c) XOR (b AND c))
      in [T1 + T2, a, b, c, d + T1, e, f, g])"

definition sha2_compress ::
  "('w::len word \<Rightarrow> 'w word) \<Rightarrow> ('w word \<Rightarrow> 'w word) \<Rightarrow> ('w word \<Rightarrow> 'w word) \<Rightarrow> ('w word \<Rightarrow> 'w word) \<Rightarrow> 'w word list \<Rightarrow>
   'w word list \<Rightarrow> 'w word list \<Rightarrow> 'w word list" where
  "sha2_compress S0 S1 s0 s1 K H M =
     map2 (+) H (fold (\<lambda>t. sha2_shift S0 S1 (K ! t + sha2_W s0 s1 M t)) [0..<length K] H)"

text \<open>The digest of a message: pad it to whole blocks and fold the compression function over them. The length in the padding is a 64-bit number of bits, as in the code, so this is the standard for messages of less than \<open>2 ^ 61\<close> bytes.\<close>

definition sha256_spec :: "bytes \<Rightarrow> bytes" where
  "sha256_spec m =
     concat (map WriteBE32 (foldl (\<lambda>H chunk. sha2_compress sha256_Sigma0 sha256_Sigma1 sha256_sigma0 sha256_sigma1 sha256_K H
         (map (\<lambda>i. ReadBE32 (drop (4 * i) chunk)) [0..<16])) sha256_Initialize
       (full_blocks 64 (m @ md_pad 64 8 (WriteBE64 (of_nat (8 * length m))) m))))"

definition sha512_spec :: "bytes \<Rightarrow> bytes" where
  "sha512_spec m =
     concat (map WriteBE64 (foldl (\<lambda>H chunk. sha2_compress sha512_Sigma0 sha512_Sigma1 sha512_sigma0 sha512_sigma1 sha512_K H
         (map (\<lambda>i. ReadBE64 (drop (8 * i) chunk)) [0..<16])) sha512_Initialize
       (full_blocks 128 (m @ md_pad 128 16 (replicate 8 0 @ WriteBE64 (of_nat (8 * length m))) m))))"

subsection \<open>The lines compute the standard\<close>

lemma Ch_standard: "Ch x y z = (x AND y) XOR (NOT x AND z)"
  unfolding Ch_def by (rule bit_word_eqI) (auto simp: bit_simps)

lemma Maj_standard: "Maj x y z = (x AND y) XOR (x AND z) XOR (y AND z)"
  unfolding Maj_def by (rule bit_word_eqI) (auto simp: bit_simps)

definition sha2_view :: "nat \<Rightarrow> 'w::len word list \<Rightarrow> 'w word list" where
  "sha2_view i r = map (\<lambda>j. r ! sha2_reg i j) [0..<8]"

lemma sha2_reg_if: "j < 8 \<Longrightarrow> sha2_reg i j = (if j < i mod 8 then j + 8 - i mod 8 else j - i mod 8)"
proof -
  assume "j < 8"
  have "i mod 8 < 8"
    by simp
  with \<open>j < 8\<close> show ?thesis
    unfolding sha2_reg_def by (auto simp: le_mod_geq)
qed

lemma sha2_reg_Suc:
  "sha2_reg (Suc i) 0 = sha2_reg i 7" "j < 7 \<Longrightarrow> sha2_reg (Suc i) (Suc j) = sha2_reg i j"
proof -
  define m where "m = i mod 8"
  have i: "m < 8" "Suc i mod 8 = (if m = 7 then 0 else Suc m)" "i mod 8 = m"
    unfolding m_def by (simp_all add: mod_Suc)
  show "sha2_reg (Suc i) 0 = sha2_reg i 7"
    using i(1) by (simp add: sha2_reg_if i(2,3))
  show "sha2_reg (Suc i) (Suc j) = sha2_reg i j" if "j < 7"
    using i(1) that by (auto simp: sha2_reg_if i(2,3))
qed

lemma sha2_reg_less: "sha2_reg i j < 8"
  unfolding sha2_reg_def by simp

lemma sha2_reg_inj: "j < 8 \<Longrightarrow> k < 8 \<Longrightarrow> sha2_reg i j = sha2_reg i k \<longleftrightarrow> j = k"
  using mod_less_divisor [of 8 i] by (auto simp: sha2_reg_if)

lemma length_sha2_line [simp]: "length (sha2_line S0 S1 i k r) = length r"
  unfolding sha2_line_def by (simp split: prod.split)

lemma upt_8: "[0..<8] = [0, 1, 2, 3, 4, 5, 6, 7 :: nat]"
  by (simp add: upt_rec)

lemma sha2_line_view:
  assumes "length r = 8"
  shows "sha2_view (Suc i) (sha2_line S0 S1 i k r) = sha2_shift S0 S1 k (sha2_view i r)"
proof -
  have reg: "sha2_reg (Suc i) 1 = sha2_reg i 0" "sha2_reg (Suc i) 2 = sha2_reg i 1" "sha2_reg (Suc i) 3 = sha2_reg i 2"
    "sha2_reg (Suc i) 4 = sha2_reg i 3" "sha2_reg (Suc i) 5 = sha2_reg i 4" "sha2_reg (Suc i) 6 = sha2_reg i 5"
    "sha2_reg (Suc i) 7 = sha2_reg i 6"
    using sha2_reg_Suc(2) [of _ i] by (simp_all add: eval_nat_numeral)
  show ?thesis
    unfolding sha2_view_def sha2_line_def sha2_Round_def sha2_shift_def Let_def upt_8
    by (simp add: reg reg(1) [unfolded One_nat_def] sha2_reg_Suc(1) sha2_reg_less sha2_reg_inj assms Ch_standard Maj_standard)
qed

lemma sha2_window_word:
  assumes "window (sha2_W s0 s1 M) n w"
  shows "window (sha2_W s0 s1 M) (Suc n) (sha2_word s0 s1 n w) \<and> sha2_word s0 s1 n w ! (n mod 16) = sha2_W s0 s1 M n"
proof (cases "n < 16")
  case True
  then show ?thesis
    using window_first [OF assms] by (simp add: sha2_word_def)
next
  case False
  then have n: "16 \<le> n"
    by simp
  have "sha2_word s0 s1 n w = w[n mod 16 := sha2_W s0 s1 M n]"
    using False window_last [OF assms n, of 0] window_last [OF assms n, of 14] window_last [OF assms n, of 9] window_last [OF assms n, of 1]
    unfolding sha2_word_def sha2_W.simps [of s0 s1 M n] by (simp add: add.commute)
  then show ?thesis
    using window_next [OF assms n] window_length [OF assms] by simp
qed

lemma sha2_lines:
  assumes "length s = 8" "length M = 16"
  shows "case fold (sha2_step S0 S1 s0 s1 K) [0..<n] (s, M) of (r, w) \<Rightarrow>
    length r = 8 \<and> window (sha2_W s0 s1 M) n w \<and>
    sha2_view n r = fold (\<lambda>t. sha2_shift S0 S1 (K ! t + sha2_W s0 s1 M t)) [0..<n] s"
proof (induction n)
  case 0
  have "sha2_view 0 s = s"
    using assms(1) unfolding sha2_view_def sha2_reg_def by (intro nth_equalityI) simp_all
  moreover have "window (sha2_W s0 s1 M) 0 M"
    using assms(2) unfolding window_def by (auto simp: sha2_W.simps)
  ultimately show ?case
    using assms(1) by simp
next
  case (Suc n)
  then show ?case
    by (auto simp: sha2_step_def Let_def sha2_line_view sha2_window_word split: prod.splits)
qed

lemma sha2_transform_standard:
  assumes "length s = 8" "length w = 16" "8 dvd length K"
  shows "sha2_transform S0 S1 s0 s1 K s w = sha2_compress S0 S1 s0 s1 K s w"
proof -
  obtain r w' where r: "fold (sha2_step S0 S1 s0 s1 K) [0..<length K] (s, w) = (r, w')"
    by fastforce
  have "length r = 8" "sha2_view (length K) r = fold (\<lambda>t. sha2_shift S0 S1 (K ! t + sha2_W s0 s1 w t)) [0..<length K] s"
    using sha2_lines [OF assms(1,2), where n = "length K" and K = K and ?S0.0 = S0 and ?S1.0 = S1 and ?s0.0 = s0 and ?s1.0 = s1] unfolding r by auto
  moreover have "sha2_view (length K) r = r" if "length r = 8"
    using that assms(3) unfolding sha2_view_def sha2_reg_def by (intro nth_equalityI) auto
  ultimately show ?thesis
    unfolding sha2_transform_def sha2_compress_def r by simp
qed

lemma length_sha2_transform: "length s = 8 \<Longrightarrow> length w = 16 \<Longrightarrow> length (sha2_transform S0 S1 s0 s1 K s w) = 8"
  unfolding sha2_transform_def
  using sha2_lines [where n = "length K" and s = s and M = w and K = K and ?S0.0 = S0 and ?S1.0 = S1 and ?s0.0 = s0 and ?s1.0 = s1]
  by (simp split: prod.splits)

lemma foldl_sha2:
  assumes "length s = 8" "8 dvd length K" "\<And>c. length (words c) = 16"
  shows "foldl (\<lambda>s c. sha2_transform S0 S1 s0 s1 K s (words c)) s cs = foldl (\<lambda>s c. sha2_compress S0 S1 s0 s1 K s (words c)) s cs"
  using assms(1)
proof (induction cs arbitrary: s)
  case (Cons c cs)
  have "sha2_transform S0 S1 s0 s1 K s (words c) = sha2_compress S0 S1 s0 s1 K s (words c)"
    using Cons.prems assms(2,3) by (intro sha2_transform_standard)
  moreover have "length (sha2_transform S0 S1 s0 s1 K s (words c)) = 8"
    using Cons.prems assms(3) by (rule length_sha2_transform)
  ultimately show ?case
    using Cons.IH by simp
qed simp

subsection \<open>The hashers\<close>

interpretation sha256: block_hasher 64 sha256_block sha256_Initialize
  by unfold_locales simp_all

interpretation sha512: block_hasher 128 sha512_Transform sha512_Initialize
  by unfold_locales simp_all

lemma length_sha2_K: "length sha256_K = 64" "length sha512_K = 80"
  by code_simp+

lemma sha256_spec_blocks:
  "sha256_spec m = concat (map WriteBE32 (foldl sha256_block sha256_Initialize
     (full_blocks 64 (m @ md_pad 64 8 (WriteBE64 (of_nat (8 * length m))) m))))"
proof -
  have "foldl sha256_block sha256_Initialize cs =
    foldl (\<lambda>H chunk. sha2_compress sha256_Sigma0 sha256_Sigma1 sha256_sigma0 sha256_sigma1 sha256_K H
         (map (\<lambda>i. ReadBE32 (drop (4 * i) chunk)) [0..<16])) sha256_Initialize cs" for cs
    unfolding sha256_block_def [abs_def] by (rule foldl_sha2) (simp_all add: sha256_Initialize_def length_sha2_K)
  then show ?thesis
    unfolding sha256_spec_def by (simp only:)
qed

lemma sha256_digest: "sha256.hashed h m \<Longrightarrow> CSHA256_Finalize h = sha256_spec m"
proof -
  assume h: "sha256.hashed h m"
  then have "hs_bytes h = of_nat (length m)"
    unfolding sha256.hashed_def by blast
  then show ?thesis
    unfolding CSHA256_Finalize_def CSHA256_padded_def sha256_spec_blocks sha256.hash_state [OF h] by (simp only: of_nat_bits)
qed

lemma length_sha256_block [simp]: "length s = 8 \<Longrightarrow> length (sha256_block s chunk) = 8"
  unfolding sha256_block_def by (rule length_sha2_transform) simp_all

lemma length_foldl_sha256 [simp]: "length s = 8 \<Longrightarrow> length (foldl sha256_block s cs) = 8"
  by (induction cs arbitrary: s) simp_all

lemma length_sha256_Initialize [simp]: "length sha256_Initialize = 8"
  by (simp add: sha256_Initialize_def)

lemma length_sha256_spec [simp]: "length (sha256_spec m) = 32"
  unfolding sha256_spec_blocks by simp

lemma sha512_spec_blocks:
  "sha512_spec m = concat (map WriteBE64 (foldl sha512_Transform sha512_Initialize
     (full_blocks 128 (m @ md_pad 128 16 (replicate 8 0 @ WriteBE64 (of_nat (8 * length m))) m))))"
proof -
  have "foldl sha512_Transform sha512_Initialize cs =
    foldl (\<lambda>H chunk. sha2_compress sha512_Sigma0 sha512_Sigma1 sha512_sigma0 sha512_sigma1 sha512_K H
         (map (\<lambda>i. ReadBE64 (drop (8 * i) chunk)) [0..<16])) sha512_Initialize cs" for cs
    unfolding sha512_Transform_def [abs_def] by (rule foldl_sha2) (simp_all add: sha512_Initialize_def length_sha2_K)
  then show ?thesis
    unfolding sha512_spec_def by (simp only:)
qed

lemma sha512_digest: "sha512.hashed h m \<Longrightarrow> CSHA512_Finalize h = sha512_spec m"
proof -
  assume h: "sha512.hashed h m"
  then have "hs_bytes h = of_nat (length m)"
    unfolding sha512.hashed_def by blast
  then show ?thesis
    unfolding CSHA512_Finalize_def sha512_spec_blocks sha512.hash_state [OF h] by (simp only: of_nat_bits)
qed

lemma length_sha512_Transform [simp]: "length s = 8 \<Longrightarrow> length (sha512_Transform s chunk) = 8"
  unfolding sha512_Transform_def by (rule length_sha2_transform) simp_all

lemma length_foldl_sha512 [simp]: "length s = 8 \<Longrightarrow> length (foldl sha512_Transform s cs) = 8"
  by (induction cs arbitrary: s) simp_all

lemma length_sha512_spec [simp]: "length (sha512_spec m) = 64"
  unfolding sha512_spec_blocks by (simp add: sha512_Initialize_def)

lemma sha256_init_hashed: "length buf = 64 \<Longrightarrow> sha256.hashed (CSHA256_init buf) []"
  unfolding CSHA256_init_def by (rule sha256.hashed_init)

lemma sha512_init_hashed: "length buf = 128 \<Longrightarrow> sha512.hashed (CSHA512_init buf) []"
  unfolding CSHA512_init_def by (rule sha512.hashed_init)

lemma sha256_reset_hashed: "sha256.hashed h m \<Longrightarrow> sha256.hashed (CSHA256_Reset (CSHA256_padded h)) []"
  using sha256.hashed_pad [of h m] unfolding CSHA256_Reset_def CSHA256_padded_def sha256.hashed_def
  by (auto simp: full_blocks_def)

text \<open>
  C17: however a message is cut into pieces, writing the pieces one after the other and
  finalizing gives the digest of the standard: SHA-256 and SHA-512 of the whole message, with the message
  schedule, the shifting variables and the padding of FIPS 180-4. What the buffer held before does not matter.
\<close>

theorem sha2_streaming:
  assumes "length buf = 64" "length buf' = 128"
  shows "CSHA256_Finalize (fold (\<lambda>d h. CSHA256_Write h d) ds (CSHA256_init buf)) = sha256_spec (concat ds) \<and>
    CSHA512_Finalize (fold (\<lambda>d h. CSHA512_Write h d) ds (CSHA512_init buf')) = sha512_spec (concat ds)"
  using sha256_digest [OF sha256.hashed_writes [OF sha256_init_hashed [OF assms(1)]], of ds]
    sha512_digest [OF sha512.hashed_writes [OF sha512_init_hashed [OF assms(2)]], of ds]
  unfolding CSHA256_Write_def CSHA512_Write_def by simp

theorem sha2_streaming_witness:
  "CSHA256_Finalize (CSHA256_Write (CSHA256_Write (CSHA256_init (replicate 64 7)) (replicate 61 1)) [2, 3, 4, 5]) =
     sha256_spec (replicate 61 1 @ [2, 3, 4, 5])"
  using sha2_streaming [of "replicate 64 7" "replicate 128 7" "[replicate 61 1, [2, 3, 4, 5]]"] by simp

end
