(* ===== verification/Sha256d64.thy ===== *)
theory Sha256d64
  imports Sha2
begin

section \<open>Double SHA-256 of 64-byte blocks (crypto/sha256.cpp)\<close>

text \<open>
  \<open>TransformD64\<close> hashes a block of 64 bytes twice in three transformations with everything constant
  folded away: the second transformation works on the padding of a 64-byte message, so its schedule is a table;
  the third on a 32-byte digest with its padding, so the first lines of its schedule lose their constant
  terms. It is used for the inner nodes of Merkle trees.
\<close>

text \<open>Lines with given last arguments of \<open>Round\<close>, from line \<open>i\<close> on.\<close>

fun sha2_run :: "('w::len word \<Rightarrow> 'w word) \<Rightarrow> ('w word \<Rightarrow> 'w word) \<Rightarrow> nat \<Rightarrow> 'w word list \<Rightarrow> 'w word list \<Rightarrow> 'w word list" where
  "sha2_run S0 S1 i [] r = r"
| "sha2_run S0 S1 i (k # ks) r = sha2_run S0 S1 (i + 1) ks (sha2_line S0 S1 i k r)"

definition d64_second_consts :: "u32 list" where
  "d64_second_consts = [
     0xc28a2f98, 0x71374491, 0xb5c0fbcf, 0xe9b5dba5, 0x3956c25b, 0x59f111f1, 0x923f82a4, 0xab1c5ed5,
     0xd807aa98, 0x12835b01, 0x243185be, 0x550c7dc3, 0x72be5d74, 0x80deb1fe, 0x9bdc06a7, 0xc19bf374,
     0x649b69c1, 0xf0fe4786, 0x0fe1edc6, 0x240cf254, 0x4fe9346f, 0x6cc984be, 0x61b9411e, 0x16f988fa,
     0xf2c65152, 0xa88e5a6d, 0xb019fc65, 0xb9d99ec7, 0x9a1231c3, 0xe70eeaa0, 0xfdb1232b, 0xc7353eb0,
     0x3069bad5, 0xcb976d5f, 0x5a0f118f, 0xdc1eeefd, 0x0a35b689, 0xde0b7a04, 0x58f4ca9d, 0xe15d5b16,
     0x007f3e86, 0x37088980, 0xa507ea32, 0x6fab9537, 0x17406110, 0x0d8cd6f1, 0xcdaa3b6d, 0xc0bbbe37,
     0x83613bda, 0xdb48a363, 0x0b02e931, 0x6fd15ca7, 0x521afaca, 0x31338431, 0x6ed41a95, 0x6d437890,
     0xc39c91f2, 0x9eccabbd, 0xb5c9a0e6, 0x532fb63c, 0xd2c741c6, 0x07237ea3, 0xa4954b68, 0x4c191d76]"

definition d64_third_consts :: "u32 list" where
  "d64_third_consts = [
     0x5807aa98, 0x12835b01, 0x243185be, 0x550c7dc3, 0x72be5d74, 0x80deb1fe, 0x9bdc06a7, 0xc19bf274]"

definition d64_second :: "u32 list \<Rightarrow> u32 list" where
  "d64_second t = map2 (+) t (sha2_run sha256_Sigma0 sha256_Sigma1 0 d64_second_consts t)"

text \<open>The updates of the schedule on lines 16 to 31 of the third transformation, and the usual ones after.\<close>

definition d64_word :: "nat \<Rightarrow> u32 list \<Rightarrow> u32 list" where
  "d64_word i w =
     (if i = 16 then w[0 := w ! 0 + sha256_sigma0 (w ! 1)]
      else if i = 17 then w[1 := w ! 1 + (0xa00000 + sha256_sigma0 (w ! 2))]
      else if i = 18 then w[2 := w ! 2 + (sha256_sigma1 (w ! 0) + sha256_sigma0 (w ! 3))]
      else if i = 19 then w[3 := w ! 3 + (sha256_sigma1 (w ! 1) + sha256_sigma0 (w ! 4))]
      else if i = 20 then w[4 := w ! 4 + (sha256_sigma1 (w ! 2) + sha256_sigma0 (w ! 5))]
      else if i = 21 then w[5 := w ! 5 + (sha256_sigma1 (w ! 3) + sha256_sigma0 (w ! 6))]
      else if i = 22 then w[6 := w ! 6 + (sha256_sigma1 (w ! 4) + 0x100 + sha256_sigma0 (w ! 7))]
      else if i = 23 then w[7 := w ! 7 + (sha256_sigma1 (w ! 5) + w ! 0 + 0x11002000)]
      else if i = 24 then w[8 := 0x80000000 + sha256_sigma1 (w ! 6) + w ! 1]
      else if i = 25 then w[9 := sha256_sigma1 (w ! 7) + w ! 2]
      else if i = 26 then w[10 := sha256_sigma1 (w ! 8) + w ! 3]
      else if i = 27 then w[11 := sha256_sigma1 (w ! 9) + w ! 4]
      else if i = 28 then w[12 := sha256_sigma1 (w ! 10) + w ! 5]
      else if i = 29 then w[13 := sha256_sigma1 (w ! 11) + w ! 6]
      else if i = 30 then w[14 := sha256_sigma1 (w ! 12) + w ! 7 + 0x400022]
      else if i = 31 then w[15 := 0x100 + sha256_sigma1 (w ! 13) + w ! 8 + sha256_sigma0 (w ! 0)]
      else sha2_word sha256_sigma0 sha256_sigma1 i w)"

fun d64_words :: "nat \<Rightarrow> nat \<Rightarrow> u32 list \<Rightarrow> u32 list" where
  "d64_words i 0 w = []"
| "d64_words i (Suc n) w = (let w = d64_word i w in w ! (i mod 16) # d64_words (i + 1) n w)"

text \<open>The upper half of the words is uninitialised at the start, an argument.\<close>

definition d64_third :: "u32 list \<Rightarrow> u32 list \<Rightarrow> u32 list" where
  "d64_third u w =
     map2 (+) sha256_Initialize (sha2_run sha256_Sigma0 sha256_Sigma1 0
       (map2 (+) (take 8 sha256_K) w @ d64_third_consts @ map2 (+) (drop 16 sha256_K) (d64_words 16 48 (w @ u)))
       sha256_Initialize)"

definition TransformD64 :: "u32 list \<Rightarrow> bytes \<Rightarrow> bytes" where
  "TransformD64 u inp = concat (map WriteBE32 (d64_third u (d64_second (sha256_block sha256_Initialize inp))))"

text \<open>
  The same for a given \<open>Transform\<close> (a template argument in the code): the paddings are bytes, and the first digest
  is written into the buffer of the third transformation.
\<close>

definition d64_padding1 :: bytes where
  "d64_padding1 = 0x80 # replicate 61 0 @ [2, 0]"

definition d64_buffer2 :: bytes where
  "d64_buffer2 = replicate 32 0 @ 0x80 # replicate 29 0 @ [1, 0]"

definition TransformD64Wrapper :: "(u32 list \<Rightarrow> bytes \<Rightarrow> nat \<Rightarrow> u32 list) \<Rightarrow> bytes \<Rightarrow> bytes" where
  "TransformD64Wrapper tr inp =
     (let s = tr (tr sha256_Initialize inp 1) d64_padding1 1;
          buffer2 = buf_copy d64_buffer2 0 (concat (map WriteBE32 s))
      in concat (map WriteBE32 (tr sha256_Initialize buffer2 1)))"

text \<open>
  \<open>SHA256D64\<close> takes several blocks at a time where the processor has a transformation for it: \<open>ways\<close> lists
  the widths and functions that were detected, in the order 8, 4, 2.
\<close>

function d64_way_loop :: "nat \<Rightarrow> (bytes \<Rightarrow> bytes) \<Rightarrow> bytes \<Rightarrow> nat \<Rightarrow> bytes \<times> bytes \<times> nat" where
  "d64_way_loop k f inp blocks =
     (if 0 < k \<and> k \<le> blocks then
        (case d64_way_loop k f (drop (64 * k) inp) (blocks - k) of (out, inp', blocks') \<Rightarrow> (f inp @ out, inp', blocks'))
      else ([], inp, blocks))"
  by pat_completeness auto
termination
  by (relation "measure (\<lambda>(k, f, inp, blocks). blocks)") auto

declare d64_way_loop.simps [simp del]

fun d64_ways :: "(nat \<times> (bytes \<Rightarrow> bytes)) list \<Rightarrow> bytes \<Rightarrow> nat \<Rightarrow> bytes \<times> bytes \<times> nat" where
  "d64_ways [] inp blocks = ([], inp, blocks)"
| "d64_ways ((k, f) # ways) inp blocks =
     (case d64_way_loop k f inp blocks of (out, inp, blocks) \<Rightarrow>
        (case d64_ways ways inp blocks of (out', inp, blocks) \<Rightarrow> (out @ out', inp, blocks)))"

definition SHA256D64 :: "(nat \<times> (bytes \<Rightarrow> bytes)) list \<Rightarrow> u32 list \<Rightarrow> bytes \<Rightarrow> nat \<Rightarrow> bytes" where
  "SHA256D64 ways u inp blocks =
     (case d64_ways ways inp blocks of (out, inp, blocks) \<Rightarrow>
        out @ fst (d64_way_loop 1 (TransformD64 u) inp blocks))"

subsection \<open>Lines and their constants\<close>

fun sha2_words :: "('w::len word \<Rightarrow> 'w word) \<Rightarrow> ('w word \<Rightarrow> 'w word) \<Rightarrow> nat \<Rightarrow> nat \<Rightarrow> 'w word list \<Rightarrow> 'w word list" where
  "sha2_words s0 s1 i 0 w = []"
| "sha2_words s0 s1 i (Suc n) w = (let w = sha2_word s0 s1 i w in w ! (i mod 16) # sha2_words s0 s1 (i + 1) n w)"

lemma sha2_step_run:
  "fst (fold (sha2_step S0 S1 s0 s1 K) [i..<i + n] (r, w)) =
     sha2_run S0 S1 i (map2 (+) (map ((!) K) [i..<i + n]) (sha2_words s0 s1 i n w)) r"
proof (induction n arbitrary: i r w)
  case (Suc n)
  have u: "[i..<i + Suc n] = i # [i + 1..<i + 1 + n]"
    by (simp add: upt_conv_Cons del: upt_Suc)
  have "sha2_step S0 S1 s0 s1 K i (r, w) =
      (sha2_line S0 S1 i (K ! i + sha2_word s0 s1 i w ! (i mod 16)) r, sha2_word s0 s1 i w)"
    by (simp add: sha2_step_def Let_def)
  then show ?case
    unfolding u using Suc.IH [of "i + 1"] by (simp add: Let_def del: upt_Suc)
qed simp

lemma sha2_transform_run:
  "sha2_transform S0 S1 s0 s1 K s w = map2 (+) s (sha2_run S0 S1 0 (map2 (+) K (sha2_words s0 s1 0 (length K) w)) s)"
  unfolding sha2_transform_def using sha2_step_run [of S0 S1 s0 s1 K 0 "length K" s w] by (simp add: map_nth)

definition d64_second_pad :: "u32 list" where
  "d64_second_pad = [0x80000000, 0, 0, 0, 0, 0, 0, 0, 0, 0, 0, 0, 0, 0, 0, 0x200]"

definition d64_third_pad :: "u32 list" where
  "d64_third_pad = [0x80000000, 0, 0, 0, 0, 0, 0, 0x100]"

lemma d64_second_consts_eq:
  "map2 (+) sha256_K (sha2_words sha256_sigma0 sha256_sigma1 0 64 d64_second_pad) = d64_second_consts"
  by code_simp

text \<open>
  In the third transformation the words that were not yet overwritten are the padding in the reference and
  uninitialised in the code, which does not read them.
\<close>

definition d64_rel :: "nat \<Rightarrow> u32 list \<Rightarrow> u32 list \<Rightarrow> bool" where
  "d64_rel i w w' \<longleftrightarrow> length w = 16 \<and> length w' = 16 \<and>
     (\<forall>j<16. if j < 8 \<or> j + 16 < i then w ! j = w' ! j else w' ! j = d64_third_pad ! (j - 8))"

lemma less_16_cases:
  "(\<forall>j<16. P j) \<longleftrightarrow> P 0 \<and> P 1 \<and> P 2 \<and> P 3 \<and> P 4 \<and> P 5 \<and> P 6 \<and> P 7 \<and> P 8 \<and> P 9 \<and> P 10 \<and> P 11 \<and> P 12 \<and> P 13 \<and> P 14 \<and> P (15 :: nat)"
  by (simp add: eval_nat_numeral All_less_Suc2 All_less_Suc conj_ac)

lemma sigma_pads:
  "sha256_sigma1 0 = 0" "sha256_sigma0 0 = 0" "sha256_sigma1 0x100 = 0xa00000" "sha256_sigma0 0x80000000 = 0x11002000"
  "sha256_sigma0 0x100 = 0x400022"
  by (simp_all add: sha256_sigma0_def sha256_sigma1_def)

lemmas u32_ac = add.assoc [where ?'a = u32] add.commute [where ?'a = u32] add.left_commute [where ?'a = u32]

lemma d64_word_rel_early:
  "\<forall>k<16. d64_rel (k + 16) w w' \<longrightarrow>
     d64_rel (Suc (k + 16)) (d64_word (k + 16) w) (sha2_word sha256_sigma0 sha256_sigma1 (k + 16) w')"
  unfolding less_16_cases
  by (intro conjI; simp add: d64_rel_def less_16_cases d64_word_def sha2_word_def d64_third_pad_def sigma_pads u32_ac)

lemma d64_word_rel:
  assumes "d64_rel i w w'" "16 \<le> i"
  shows "d64_rel (Suc i) (d64_word i w) (sha2_word sha256_sigma0 sha256_sigma1 i w')"
proof (cases "i < 32")
  case True
  then show ?thesis
    using d64_word_rel_early [of w w', rule_format, of "i - 16"] assms by simp
next
  case False
  then have "w ! j = w' ! j" if "j < 16" for j
    using assms(1) that unfolding d64_rel_def by auto
  then have "w = w'"
    using assms(1) unfolding d64_rel_def by (intro nth_equalityI) auto
  then show ?thesis
    using False assms(1) unfolding d64_rel_def by (auto simp: d64_word_def sha2_word_def)
qed

lemma d64_rel_entry: "d64_rel (Suc i) w w' \<Longrightarrow> 16 \<le> i \<Longrightarrow> w ! (i mod 16) = w' ! (i mod 16)"
proof -
  assume rel: "d64_rel (Suc i) w w'" and i: "16 \<le> i"
  have "i mod 16 < 16" "i mod 16 + 16 < Suc i"
    using i mod_less_eq_dividend [of "i - 16" 16] by (simp_all add: le_mod_geq)
  then show ?thesis
    using rel unfolding d64_rel_def by auto
qed

lemma d64_words_eq:
  "d64_rel i w w' \<Longrightarrow> 16 \<le> i \<Longrightarrow> d64_words i n w = sha2_words sha256_sigma0 sha256_sigma1 i n w'"
proof (induction n arbitrary: i w w')
  case (Suc n)
  note rel = d64_word_rel [OF Suc.prems]
  show ?case
    using Suc.IH [OF rel] d64_rel_entry [OF rel Suc.prems(2)] Suc.prems(2) by (simp add: Let_def)
qed simp

lemma sha2_words_early: "i + n = 16 \<Longrightarrow> length w = 16 \<Longrightarrow> sha2_words s0 s1 i (n + m) w = drop i w @ sha2_words s0 s1 16 m w"
proof (induction n arbitrary: i)
  case (Suc n)
  have "drop i w = w ! i # drop (Suc i) w"
    using Suc.prems by (intro Cons_nth_drop_Suc [symmetric]) simp
  then show ?case
    using Suc.IH [of "Suc i"] Suc.prems by (simp add: sha2_word_def Let_def)
qed simp

lemma d64_third_consts_eq: "map2 (+) (take 8 (drop 8 sha256_K)) d64_third_pad = d64_third_consts"
  by code_simp

lemma map2_three:
  assumes "length xs + length ys \<le> length ks"
  shows "map2 f ks (xs @ ys @ zs) =
    map2 f (take (length xs) ks) xs @ map2 f (take (length ys) (drop (length xs) ks)) ys
      @ map2 f (drop (length xs + length ys) ks) zs"
  using assms by (simp add: zip_append2 add.commute)

lemma d64_third_eq:
  assumes "length w = 8" "length u = 8"
  shows "d64_third u w =
    sha2_transform sha256_Sigma0 sha256_Sigma1 sha256_sigma0 sha256_sigma1 sha256_K sha256_Initialize (w @ d64_third_pad)"
proof -
  have lp: "length d64_third_pad = 8"
    by (simp add: d64_third_pad_def)
  have "d64_rel 16 (w @ u) (w @ d64_third_pad)"
    using assms lp unfolding d64_rel_def by (auto simp: nth_append)
  then have late: "d64_words 16 48 (w @ u) = sha2_words sha256_sigma0 sha256_sigma1 16 48 (w @ d64_third_pad)"
    by (rule d64_words_eq) simp
  have words: "sha2_words sha256_sigma0 sha256_sigma1 0 64 (w @ d64_third_pad) = w @ d64_third_pad @ d64_words 16 48 (w @ u)"
    using sha2_words_early [of 0 16 "w @ d64_third_pad" sha256_sigma0 sha256_sigma1 48] assms lp unfolding late by simp
  have z: "map2 (+) sha256_K (w @ d64_third_pad @ d64_words 16 48 (w @ u)) =
      map2 (+) (take 8 sha256_K) w @ d64_third_consts @ map2 (+) (drop 16 sha256_K) (d64_words 16 48 (w @ u))"
    unfolding d64_third_consts_eq [symmetric]
    using map2_three [of w d64_third_pad sha256_K "(+)"] assms(1) lp length_sha2_K(1) by simp
  show ?thesis
    unfolding sha2_transform_run length_sha2_K(1) words z d64_third_def ..
qed

lemma d64_second_eq:
  "d64_second t = sha2_transform sha256_Sigma0 sha256_Sigma1 sha256_sigma0 sha256_sigma1 sha256_K t d64_second_pad"
  unfolding d64_second_def sha2_transform_run length_sha2_K(1) d64_second_consts_eq ..

subsection \<open>Three transformations are two hashes\<close>

lemma ReadBE32_WriteBE32 [simp]: "ReadBE32 (WriteBE32 x @ rest) = x"
  by (simp add: ReadBE32_def WriteBE32_def read_le_word(2))

lemma ReadBE32_words: "length ws = n \<Longrightarrow> map (\<lambda>i. ReadBE32 (drop (4 * i) (concat (map WriteBE32 ws) @ rest))) [0..<n] = ws"
proof (induction ws arbitrary: n)
  case (Cons w ws)
  then obtain k where k: "n = Suc k" "length ws = k"
    by (cases n) auto
  then show ?case
    using Cons.IH [of k] by (simp add: map_upt_Suc del: upt_Suc)
qed simp

lemma full_blocks_2: "length a = 64 \<Longrightarrow> length b = 64 \<Longrightarrow> full_blocks 64 (a @ b) = [a, b]"
  by (simp add: full_blocks_def numeral_2_eq_2)

lemma full_blocks_1: "length a = 64 \<Longrightarrow> full_blocks 64 a = [a]"
  by (simp add: full_blocks_def)

lemma md_pad_64: "length m = 64 \<Longrightarrow> md_pad 64 8 (WriteBE64 (of_nat (8 * length m))) m = d64_padding1"
  by (simp add: md_pad_def) code_simp

lemma md_pad_32: "length m = 32 \<Longrightarrow> md_pad 64 8 (WriteBE64 (of_nat (8 * length m))) m = drop 32 d64_buffer2"
  by (simp add: md_pad_def) code_simp

lemma four_Suc: "(4 :: nat) = Suc (Suc (Suc (Suc 0)))"
  by simp

lemma WriteBE32_pads:
  "WriteBE32 0 = [0, 0, 0, 0]" "WriteBE32 0x80000000 = [0x80, 0, 0, 0]" "WriteBE32 0x100 = [0, 0, 1, 0]" "WriteBE32 0x200 = [0, 0, 2, 0]"
  unfolding WriteBE32_def four_Suc by simp_all

lemma padding1_words: "d64_padding1 = concat (map WriteBE32 d64_second_pad)"
  unfolding d64_second_pad_def list.map WriteBE32_pads by code_simp

lemma buffer2_words: "drop 32 d64_buffer2 = concat (map WriteBE32 d64_third_pad)"
  unfolding d64_third_pad_def list.map WriteBE32_pads by code_simp

lemma d64_second_block: "d64_second t = sha256_block t d64_padding1"
  using ReadBE32_words [of d64_second_pad 16 "[]"] unfolding d64_second_eq sha256_block_def padding1_words
  by (simp add: d64_second_pad_def del: upt_Suc)

lemma d64_third_block:
  assumes "length w = 8" "length u = 8"
  shows "d64_third u w = sha256_block sha256_Initialize (concat (map WriteBE32 w) @ drop 32 d64_buffer2)"
proof -
  have "map (\<lambda>i. ReadBE32 (drop (4 * i) (concat (map WriteBE32 w) @ drop 32 d64_buffer2))) [0..<16] = w @ d64_third_pad"
    using ReadBE32_words [of "w @ d64_third_pad" 16 "[]"] assms(1) unfolding buffer2_words
    by (simp add: d64_third_pad_def del: upt_Suc)
  then show ?thesis
    unfolding d64_third_eq [OF assms] sha256_block_def by (simp only:)
qed

lemma sha256_spec_64:
  "length inp = 64 \<Longrightarrow> sha256_spec inp = concat (map WriteBE32 (sha256_block (sha256_block sha256_Initialize inp) d64_padding1))"
  unfolding sha256_spec_blocks md_pad_64 by (subst full_blocks_2) (simp_all add: d64_padding1_def)

lemma sha256_spec_32:
  assumes "length d = 32"
  shows "sha256_spec d = concat (map WriteBE32 (sha256_block sha256_Initialize (d @ drop 32 d64_buffer2)))"
  unfolding sha256_spec_blocks md_pad_32 [OF assms] by (subst full_blocks_1) (simp_all add: assms d64_buffer2_def)

lemma TransformD64_eq: "length u = 8 \<Longrightarrow> length inp = 64 \<Longrightarrow> TransformD64 u inp = sha256_spec (sha256_spec inp)"
  unfolding TransformD64_def by (simp add: d64_third_block d64_second_block sha256_spec_32 sha256_spec_64)

lemma sha256_block_take: "sha256_block s (take 64 c) = sha256_block s c"
proof -
  have "ReadBE32 (drop (4 * i) (take 64 c)) = ReadBE32 (drop (4 * i) c)" if "i < 16" for i
    using that by (simp add: ReadBE32_def drop_take min_def)
  then have "map (\<lambda>i. ReadBE32 (drop (4 * i) (take 64 c))) [0..<16] = map (\<lambda>i. ReadBE32 (drop (4 * i) c)) [0..<16]"
    by (intro map_cong refl) simp
  then show ?thesis
    unfolding sha256_block_def by (simp only:)
qed

lemma TransformD64_take: "TransformD64 u (take 64 inp) = TransformD64 u inp"
  unfolding TransformD64_def sha256_block_take ..

lemma TransformD64_first:
  "length u = 8 \<Longrightarrow> 64 \<le> length inp \<Longrightarrow> TransformD64 u inp = sha256_spec (sha256_spec (take 64 inp))"
  using TransformD64_eq [of u "take 64 inp"] unfolding TransformD64_take by simp

lemma TransformD64Wrapper_eq: "length inp = 64 \<Longrightarrow> TransformD64Wrapper sha256_Transform inp = sha256_spec (sha256_spec inp)"
  unfolding TransformD64Wrapper_def sha256_Transform_def
  by (simp add: buf_copy_def sha256_block_take sha256_spec_32 sha256_spec_64 Let_def d64_buffer2_def)

definition d64_part :: "bytes \<Rightarrow> nat \<Rightarrow> bytes \<times> bytes \<times> nat \<Rightarrow> bool" where
  "d64_part inp blocks r \<longleftrightarrow> (case r of (out, inp', blocks') \<Rightarrow>
     (\<exists>n. blocks = n + blocks' \<and> inp' = drop (64 * n) inp \<and>
       out = concat (map (\<lambda>c. sha256_spec (sha256_spec c)) (blocks_of 64 n inp))))"

definition d64_way :: "nat \<times> (bytes \<Rightarrow> bytes) \<Rightarrow> bool" where
  "d64_way w \<longleftrightarrow> (case w of (k, f) \<Rightarrow>
     (\<forall>inp. 64 * k \<le> length inp \<longrightarrow> f inp = concat (map (\<lambda>c. sha256_spec (sha256_spec c)) (blocks_of 64 k inp))))"

lemma d64_part_none: "d64_part inp blocks ([], inp, blocks)"
  unfolding d64_part_def by simp

lemma d64_part_trans:
  "d64_part inp blocks (out, inp', blocks') \<Longrightarrow> d64_part inp' blocks' (out', inp'', blocks'') \<Longrightarrow>
    d64_part inp blocks (out @ out', inp'', blocks'')"
  unfolding d64_part_def by (auto simp: blocks_of_add algebra_simps)

lemma d64_part_length: "d64_part inp blocks (out, inp', blocks') \<Longrightarrow> 64 * blocks \<le> length inp \<Longrightarrow> 64 * blocks' \<le> length inp'"
  unfolding d64_part_def by auto

lemma d64_way_loop_part:
  assumes "d64_way (k, f)" "64 * blocks \<le> length inp"
  shows "d64_part inp blocks (d64_way_loop k f inp blocks)"
  using assms
proof (induction k f inp blocks rule: d64_way_loop.induct)
  case (1 k f inp blocks)
  show ?case
  proof (cases "0 < k \<and> k \<le> blocks")
    case True
    obtain out inp' blocks' where r: "d64_way_loop k f (drop (64 * k) inp) (blocks - k) = (out, inp', blocks')"
      by (metis prod_cases3)
    have "d64_part inp blocks (f inp, drop (64 * k) inp, blocks - k)"
      using True "1.prems" unfolding d64_part_def d64_way_def by (auto intro!: exI [of _ k])
    moreover have "d64_part (drop (64 * k) inp) (blocks - k) (out, inp', blocks')"
      using "1.IH" [OF True] "1.prems" True unfolding r by simp
    ultimately show ?thesis
      using d64_part_trans True r by (subst d64_way_loop.simps) simp
  next
    case False
    then show ?thesis
      by (subst d64_way_loop.simps) (auto simp: d64_part_none)
  qed
qed

lemma d64_ways_part:
  "list_all d64_way ways \<Longrightarrow> 64 * blocks \<le> length inp \<Longrightarrow> d64_part inp blocks (d64_ways ways inp blocks)"
proof (induction ways arbitrary: inp blocks)
  case Nil
  then show ?case
    by (simp add: d64_part_none)
next
  case (Cons w ways)
  obtain k f where w: "w = (k, f)"
    by fastforce
  obtain out inp' blocks' where l: "d64_way_loop k f inp blocks = (out, inp', blocks')"
    by (metis prod_cases3)
  obtain out' inp'' blocks'' where r: "d64_ways ways inp' blocks' = (out', inp'', blocks'')"
    by (metis prod_cases3)
  have 1: "d64_part inp blocks (out, inp', blocks')"
    using d64_way_loop_part [of k f blocks inp] Cons.prems l w by simp
  have "d64_part inp' blocks' (out', inp'', blocks'')"
    using Cons.IH [of blocks' inp'] d64_part_length [OF 1] Cons.prems r by simp
  then show ?case
    using d64_part_trans [OF 1] by (simp add: w l r)
qed

lemma d64_one_way: "length u = 8 \<Longrightarrow> d64_way (1, TransformD64 u)"
  unfolding d64_way_def by (simp add: TransformD64_first)

lemma d64_one_way_end: "snd (snd (d64_way_loop 1 f inp blocks)) = 0"
proof (induction blocks arbitrary: inp)
  case 0
  show ?case
    by (subst d64_way_loop.simps) simp
next
  case (Suc blocks)
  then show ?case
    using Suc.IH [of "drop 64 inp"] by (subst d64_way_loop.simps) (simp add: split_beta)
qed

lemma SHA256D64_blocks:
  assumes "length u = 8" "list_all d64_way ways" "length inp = 64 * blocks"
  shows "SHA256D64 ways u inp blocks = concat (map (\<lambda>c. sha256_spec (sha256_spec c)) (full_blocks 64 inp))"
proof -
  obtain out inp' blocks' where r: "d64_ways ways inp blocks = (out, inp', blocks')"
    by (metis prod_cases3)
  obtain out' inp'' blocks'' where l: "d64_way_loop 1 (TransformD64 u) inp' blocks' = (out', inp'', blocks'')"
    by (metis prod_cases3)
  have 1: "d64_part inp blocks (out, inp', blocks')"
    using d64_ways_part [OF assms(2), of blocks inp] assms(3) r by simp
  have "d64_part inp' blocks' (out', inp'', blocks'')"
    using d64_way_loop_part [OF d64_one_way [OF assms(1)], of blocks' inp'] d64_part_length [OF 1] assms(3) l by simp
  from d64_part_trans [OF 1 this] d64_one_way_end [of "TransformD64 u" inp' blocks'] l
  have "out @ out' = concat (map (\<lambda>c. sha256_spec (sha256_spec c)) (blocks_of 64 blocks inp))"
    unfolding d64_part_def by auto
  then show ?thesis
    using assms by (simp add: SHA256D64_def r l [simplified] full_blocks_def)
qed

text \<open>
  C5: the folded constants and the widths of \<open>SHA256D64\<close> change nothing: for an input of
  whole 64-byte blocks, its output is, block by block, SHA-256 of SHA-256 of the block. This holds for any
  detected multi-block transformations that hash their blocks that way, whatever the uninitialised upper half of
  the words holds; the variant for a given \<open>Transform\<close> agrees with the folded one.
\<close>

theorem SHA256D64_double:
  assumes "length u = 8" "list_all d64_way ways" "length inp = 64 * blocks"
  shows "SHA256D64 ways u inp blocks = concat (map (\<lambda>c. sha256_spec (sha256_spec c)) (full_blocks 64 inp)) \<and>
    (blocks = 1 \<longrightarrow> TransformD64Wrapper sha256_Transform inp = TransformD64 u inp)"
  using SHA256D64_blocks [OF assms] assms by (simp add: TransformD64_eq TransformD64Wrapper_eq)

theorem SHA256D64_double_witness:
  "SHA256D64 [(2, \<lambda>c. TransformD64Wrapper sha256_Transform (take 64 c) @ TransformD64 (replicate 8 1) (drop 64 c))]
     (replicate 8 7) (replicate 192 5) 3 =
   concat (map (\<lambda>c. sha256_spec (sha256_spec c)) (full_blocks 64 (replicate 192 5)))"
  by (rule SHA256D64_double [THEN conjunct1])
    (simp_all add: d64_way_def numeral_2_eq_2 TransformD64Wrapper_eq TransformD64_first)

end
