(* ===== verification/Sha1.thy ===== *)
theory Sha1
  imports Hasher
begin

section \<open>SHA-1 (crypto/sha1.cpp)\<close>

text \<open>
  \<open>Transform\<close> is unrolled: eighty lines call \<open>Round\<close> on the five variables, rotated by one place from each line to
  the next, and update one of sixteen words. The model keeps the lines in that form and the theory shows that they
  compute the compression function of FIPS 180-4, with its shifting variables and its schedule of eighty words.
\<close>

unbundle bit_operations_syntax

subsection \<open>Five variables in rotation\<close>

text \<open>The variable in place \<open>j\<close> of the arguments of \<open>Round\<close> on line \<open>i\<close>.\<close>

definition reg5 :: "nat \<Rightarrow> nat \<Rightarrow> nat" where
  "reg5 i j = (j + 5 - i mod 5) mod 5"

definition view5 :: "nat \<Rightarrow> 'w list \<Rightarrow> 'w list" where
  "view5 i r = map (\<lambda>j. r ! reg5 i j) [0..<5]"

lemma reg5_if: "j < 5 \<Longrightarrow> reg5 i j = (if j < i mod 5 then j + 5 - i mod 5 else j - i mod 5)"
proof -
  assume "j < 5"
  have "i mod 5 < 5"
    by simp
  with \<open>j < 5\<close> show ?thesis
    unfolding reg5_def by (auto simp: le_mod_geq)
qed

lemma reg5_Suc: "reg5 (Suc i) 0 = reg5 i 4" "j < 4 \<Longrightarrow> reg5 (Suc i) (Suc j) = reg5 i j"
proof -
  define m where "m = i mod 5"
  have i: "m < 5" "Suc i mod 5 = (if m = 4 then 0 else Suc m)" "i mod 5 = m"
    unfolding m_def by (simp_all add: mod_Suc)
  show "reg5 (Suc i) 0 = reg5 i 4"
    using i(1) by (simp add: reg5_if i(2,3))
  show "reg5 (Suc i) (Suc j) = reg5 i j" if "j < 4"
    using i(1) that by (auto simp: reg5_if i(2,3))
qed

lemma reg5_less: "reg5 i j < 5"
  unfolding reg5_def by simp

lemma reg5_inj: "j < 5 \<Longrightarrow> k < 5 \<Longrightarrow> reg5 i j = reg5 i k \<longleftrightarrow> j = k"
  using mod_less_divisor [of 5 i] by (auto simp: reg5_if)

lemma reg5_next:
  "reg5 (Suc i) 1 = reg5 i 0" "reg5 (Suc i) (Suc 0) = reg5 i 0" "reg5 (Suc i) 2 = reg5 i 1" "reg5 (Suc i) 3 = reg5 i 2" "reg5 (Suc i) 4 = reg5 i 3"
  using reg5_Suc(2) [of _ i] by (simp_all add: eval_nat_numeral)

lemma upt_5: "[0..<5] = [0, 1, 2, 3, 4 :: nat]"
  by (simp add: upt_rec)

lemma view5_id: "length r = 5 \<Longrightarrow> 5 dvd i \<Longrightarrow> view5 i r = r"
  unfolding view5_def reg5_def by (intro nth_equalityI) auto

lemmas view5_simps = view5_def upt_5 reg5_next reg5_Suc(1) reg5_less reg5_inj

subsection \<open>The transformation\<close>

definition sha1_f1 :: "u32 \<Rightarrow> u32 \<Rightarrow> u32 \<Rightarrow> u32" where
  "sha1_f1 b c d = d XOR (b AND (c XOR d))"

definition sha1_f2 :: "u32 \<Rightarrow> u32 \<Rightarrow> u32 \<Rightarrow> u32" where
  "sha1_f2 b c d = b XOR c XOR d"

definition sha1_f3 :: "u32 \<Rightarrow> u32 \<Rightarrow> u32 \<Rightarrow> u32" where
  "sha1_f3 b c d = (b AND c) OR (d AND (b OR c))"

definition sha1_left :: "u32 \<Rightarrow> u32" where
  "sha1_left x = push_bit 1 x OR drop_bit 31 x"

definition sha1_Initialize :: "u32 list" where
  "sha1_Initialize = [0x67452301, 0xEFCDAB89, 0x98BADCFE, 0x10325476, 0xC3D2E1F0]"

text \<open>\<open>Round\<close> returns the new values of its reference arguments \<open>b\<close> and \<open>e\<close>.\<close>

definition sha1_Round :: "u32 \<Rightarrow> u32 \<Rightarrow> u32 \<Rightarrow> u32 \<Rightarrow> u32 \<Rightarrow> u32 \<Rightarrow> u32 \<times> u32" where
  "sha1_Round a b e f k w =
     (push_bit 30 b OR drop_bit 2 b, e + ((push_bit 5 a OR drop_bit 27 a) + f + k + w))"

text \<open>The function and the constant that line \<open>i\<close> names.\<close>

definition sha1_fk :: "nat \<Rightarrow> (u32 \<Rightarrow> u32 \<Rightarrow> u32 \<Rightarrow> u32) \<times> u32" where
  "sha1_fk i =
     (if i < 20 then (sha1_f1, 0x5A827999)
      else if i < 40 then (sha1_f2, 0x6ED9EBA1)
      else if i < 60 then (sha1_f3, 0x8F1BBCDC)
      else (sha1_f2, 0xCA62C1D6))"

definition sha1_line :: "nat \<Rightarrow> u32 \<Rightarrow> u32 list \<Rightarrow> u32 list" where
  "sha1_line i w r =
     (case sha1_fk i of (f, k) \<Rightarrow>
        (case sha1_Round (r ! reg5 i 0) (r ! reg5 i 1) (r ! reg5 i 4)
            (f (r ! reg5 i 1) (r ! reg5 i 2) (r ! reg5 i 3)) k w of
           (b, e) \<Rightarrow> r[reg5 i 1 := b, reg5 i 4 := e]))"

text \<open>The word of a line. The last three lines use theirs without storing it, after which it is not read again.\<close>

definition sha1_word :: "nat \<Rightarrow> u32 list \<Rightarrow> u32 list" where
  "sha1_word i w =
     (if i < 16 then w
      else w[i mod 16 := sha1_left (w ! (i mod 16) XOR w ! ((i + 13) mod 16) XOR w ! ((i + 8) mod 16) XOR w ! ((i + 2) mod 16))])"

definition sha1_step :: "nat \<Rightarrow> u32 list \<times> u32 list \<Rightarrow> u32 list \<times> u32 list" where
  "sha1_step i = (\<lambda>(r, w). let w = sha1_word i w in (sha1_line i (w ! (i mod 16)) r, w))"

definition sha1_Transform :: "u32 list \<Rightarrow> bytes \<Rightarrow> u32 list" where
  "sha1_Transform s chunk =
     map2 (+) s (fst (fold sha1_step [0..<80] (s, map (\<lambda>i. ReadBE32 (drop (4 * i) chunk)) [0..<16])))"

subsection \<open>The hasher\<close>

type_synonym CSHA1 = "u32 list hasher"

definition CSHA1_init :: "bytes \<Rightarrow> CSHA1" where
  "CSHA1_init buf = \<lparr>hs_s = sha1_Initialize, hs_buf = buf, hs_bytes = 0\<rparr>"

definition CSHA1_Write :: "CSHA1 \<Rightarrow> bytes \<Rightarrow> CSHA1" where
  "CSHA1_Write = hasher_Write 64 sha1_Transform"

definition CSHA1_Finalize :: "CSHA1 \<Rightarrow> bytes" where
  "CSHA1_Finalize h =
     concat (map WriteBE32 (hs_s (hasher_pad 64 8 sha1_Transform h (WriteBE64 (push_bit 3 (hs_bytes h))))))"

definition CSHA1_Reset :: "CSHA1 \<Rightarrow> CSHA1" where
  "CSHA1_Reset h = h\<lparr>hs_bytes := 0, hs_s := sha1_Initialize\<rparr>"

subsection \<open>The standard\<close>

function sha1_W :: "u32 list \<Rightarrow> nat \<Rightarrow> u32" where
  "sha1_W M t =
     (if t < 16 then M ! t
      else word_rotl 1 (sha1_W M (t - 3) XOR sha1_W M (t - 8) XOR sha1_W M (t - 14) XOR sha1_W M (t - 16)))"
  by pat_completeness auto
termination
  by (relation "measure (\<lambda>(M, t). t)") auto

declare sha1_W.simps [simp del]

definition sha1_shift :: "nat \<Rightarrow> u32 \<Rightarrow> u32 list \<Rightarrow> u32 list" where
  "sha1_shift t w v =
     (let a = v ! 0; b = v ! 1; c = v ! 2; d = v ! 3; e = v ! 4;
          fk = (if t < 20 then ((b AND c) XOR (NOT b AND d)) + 0x5A827999
                else if t < 40 then (b XOR c XOR d) + 0x6ED9EBA1
                else if t < 60 then ((b AND c) XOR (b AND d) XOR (c AND d)) + 0x8F1BBCDC
                else (b XOR c XOR d) + 0xCA62C1D6)
      in [word_rotl 5 a + fk + e + w, a, word_rotl 30 b, c, d])"

definition sha1_compress :: "u32 list \<Rightarrow> u32 list \<Rightarrow> u32 list" where
  "sha1_compress H M = map2 (+) H (fold (\<lambda>t. sha1_shift t (sha1_W M t)) [0..<80] H)"

definition sha1_spec :: "bytes \<Rightarrow> bytes" where
  "sha1_spec m =
     concat (map WriteBE32 (foldl (\<lambda>H chunk. sha1_compress H (map (\<lambda>i. ReadBE32 (drop (4 * i) chunk)) [0..<16]))
       sha1_Initialize (full_blocks 64 (m @ md_pad 64 8 (WriteBE64 (of_nat (8 * length m))) m))))"

lemma rotl_shifts: "0 < n \<Longrightarrow> n < 32 \<Longrightarrow> push_bit n x OR drop_bit (32 - n) x = word_rotl n (x :: u32)"
  by (rule bit_word_eqI)
    (auto simp: bit_simps bit_word_rotl_iff mod_if not_less add.commute [of 32] dest: bit_imp_le_length)

lemma sha1_choose: "sha1_f1 b c d = (b AND c) XOR (NOT b AND d)"
  unfolding sha1_f1_def by (rule bit_word_eqI) (auto simp: bit_simps)

lemma sha1_majority: "sha1_f3 b c d = (b AND c) XOR (b AND d) XOR (c AND d)"
  unfolding sha1_f3_def by (rule bit_word_eqI) (auto simp: bit_simps)

lemma length_sha1_line [simp]: "length (sha1_line i w r) = length r"
  unfolding sha1_line_def by (simp split: prod.split)

lemma sha1_line_view:
  assumes "length r = 5"
  shows "view5 (Suc i) (sha1_line i w r) = sha1_shift i w (view5 i r)"
  using rotl_shifts [of 5 "r ! reg5 i 0"] rotl_shifts [of 30 "r ! reg5 i 1"]
  unfolding sha1_line_def sha1_Round_def sha1_shift_def Let_def
  by (simp add: view5_simps assms sha1_choose sha1_majority sha1_fk_def sha1_f2_def)

lemma sha1_window_word:
  assumes "window (sha1_W M) n w"
  shows "window (sha1_W M) (Suc n) (sha1_word n w) \<and> sha1_word n w ! (n mod 16) = sha1_W M n"
proof (cases "n < 16")
  case True
  then show ?thesis
    using window_first [OF assms] by (simp add: sha1_word_def)
next
  case False
  then have n: "16 \<le> n"
    by simp
  have "sha1_word n w = w[n mod 16 := sha1_W M n]"
    using False window_last [OF assms n, of 0] window_last [OF assms n, of 13] window_last [OF assms n, of 8] window_last [OF assms n, of 2]
      rotl_shifts [of 1 "sha1_W M (n - 3) XOR sha1_W M (n - 8) XOR sha1_W M (n - 14) XOR sha1_W M (n - 16)"]
    unfolding sha1_word_def sha1_left_def sha1_W.simps [of M n] by (simp add: xor.commute xor.left_commute)
  then show ?thesis
    using window_next [OF assms n] window_length [OF assms] by simp
qed

lemma sha1_lines:
  assumes "length s = 5" "length M = 16"
  shows "case fold sha1_step [0..<n] (s, M) of (r, w) \<Rightarrow>
    length r = 5 \<and> window (sha1_W M) n w \<and> view5 n r = fold (\<lambda>t. sha1_shift t (sha1_W M t)) [0..<n] s"
proof (induction n)
  case 0
  have "window (sha1_W M) 0 M"
    using assms(2) unfolding window_def by (auto simp: sha1_W.simps)
  then show ?case
    using assms(1) by (simp add: view5_id)
next
  case (Suc n)
  then show ?case
    by (auto simp: sha1_step_def Let_def sha1_line_view sha1_window_word split: prod.splits)
qed

lemma sha1_Transform_standard:
  assumes "length s = 5"
  shows "sha1_Transform s chunk = sha1_compress s (map (\<lambda>i. ReadBE32 (drop (4 * i) chunk)) [0..<16])"
    and "length (sha1_Transform s chunk) = 5"
proof -
  let ?M = "map (\<lambda>i. ReadBE32 (drop (4 * i) chunk)) [0..<16]"
  obtain r w where r: "fold sha1_step [0..<80] (s, ?M) = (r, w)"
    by fastforce
  have l: "length r = 5" and v: "view5 80 r = fold (\<lambda>t. sha1_shift t (sha1_W ?M t)) [0..<80] s"
    using sha1_lines [OF assms, of ?M 80] unfolding r by simp_all
  show "sha1_Transform s chunk = sha1_compress s ?M" "length (sha1_Transform s chunk) = 5"
    using v l assms unfolding sha1_Transform_def sha1_compress_def r by (simp_all add: view5_id)
qed

lemma foldl_sha1:
  "length s = 5 \<Longrightarrow> foldl sha1_Transform s cs =
    foldl (\<lambda>H chunk. sha1_compress H (map (\<lambda>i. ReadBE32 (drop (4 * i) chunk)) [0..<16])) s cs"
proof (induction cs arbitrary: s)
  case (Cons c cs)
  then show ?case
    using Cons.IH [OF sha1_Transform_standard(2) [OF Cons.prems, of c]]
    by (simp only: foldl_Cons sha1_Transform_standard(1) [OF Cons.prems])
qed simp

interpretation sha1: block_hasher 64 sha1_Transform sha1_Initialize
  by unfold_locales simp_all

lemma sha1_digest: "sha1.hashed h m \<Longrightarrow> CSHA1_Finalize h = sha1_spec m"
proof -
  assume h: "sha1.hashed h m"
  then have "hs_bytes h = of_nat (length m)"
    unfolding sha1.hashed_def by blast
  moreover have "length sha1_Initialize = 5"
    by (simp add: sha1_Initialize_def)
  ultimately show ?thesis
    unfolding CSHA1_Finalize_def sha1_spec_def sha1.hash_state [OF h] by (simp only: of_nat_bits foldl_sha1)
qed

lemma sha1_init_hashed: "length buf = 64 \<Longrightarrow> sha1.hashed (CSHA1_init buf) []"
  unfolding CSHA1_init_def by (rule sha1.hashed_init)

end
