(* ===== verification/Ripemd160.thy ===== *)
theory Ripemd160
  imports Sha1
begin

section \<open>RIPEMD-160 (crypto/ripemd160.cpp)\<close>

text \<open>
  \<open>Transform\<close> runs two lines of computation side by side, eighty rounds each, on two copies of the five state
  variables, and combines them at the end. Each round of the source names its function and constant (\<open>R11\<close> to
  \<open>R52\<close>), a word and a rotation; the model takes the words and rotations as a list of pairs in the order of the
  calls. The theory shows that the interleaved, rotated calls compute the two independent lines of the algorithm's
  description, with their shifting variables.
\<close>

unbundle bit_operations_syntax

definition rmd_f1 :: "u32 \<Rightarrow> u32 \<Rightarrow> u32 \<Rightarrow> u32" where
  "rmd_f1 x y z = x XOR y XOR z"

definition rmd_f2 :: "u32 \<Rightarrow> u32 \<Rightarrow> u32 \<Rightarrow> u32" where
  "rmd_f2 x y z = (x AND y) OR (NOT x AND z)"

definition rmd_f3 :: "u32 \<Rightarrow> u32 \<Rightarrow> u32 \<Rightarrow> u32" where
  "rmd_f3 x y z = (x OR NOT y) XOR z"

definition rmd_f4 :: "u32 \<Rightarrow> u32 \<Rightarrow> u32 \<Rightarrow> u32" where
  "rmd_f4 x y z = (x AND z) OR (y AND NOT z)"

definition rmd_f5 :: "u32 \<Rightarrow> u32 \<Rightarrow> u32 \<Rightarrow> u32" where
  "rmd_f5 x y z = x XOR (y OR NOT z)"

definition rmd_Initialize :: "u32 list" where
  "rmd_Initialize = [0x67452301, 0xEFCDAB89, 0x98BADCFE, 0x10325476, 0xC3D2E1F0]"

definition rmd_rol :: "u32 \<Rightarrow> nat \<Rightarrow> u32" where
  "rmd_rol x i = push_bit i x OR drop_bit (32 - i) x"

text \<open>\<open>Round\<close> returns the new values of its reference arguments \<open>a\<close> and \<open>c\<close>.\<close>

definition rmd_Round :: "u32 \<Rightarrow> u32 \<Rightarrow> u32 \<Rightarrow> u32 \<Rightarrow> u32 \<Rightarrow> u32 \<Rightarrow> nat \<Rightarrow> u32 \<times> u32" where
  "rmd_Round a c e f x k r = (rmd_rol (a + f + x + k) r + e, rmd_rol c 10)"

text \<open>The functions and constants of \<open>R11\<close>, \<open>R21\<close>, \dots, \<open>R51\<close> and of \<open>R12\<close>, \<open>R22\<close>, \dots, \<open>R52\<close>.\<close>

definition rmd_R1 :: "((u32 \<Rightarrow> u32 \<Rightarrow> u32 \<Rightarrow> u32) \<times> u32) list" where
  "rmd_R1 = [(rmd_f1, 0), (rmd_f2, 0x5A827999), (rmd_f3, 0x6ED9EBA1), (rmd_f4, 0x8F1BBCDC), (rmd_f5, 0xA953FD4E)]"

definition rmd_R2 :: "((u32 \<Rightarrow> u32 \<Rightarrow> u32 \<Rightarrow> u32) \<times> u32) list" where
  "rmd_R2 = [(rmd_f5, 0x50A28BE6), (rmd_f4, 0x5C4DD124), (rmd_f3, 0x6D703EF3), (rmd_f2, 0x7A6D76E9), (rmd_f1, 0)]"

text \<open>The word and the rotation of each call, the calls on \<open>a1, \<dots>, e1\<close> and those on \<open>a2, \<dots>, e2\<close>.\<close>

definition rmd_calls1 :: "(nat \<times> nat) list" where
  "rmd_calls1 = [
     (0, 11), (1, 14), (2, 15), (3, 12), (4, 5), (5, 8), (6, 7), (7, 9),
     (8, 11), (9, 13), (10, 14), (11, 15), (12, 6), (13, 7), (14, 9), (15, 8),
     (7, 7), (4, 6), (13, 8), (1, 13), (10, 11), (6, 9), (15, 7), (3, 15),
     (12, 7), (0, 12), (9, 15), (5, 9), (2, 11), (14, 7), (11, 13), (8, 12),
     (3, 11), (10, 13), (14, 6), (4, 7), (9, 14), (15, 9), (8, 13), (1, 15),
     (2, 14), (7, 8), (0, 13), (6, 6), (13, 5), (11, 12), (5, 7), (12, 5),
     (1, 11), (9, 12), (11, 14), (10, 15), (0, 14), (8, 15), (12, 9), (4, 8),
     (13, 9), (3, 14), (7, 5), (15, 6), (14, 8), (5, 6), (6, 5), (2, 12),
     (4, 9), (0, 15), (5, 5), (9, 11), (7, 6), (12, 8), (2, 13), (10, 12),
     (14, 5), (1, 12), (3, 13), (8, 14), (11, 11), (6, 8), (15, 5), (13, 6)]"

definition rmd_calls2 :: "(nat \<times> nat) list" where
  "rmd_calls2 = [
     (5, 8), (14, 9), (7, 9), (0, 11), (9, 13), (2, 15), (11, 15), (4, 5),
     (13, 7), (6, 7), (15, 8), (8, 11), (1, 14), (10, 14), (3, 12), (12, 6),
     (6, 9), (11, 13), (3, 15), (7, 7), (0, 12), (13, 8), (5, 9), (10, 11),
     (14, 7), (15, 7), (8, 12), (12, 7), (4, 6), (9, 15), (1, 13), (2, 11),
     (15, 9), (5, 7), (1, 15), (3, 11), (7, 8), (14, 6), (6, 6), (9, 14),
     (11, 12), (8, 13), (12, 5), (2, 14), (10, 13), (0, 13), (4, 7), (13, 5),
     (8, 15), (6, 5), (4, 8), (1, 11), (3, 14), (11, 14), (15, 6), (0, 14),
     (5, 6), (12, 9), (2, 12), (13, 9), (9, 12), (7, 5), (10, 15), (14, 8),
     (12, 8), (15, 5), (10, 12), (4, 9), (1, 12), (5, 5), (8, 14), (7, 6),
     (6, 8), (2, 13), (13, 6), (14, 5), (0, 15), (3, 13), (9, 11), (11, 11)]"

text \<open>Call number \<open>i\<close> of one of the two lines.\<close>

definition rmd_call :: "((u32 \<Rightarrow> u32 \<Rightarrow> u32 \<Rightarrow> u32) \<times> u32) list \<Rightarrow> (nat \<times> nat) list \<Rightarrow> u32 list \<Rightarrow> nat \<Rightarrow> u32 list \<Rightarrow> u32 list" where
  "rmd_call R calls w i v =
     (case R ! (i div 16) of (f, k) \<Rightarrow>
        (case calls ! i of (x, r) \<Rightarrow>
           (case rmd_Round (v ! reg5 i 0) (v ! reg5 i 2) (v ! reg5 i 4)
               (f (v ! reg5 i 1) (v ! reg5 i 2) (v ! reg5 i 3)) (w ! x) k r of
              (a, c) \<Rightarrow> v[reg5 i 0 := a, reg5 i 2 := c])))"

definition rmd_calls :: "u32 list \<Rightarrow> nat \<Rightarrow> u32 list \<times> u32 list \<Rightarrow> u32 list \<times> u32 list" where
  "rmd_calls w i = (\<lambda>(v1, v2). (rmd_call rmd_R1 rmd_calls1 w i v1, rmd_call rmd_R2 rmd_calls2 w i v2))"

definition rmd_Transform :: "u32 list \<Rightarrow> bytes \<Rightarrow> u32 list" where
  "rmd_Transform s chunk =
     (let w = map (\<lambda>i. ReadLE32 (drop (4 * i) chunk)) [0..<16]
      in case fold (rmd_calls w) [0..<80] (s, s) of (v1, v2) \<Rightarrow>
           [s ! 1 + v1 ! 2 + v2 ! 3, s ! 2 + v1 ! 3 + v2 ! 4, s ! 3 + v1 ! 4 + v2 ! 0, s ! 4 + v1 ! 0 + v2 ! 1, s ! 0 + v1 ! 1 + v2 ! 2])"

type_synonym CRIPEMD160 = "u32 list hasher"

definition CRIPEMD160_init :: "bytes \<Rightarrow> CRIPEMD160" where
  "CRIPEMD160_init buf = \<lparr>hs_s = rmd_Initialize, hs_buf = buf, hs_bytes = 0\<rparr>"

definition CRIPEMD160_Write :: "CRIPEMD160 \<Rightarrow> bytes \<Rightarrow> CRIPEMD160" where
  "CRIPEMD160_Write = hasher_Write 64 rmd_Transform"

definition CRIPEMD160_Finalize :: "CRIPEMD160 \<Rightarrow> bytes" where
  "CRIPEMD160_Finalize h =
     concat (map WriteLE32 (hs_s (hasher_pad 64 8 rmd_Transform h (WriteLE64 (push_bit 3 (hs_bytes h))))))"

definition CRIPEMD160_Reset :: "CRIPEMD160 \<Rightarrow> CRIPEMD160" where
  "CRIPEMD160_Reset h = h\<lparr>hs_bytes := 0, hs_s := rmd_Initialize\<rparr>"

subsection \<open>The two lines\<close>

definition rmd_shift :: "(u32 \<Rightarrow> u32 \<Rightarrow> u32 \<Rightarrow> u32) \<Rightarrow> u32 \<Rightarrow> u32 \<Rightarrow> nat \<Rightarrow> u32 list \<Rightarrow> u32 list" where
  "rmd_shift f k x r v =
     (let a = v ! 0; b = v ! 1; c = v ! 2; d = v ! 3; e = v ! 4
      in [e, word_rotl r (a + f b c d + x + k) + e, b, word_rotl 10 c, d])"

definition rmd_line :: "((u32 \<Rightarrow> u32 \<Rightarrow> u32 \<Rightarrow> u32) \<times> u32) list \<Rightarrow> (nat \<times> nat) list \<Rightarrow> u32 list \<Rightarrow> u32 list \<Rightarrow> u32 list" where
  "rmd_line R calls w h =
     fold (\<lambda>j. rmd_shift (fst (R ! (j div 16))) (snd (R ! (j div 16))) (w ! fst (calls ! j)) (snd (calls ! j))) [0..<80] h"

definition rmd_compress :: "u32 list \<Rightarrow> u32 list \<Rightarrow> u32 list" where
  "rmd_compress h w =
     (let l = rmd_line rmd_R1 rmd_calls1 w h; r = rmd_line rmd_R2 rmd_calls2 w h
      in map (\<lambda>j. h ! ((j + 1) mod 5) + l ! ((j + 2) mod 5) + r ! ((j + 3) mod 5)) [0..<5])"

definition rmd_spec :: "bytes \<Rightarrow> bytes" where
  "rmd_spec m =
     concat (map WriteLE32 (foldl (\<lambda>h chunk. rmd_compress h (map (\<lambda>i. ReadLE32 (drop (4 * i) chunk)) [0..<16]))
       rmd_Initialize (full_blocks 64 (m @ md_pad 64 8 (WriteLE64 (of_nat (8 * length m))) m))))"

lemma rmd_rotations: "list_all (\<lambda>(x, r). x < 16 \<and> 0 < r \<and> r < 32) (rmd_calls1 @ rmd_calls2)"
  by code_simp

lemma length_rmd_calls: "length rmd_calls1 = 80" "length rmd_calls2 = 80"
  by code_simp+

lemma length_rmd_call [simp]: "length (rmd_call R calls w i v) = length v"
  unfolding rmd_call_def by (simp split: prod.split)

lemma rmd_call_view:
  assumes "length v = 5" "0 < snd (calls ! i)" "snd (calls ! i) < 32"
  shows "view5 (Suc i) (rmd_call R calls w i v) =
    rmd_shift (fst (R ! (i div 16))) (snd (R ! (i div 16))) (w ! fst (calls ! i)) (snd (calls ! i)) (view5 i v)"
  using rotl_shifts [of 10 "v ! reg5 i 2"] rotl_shifts [OF assms(2,3)] assms(1)
  unfolding rmd_call_def rmd_Round_def rmd_shift_def rmd_rol_def Let_def split_beta
  by (simp add: view5_simps)

lemma rmd_lines:
  assumes "length v = 5" "list_all (\<lambda>(x, r). x < 16 \<and> 0 < r \<and> r < 32) calls" "n \<le> length calls"
  shows "length (fold (rmd_call R calls w) [0..<n] v) = 5 \<and> view5 n (fold (rmd_call R calls w) [0..<n] v) =
    fold (\<lambda>j. rmd_shift (fst (R ! (j div 16))) (snd (R ! (j div 16))) (w ! fst (calls ! j)) (snd (calls ! j))) [0..<n] v"
  using assms(3)
proof (induction n)
  case 0
  show ?case
    using assms(1) by (simp add: view5_id)
next
  case (Suc n)
  have "0 < snd (calls ! n)" "snd (calls ! n) < 32"
    using assms(2) Suc.prems by (auto simp: list_all_length split_beta)
  then show ?case
    using Suc by (simp add: rmd_call_view)
qed

lemma rmd_calls_split: "fold (rmd_calls w) js (v1, v2) = (fold (rmd_call rmd_R1 rmd_calls1 w) js v1, fold (rmd_call rmd_R2 rmd_calls2 w) js v2)"
  by (induction js arbitrary: v1 v2) (simp_all add: rmd_calls_def)

lemma rmd_Transform_lines:
  assumes "length s = 5"
  shows "rmd_Transform s chunk = rmd_compress s (map (\<lambda>i. ReadLE32 (drop (4 * i) chunk)) [0..<16])"
    and "length (rmd_Transform s chunk) = 5"
proof -
  have "fold (rmd_call R calls w) [0..<80] s = rmd_line R calls w s"
    if "list_all (\<lambda>(x, r). x < 16 \<and> 0 < r \<and> r < 32) calls" "length calls = 80" for R calls w
    using rmd_lines [OF assms that(1), of 80 R w] that(2) unfolding rmd_line_def by (auto simp: view5_id)
  then show "rmd_Transform s chunk = rmd_compress s (map (\<lambda>i. ReadLE32 (drop (4 * i) chunk)) [0..<16])"
    using rmd_rotations length_rmd_calls
    unfolding rmd_Transform_def rmd_compress_def Let_def rmd_calls_split list_all_append upt_5 by (simp add: numeral_2_eq_2)
  show "length (rmd_Transform s chunk) = 5"
    unfolding rmd_Transform_def by (simp add: Let_def split_beta)
qed

lemma foldl_rmd:
  "length s = 5 \<Longrightarrow> foldl rmd_Transform s cs =
    foldl (\<lambda>h chunk. rmd_compress h (map (\<lambda>i. ReadLE32 (drop (4 * i) chunk)) [0..<16])) s cs"
proof (induction cs arbitrary: s)
  case (Cons c cs)
  then show ?case
    using Cons.IH [OF rmd_Transform_lines(2) [OF Cons.prems, of c]]
    by (simp only: foldl_Cons rmd_Transform_lines(1) [OF Cons.prems])
qed simp

interpretation ripemd160: block_hasher 64 rmd_Transform rmd_Initialize
  by unfold_locales simp_all

lemma ripemd160_digest: "ripemd160.hashed h m \<Longrightarrow> CRIPEMD160_Finalize h = rmd_spec m"
proof -
  assume h: "ripemd160.hashed h m"
  then have "hs_bytes h = of_nat (length m)"
    unfolding ripemd160.hashed_def by blast
  moreover have "length rmd_Initialize = 5"
    by (simp add: rmd_Initialize_def)
  ultimately show ?thesis
    unfolding CRIPEMD160_Finalize_def rmd_spec_def ripemd160.hash_state [OF h] by (simp only: of_nat_bits foldl_rmd)
qed

lemma ripemd160_init_hashed: "length buf = 64 \<Longrightarrow> ripemd160.hashed (CRIPEMD160_init buf) []"
  unfolding CRIPEMD160_init_def by (rule ripemd160.hashed_init)

text \<open>
  The same for SHA-1 and RIPEMD-160: however a message is cut into pieces, writing
  the pieces and finalizing gives the digest of the whole message by the published algorithm: SHA-1 with its schedule of
  eighty words, RIPEMD-160 with its two independent lines combined at the end of each block.
\<close>

theorem sha1_ripemd160_streaming:
  assumes "length buf = 64"
  shows "CSHA1_Finalize (fold (\<lambda>d h. CSHA1_Write h d) ds (CSHA1_init buf)) = sha1_spec (concat ds) \<and>
    CRIPEMD160_Finalize (fold (\<lambda>d h. CRIPEMD160_Write h d) ds (CRIPEMD160_init buf)) = rmd_spec (concat ds)"
  using sha1_digest [OF sha1.hashed_writes [OF sha1_init_hashed [OF assms]], of ds]
    ripemd160_digest [OF ripemd160.hashed_writes [OF ripemd160_init_hashed [OF assms]], of ds]
  unfolding CSHA1_Write_def CRIPEMD160_Write_def by simp

theorem sha1_ripemd160_streaming_witness:
  "CRIPEMD160_Finalize (CRIPEMD160_Write (CRIPEMD160_Write (CRIPEMD160_init (replicate 64 7)) (replicate 61 1)) [2, 3, 4, 5]) =
     rmd_spec (replicate 61 1 @ [2, 3, 4, 5])"
  using sha1_ripemd160_streaming [of "replicate 64 7" "[replicate 61 1, [2, 3, 4, 5]]"] by simp

end
