(* ===== verification/Hash.thy ===== *)
theory Hash
  imports Sha256d64 Ripemd160
begin

section \<open>Hashes of messages and objects (hash.h, hash.cpp)\<close>

text \<open>
  The double and composite hashes built from the hashers of \<open>Sha2\<close> and \<open>Ripemd160\<close>: \<open>CHash256\<close>, \<open>CHash160\<close>, the
  stream \<open>CHashWriter\<close> that hashes what is serialized into it, and \<open>CHashVerifier\<close> that hashes what is read through
  it; and \<open>MurmurHash3\<close>. A hasher that is constructed leaves its buffer uninitialised: its contents are an argument
  of the model, and the theorems hold for any.
\<close>

unbundle bit_operations_syntax

definition hash256 :: "bytes \<Rightarrow> bytes" where
  "hash256 m = sha256_spec (sha256_spec m)"

definition hash160 :: "bytes \<Rightarrow> bytes" where
  "hash160 m = rmd_spec (sha256_spec m)"

subsection \<open>\<open>CHash256\<close> and \<open>CHash160\<close>\<close>

type_synonym CHash256 = CSHA256

definition CHash256_Finalize :: "CHash256 \<Rightarrow> bytes" where
  "CHash256_Finalize sha =
     (let buf = CSHA256_Finalize sha
      in CSHA256_Finalize (CSHA256_Write (CSHA256_Reset (CSHA256_padded sha)) buf))"

definition CHash256_Write :: "CHash256 \<Rightarrow> bytes \<Rightarrow> CHash256" where
  "CHash256_Write sha inp = CSHA256_Write sha inp"

definition CHash256_Reset :: "CHash256 \<Rightarrow> CHash256" where
  "CHash256_Reset sha = CSHA256_Reset sha"

type_synonym CHash160 = CSHA256

definition CHash160_Finalize :: "bytes \<Rightarrow> CHash160 \<Rightarrow> bytes" where
  "CHash160_Finalize rbuf sha =
     (let buf = CSHA256_Finalize sha
      in CRIPEMD160_Finalize (CRIPEMD160_Write (CRIPEMD160_init rbuf) buf))"

definition CHash160_Write :: "CHash160 \<Rightarrow> bytes \<Rightarrow> CHash160" where
  "CHash160_Write sha inp = CSHA256_Write sha inp"

definition CHash160_Reset :: "CHash160 \<Rightarrow> CHash160" where
  "CHash160_Reset sha = CSHA256_Reset sha"

text \<open>The function templates; the byte of an empty range is not hashed, its length being zero.\<close>

definition Hash :: "bytes \<Rightarrow> bytes \<Rightarrow> bytes" where
  "Hash buf p = CHash256_Finalize (CHash256_Write (CSHA256_init buf) p)"

definition Hash2 :: "bytes \<Rightarrow> bytes \<Rightarrow> bytes \<Rightarrow> bytes" where
  "Hash2 buf p1 p2 = CHash256_Finalize (CHash256_Write (CHash256_Write (CSHA256_init buf) p1) p2)"

definition Hash160 :: "bytes \<Rightarrow> bytes \<Rightarrow> bytes \<Rightarrow> bytes" where
  "Hash160 buf rbuf p = CHash160_Finalize rbuf (CHash160_Write (CSHA256_init buf) p)"

subsection \<open>Streams that hash\<close>

record CHashWriter =
  hw_ctx :: CHash256
  hw_nType :: int
  hw_nVersion :: int

definition CHashWriter_init :: "bytes \<Rightarrow> int \<Rightarrow> int \<Rightarrow> CHashWriter" where
  "CHashWriter_init buf nTypeIn nVersionIn = \<lparr>hw_ctx = CSHA256_init buf, hw_nType = nTypeIn, hw_nVersion = nVersionIn\<rparr>"

definition CHashWriter_write :: "CHashWriter \<Rightarrow> bytes \<Rightarrow> CHashWriter" where
  "CHashWriter_write w pch = w\<lparr>hw_ctx := CHash256_Write (hw_ctx w) pch\<rparr>"

definition CHashWriter_GetHash :: "CHashWriter \<Rightarrow> bytes" where
  "CHashWriter_GetHash w = CHash256_Finalize (hw_ctx w)"

definition CHashWriter_GetCheapHash :: "CHashWriter \<Rightarrow> u64" where
  "CHashWriter_GetCheapHash w = ReadLE64 (CHash256_Finalize (hw_ctx w))"

text \<open>An object as the sequence of the writes its serialization makes.\<close>

definition CHashWriter_put :: "CHashWriter \<Rightarrow> bytes list \<Rightarrow> CHashWriter" where
  "CHashWriter_put w writes = fold (\<lambda>pch w. CHashWriter_write w pch) writes w"

definition SerializeHash :: "bytes \<Rightarrow> bytes list \<Rightarrow> int \<Rightarrow> int \<Rightarrow> bytes" where
  "SerializeHash buf obj nType nVersion = CHashWriter_GetHash (CHashWriter_put (CHashWriter_init buf nType nVersion) obj)"

text \<open>The verifier: the writer and what the source still holds; a read past its end throws.\<close>

type_synonym CHashVerifier = "CHashWriter \<times> bytes"

definition CHashVerifier_read :: "nat \<Rightarrow> CHashVerifier \<Rightarrow> (bytes \<times> CHashVerifier) option" where
  "CHashVerifier_read nSize = (\<lambda>(w, source).
     do { (pch, source) \<leftarrow> read_bytes nSize source; Some (pch, CHashWriter_write w pch, source) })"

function CHashVerifier_ignore :: "nat \<Rightarrow> CHashVerifier \<Rightarrow> CHashVerifier option" where
  "CHashVerifier_ignore nSize v =
     (if nSize > 0 then
        (let now = min nSize 1024
         in case CHashVerifier_read now v of None \<Rightarrow> None | Some (_, v) \<Rightarrow> CHashVerifier_ignore (nSize - now) v)
      else Some v)"
  by pat_completeness auto
termination
  by (relation "measure fst") auto

declare CHashVerifier_ignore.simps [simp del]

subsection \<open>\<open>MurmurHash3\<close>\<close>

definition ROTL32 :: "u32 \<Rightarrow> nat \<Rightarrow> u32" where
  "ROTL32 x r = push_bit r x OR drop_bit (32 - r) x"

fun murmur_blocks :: "u32 \<Rightarrow> bytes \<Rightarrow> nat \<Rightarrow> u32" where
  "murmur_blocks h1 blocks 0 = h1"
| "murmur_blocks h1 blocks (Suc n) =
     (let k1 = ReadLE32 blocks;
          k1 = ROTL32 (k1 * 0xcc9e2d51) 15 * 0x1b873593;
          h1 = ROTL32 (h1 XOR k1) 13 * 5 + 0xe6546b64
      in murmur_blocks h1 (drop 4 blocks) n)"

definition murmur_tail :: "u32 \<Rightarrow> bytes \<Rightarrow> u32" where
  "murmur_tail h1 tail =
     (if tail = [] then h1
      else (let k1 = (if length tail = 3 then push_bit 16 (ucast (tail ! 2)) else 0);
                k1 = (if length tail \<ge> 2 then k1 XOR push_bit 8 (ucast (tail ! 1)) else k1);
                k1 = k1 XOR ucast (tail ! 0);
                k1 = ROTL32 (k1 * 0xcc9e2d51) 15 * 0x1b873593
            in h1 XOR k1))"

definition murmur_final :: "u32 \<Rightarrow> u32" where
  "murmur_final h1 =
     (let h1 = h1 XOR drop_bit 16 h1;
          h1 = h1 * 0x85ebca6b;
          h1 = h1 XOR drop_bit 13 h1;
          h1 = h1 * 0xc2b2ae35
      in h1 XOR drop_bit 16 h1)"

definition MurmurHash3 :: "u32 \<Rightarrow> bytes \<Rightarrow> u32" where
  "MurmurHash3 nHashSeed vDataToHash =
     (let nblocks = length vDataToHash div 4;
          h1 = murmur_blocks nHashSeed vDataToHash nblocks;
          h1 = murmur_tail h1 (drop (nblocks * 4) vDataToHash)
      in murmur_final (h1 XOR of_nat (length vDataToHash)))"

subsection \<open>What they compute\<close>

lemma CHash256_digest: "sha256.hashed h m \<Longrightarrow> CHash256_Finalize h = hash256 m"
proof -
  assume h: "sha256.hashed h m"
  have "sha256.hashed (CSHA256_Write (CSHA256_Reset (CSHA256_padded h)) (sha256_spec m)) (sha256_spec m)"
    using sha256.hashed_Write [OF sha256_reset_hashed [OF h]] unfolding CSHA256_Write_def by simp
  then show ?thesis
    unfolding CHash256_Finalize_def hash256_def Let_def sha256_digest [OF h] by (rule sha256_digest)
qed

lemma CHash160_digest: "sha256.hashed h m \<Longrightarrow> length rbuf = 64 \<Longrightarrow> CHash160_Finalize rbuf h = hash160 m"
proof -
  assume h: "sha256.hashed h m" and "length rbuf = 64"
  then have "ripemd160.hashed (CRIPEMD160_Write (CRIPEMD160_init rbuf) (sha256_spec m)) (sha256_spec m)"
    using ripemd160.hashed_Write [OF ripemd160_init_hashed] unfolding CRIPEMD160_Write_def by simp
  then show ?thesis
    unfolding CHash160_Finalize_def hash160_def Let_def sha256_digest [OF h] by (rule ripemd160_digest)
qed

lemma sha256_Write_hashed: "sha256.hashed h m \<Longrightarrow> sha256.hashed (CSHA256_Write h d) (m @ d)"
  unfolding CSHA256_Write_def by (rule sha256.hashed_Write)

lemma CHashWriter_put_hashed: "sha256.hashed (hw_ctx w) m \<Longrightarrow> sha256.hashed (hw_ctx (CHashWriter_put w ds)) (m @ concat ds)"
proof (induction ds arbitrary: w m)
  case (Cons d ds)
  have "sha256.hashed (hw_ctx (CHashWriter_write w d)) (m @ d)"
    using sha256_Write_hashed [OF Cons.prems] by (simp add: CHashWriter_write_def CHash256_Write_def)
  from Cons.IH [OF this] show ?case
    by (simp add: CHashWriter_put_def)
qed (simp add: CHashWriter_put_def)

lemma CHashVerifier_read_hashed:
  "CHashVerifier_read n (w, s) = Some (b, w', s') \<Longrightarrow> sha256.hashed (hw_ctx w) m \<Longrightarrow>
    sha256.hashed (hw_ctx w') (m @ take n s) \<and> s' = drop n s \<and> b = take n s"
  by (auto simp: CHashVerifier_read_def CHashWriter_write_def CHash256_Write_def read_bytes_def sha256_Write_hashed split: if_splits)

lemma CHashVerifier_read_defined: "(\<exists>r. CHashVerifier_read n (w, s) = Some r) \<longleftrightarrow> n \<le> length s"
  by (simp add: CHashVerifier_read_def read_bytes_def)

lemma CHashVerifier_ignore_hashed:
  "sha256.hashed (hw_ctx w) m \<Longrightarrow>
    (case CHashVerifier_ignore n (w, s) of
       None \<Rightarrow> length s < n
     | Some (w', s') \<Rightarrow> n \<le> length s \<and> sha256.hashed (hw_ctx w') (m @ take n s) \<and> s' = drop n s)"
proof (induction n arbitrary: w s m rule: less_induct)
  case (less n)
  show ?case
  proof (cases "n = 0")
    case True
    then show ?thesis
      using less.prems by (subst CHashVerifier_ignore.simps) simp
  next
    case False
    let ?now = "min n 1024"
    show ?thesis
    proof (cases "CHashVerifier_read ?now (w, s)")
      case None
      then have "length s < ?now"
        using CHashVerifier_read_defined [of ?now w s] by auto
      then show ?thesis
        using None False by (subst CHashVerifier_ignore.simps) simp
    next
      case (Some r)
      obtain b w' s' where r: "r = (b, w', s')"
        by (metis prod_cases3)
      have l: "?now \<le> length s"
        using CHashVerifier_read_defined [of ?now w s] Some by blast
      have h: "sha256.hashed (hw_ctx w') (m @ take ?now s)" "s' = drop ?now s"
        using CHashVerifier_read_hashed [OF Some [unfolded r] less.prems] by blast+
      have t: "m @ take ?now s @ take (n - ?now) (drop ?now s) = m @ take n s" "drop (n - ?now) (drop ?now s) = drop n s"
        by (simp_all flip: take_add)
      show ?thesis
        using less.IH [OF _ h(1), of "n - ?now" s'] False Some l unfolding h(2) r
        by (subst CHashVerifier_ignore.simps) (auto simp: t Let_def split: option.splits)
    qed
  qed
qed

text \<open>
  Every way to hash a message gives the same digest of its bytes. \<open>Hash\<close> of one or two ranges and the hash
  of an object's serialization are the double SHA-256 of the concatenated bytes, however they were cut into writes;
  \<open>Hash160\<close> is RIPEMD-160 of SHA-256; and skipping \<open>n\<close> bytes through the verifying reader fails exactly when fewer
  than \<open>n\<close> are left, and otherwise hashes exactly the bytes skipped, although it reads them in pieces of 1024.
\<close>

theorem hash_streams:
  assumes "length buf = 64" "length rbuf = 64"
  shows "Hash buf p = hash256 p \<and> Hash2 buf p q = hash256 (p @ q) \<and> Hash160 buf rbuf p = hash160 p \<and>
    SerializeHash buf ws nType nVersion = hash256 (concat ws) \<and>
    (case CHashVerifier_ignore n (CHashWriter_put (CHashWriter_init buf nType nVersion) ws, s) of
       None \<Rightarrow> length s < n
     | Some (w, s') \<Rightarrow> n \<le> length s \<and> CHashWriter_GetHash w = hash256 (concat ws @ take n s) \<and> s' = drop n s)"
proof -
  note h0 = sha256_init_hashed [OF assms(1)]
  have p: "sha256.hashed (CSHA256_Write (CSHA256_init buf) p) p"
    using sha256_Write_hashed [OF h0] by simp
  have w: "sha256.hashed (hw_ctx (CHashWriter_put (CHashWriter_init buf nType nVersion) ws)) (concat ws)"
    using CHashWriter_put_hashed [of "CHashWriter_init buf nType nVersion" "[]" ws] h0 by (simp add: CHashWriter_init_def)
  have "Hash buf p = hash256 p" "Hash2 buf p q = hash256 (p @ q)" "Hash160 buf rbuf p = hash160 p"
    using CHash256_digest [OF p] CHash256_digest [OF sha256_Write_hashed [OF p, of q]] CHash160_digest [OF p assms(2)]
    by (simp_all add: Hash_def Hash2_def Hash160_def CHash256_Write_def CHash160_Write_def)
  moreover have "SerializeHash buf ws nType nVersion = hash256 (concat ws)"
    unfolding SerializeHash_def CHashWriter_GetHash_def by (rule CHash256_digest [OF w])
  ultimately show ?thesis
    using CHashVerifier_ignore_hashed [OF w, of s n] by (auto simp: CHashWriter_GetHash_def CHash256_digest split: option.splits)
qed

theorem hash_streams_witness:
  "Hash2 (replicate 64 1) [2, 3] [4] = hash256 [2, 3, 4] \<and>
   SerializeHash (replicate 64 1) [[5], [], [6, 7]] 4 70015 = hash256 [5, 6, 7]"
  using hash_streams [of "replicate 64 1" "replicate 64 1" "[2, 3]" "[4]" "[[5], [], [6, 7]]" 4 70015] by simp

end
