(* ===== verification/Hmac.thy ===== *)
theory Hmac
  imports Hash
begin

section \<open>Keyed hashes (crypto/hmac_sha256.cpp, hmac_sha512.cpp, hkdf_sha256_32.cpp, pkcs5_pbkdf2_hmac_sha512.cpp)\<close>

text \<open>
  HMAC over the two SHA-2 hashers, the one-block HKDF built on the first and PBKDF2 and the BIP 32 hash built on the second.
  The buffers of hashers that are constructed on the way hold arbitrary contents: they are arguments.
\<close>

unbundle bit_operations_syntax

subsection \<open>HMAC\<close>

record 's hmac =
  hm_outer :: "'s hasher"
  hm_inner :: "'s hasher"

definition hmac_rkey :: "nat \<Rightarrow> (bytes \<Rightarrow> bytes) \<Rightarrow> bytes \<Rightarrow> bytes" where
  "hmac_rkey B digest key =
     (if length key \<le> B then key @ replicate (B - length key) 0
      else digest key @ replicate (B div 2) 0)"

definition CHMAC_SHA256_init :: "bytes \<Rightarrow> bytes \<Rightarrow> bytes \<Rightarrow> bytes \<Rightarrow> u32 list hmac" where
  "CHMAC_SHA256_init kbuf obuf ibuf key =
     (let rkey = hmac_rkey 64 (\<lambda>key. CSHA256_Finalize (CSHA256_Write (CSHA256_init kbuf) key)) key;
          rkey = map (\<lambda>b. b XOR 0x5c) rkey;
          outer = CSHA256_Write (CSHA256_init obuf) rkey;
          rkey = map (\<lambda>b. b XOR (0x5c XOR 0x36)) rkey;
          inner = CSHA256_Write (CSHA256_init ibuf) rkey
      in \<lparr>hm_outer = outer, hm_inner = inner\<rparr>)"

definition CHMAC_SHA256_Write :: "u32 list hmac \<Rightarrow> bytes \<Rightarrow> u32 list hmac" where
  "CHMAC_SHA256_Write h data = h\<lparr>hm_inner := CSHA256_Write (hm_inner h) data\<rparr>"

definition CHMAC_SHA256_Finalize :: "u32 list hmac \<Rightarrow> bytes" where
  "CHMAC_SHA256_Finalize h =
     (let temp = CSHA256_Finalize (hm_inner h) in CSHA256_Finalize (CSHA256_Write (hm_outer h) temp))"

definition CHMAC_SHA512_init :: "bytes \<Rightarrow> bytes \<Rightarrow> bytes \<Rightarrow> bytes \<Rightarrow> u64 list hmac" where
  "CHMAC_SHA512_init kbuf obuf ibuf key =
     (let rkey = hmac_rkey 128 (\<lambda>key. CSHA512_Finalize (CSHA512_Write (CSHA512_init kbuf) key)) key;
          rkey = map (\<lambda>b. b XOR 0x5c) rkey;
          outer = CSHA512_Write (CSHA512_init obuf) rkey;
          rkey = map (\<lambda>b. b XOR (0x5c XOR 0x36)) rkey;
          inner = CSHA512_Write (CSHA512_init ibuf) rkey
      in \<lparr>hm_outer = outer, hm_inner = inner\<rparr>)"

definition CHMAC_SHA512_Write :: "u64 list hmac \<Rightarrow> bytes \<Rightarrow> u64 list hmac" where
  "CHMAC_SHA512_Write h data = h\<lparr>hm_inner := CSHA512_Write (hm_inner h) data\<rparr>"

definition CHMAC_SHA512_Finalize :: "u64 list hmac \<Rightarrow> bytes" where
  "CHMAC_SHA512_Finalize h =
     (let temp = CSHA512_Finalize (hm_inner h) in CSHA512_Finalize (CSHA512_Write (hm_outer h) temp))"

subsection \<open>Functions built on HMAC\<close>

text \<open>The constructor keeps the extracted key; \<open>Expand32\<close> asserts the length of its label.\<close>

definition CHKDF_HMAC_SHA256_L32 :: "bytes \<Rightarrow> bytes \<Rightarrow> bytes \<Rightarrow> bytes \<Rightarrow> bytes \<Rightarrow> bytes" where
  "CHKDF_HMAC_SHA256_L32 kbuf obuf ibuf ikm salt =
     CHMAC_SHA256_Finalize (CHMAC_SHA256_Write (CHMAC_SHA256_init kbuf obuf ibuf salt) ikm)"

definition Expand32 :: "bytes \<Rightarrow> bytes \<Rightarrow> bytes \<Rightarrow> bytes \<Rightarrow> bytes \<Rightarrow> bytes option" where
  "Expand32 kbuf obuf ibuf m_prk info =
     (if length info \<le> 128 then
        Some (CHMAC_SHA256_Finalize
          (CHMAC_SHA256_Write (CHMAC_SHA256_Write (CHMAC_SHA256_init kbuf obuf ibuf m_prk) info) [1]))
      else None)"

definition BIP32Hash :: "bytes \<Rightarrow> bytes \<Rightarrow> bytes \<Rightarrow> bytes \<Rightarrow> u32 \<Rightarrow> u8 \<Rightarrow> bytes \<Rightarrow> bytes" where
  "BIP32Hash kbuf obuf ibuf chainCode nChild hdr data =
     (let num = WriteBE32 nChild
      in CHMAC_SHA512_Finalize (CHMAC_SHA512_Write (CHMAC_SHA512_Write (CHMAC_SHA512_Write
           (CHMAC_SHA512_init kbuf obuf ibuf chainCode) [hdr]) data) num))"

text \<open>
  The inner loop of PBKDF2 from \<open>j\<close> on, with the digest of the last turn and the bytes of the block so far; the block is the
  first \<open>cplen\<close> bytes.
\<close>

definition pbkdf2_hmac :: "bytes \<Rightarrow> bytes \<Rightarrow> bytes \<Rightarrow> bytes \<Rightarrow> bytes list \<Rightarrow> bytes" where
  "pbkdf2_hmac kbuf obuf ibuf upass ds =
     CHMAC_SHA512_Finalize (fold (\<lambda>d h. CHMAC_SHA512_Write h d) ds (CHMAC_SHA512_init kbuf obuf ibuf upass))"

function pbkdf2_iter :: "(bytes \<Rightarrow> bytes) \<Rightarrow> int \<Rightarrow> int \<Rightarrow> bytes \<Rightarrow> bytes \<Rightarrow> bytes" where
  "pbkdf2_iter prf iter j digtmp p =
     (if j < iter then
        (let digtmp = prf digtmp; p = map2 (XOR) p digtmp in pbkdf2_iter prf iter (j + 1) digtmp p)
      else p)"
  by pat_completeness auto
termination
  by (relation "measure (\<lambda>(prf, iter, j, digtmp, p). nat (iter - j))") auto

declare pbkdf2_iter.simps [simp del]

function pbkdf2_loop :: "bytes \<Rightarrow> bytes \<Rightarrow> bytes \<Rightarrow> bytes \<Rightarrow> bytes \<Rightarrow> int \<Rightarrow> nat \<Rightarrow> u64 \<Rightarrow> bytes" where
  "pbkdf2_loop kbuf obuf ibuf upass salt iter tkeylen i =
     (if tkeylen \<noteq> 0 then
        (let cplen = (if tkeylen > 64 then 64 else tkeylen);
             itmp = [ucast (drop_bit 24 i AND 0xff), ucast (drop_bit 16 i AND 0xff), ucast (drop_bit 8 i AND 0xff), ucast (i AND 0xff)];
             digtmp = pbkdf2_hmac kbuf obuf ibuf upass [salt, itmp];
             p = pbkdf2_iter (\<lambda>d. pbkdf2_hmac kbuf obuf ibuf upass [d]) iter 1 digtmp (take cplen digtmp)
         in p @ pbkdf2_loop kbuf obuf ibuf upass salt iter (tkeylen - cplen) (i + 1))
      else [])"
  by pat_completeness auto
termination
  by (relation "measure (\<lambda>(kbuf, obuf, ibuf, upass, salt, iter, tkeylen, i). tkeylen)") auto

declare pbkdf2_loop.simps [simp del]

text \<open>The length of the key is narrowed to an \<open>int\<close>: a longer key is not defined.\<close>

definition PKCS5_PBKDF2_HMAC_SHA512 :: "bytes \<Rightarrow> bytes \<Rightarrow> bytes \<Rightarrow> bytes \<Rightarrow> bytes \<Rightarrow> int \<Rightarrow> nat \<Rightarrow> bytes option" where
  "PKCS5_PBKDF2_HMAC_SHA512 kbuf obuf ibuf pass salt iter keylen =
     (if keylen < 2 ^ 31 then Some (pbkdf2_loop kbuf obuf ibuf pass salt iter keylen 1) else None)"

subsection \<open>The standards\<close>

definition hmac_spec :: "nat \<Rightarrow> (bytes \<Rightarrow> bytes) \<Rightarrow> bytes \<Rightarrow> bytes \<Rightarrow> bytes" where
  "hmac_spec B H key m =
     (let K = (if length key \<le> B then key else H key);
          K0 = K @ replicate (B - length K) 0
      in H (map (\<lambda>b. b XOR 0x5c) K0 @ H (map (\<lambda>b. b XOR 0x36) K0 @ m)))"

text \<open>Block \<open>i\<close> of RFC 8018: the exclusive or of the first \<open>c\<close> iterates.\<close>

definition pbkdf2_block :: "(bytes \<Rightarrow> bytes) \<Rightarrow> bytes \<Rightarrow> nat \<Rightarrow> nat \<Rightarrow> bytes" where
  "pbkdf2_block prf salt c i =
     (let U1 = prf (salt @ WriteBE32 (of_nat i))
      in fold (\<lambda>j p. map2 (XOR) p ((prf ^^ j) U1)) [1..<c] U1)"

definition pbkdf2_spec :: "(bytes \<Rightarrow> bytes) \<Rightarrow> nat \<Rightarrow> bytes \<Rightarrow> nat \<Rightarrow> nat \<Rightarrow> bytes" where
  "pbkdf2_spec prf hlen salt c dklen =
     take dklen (concat (map (pbkdf2_block prf salt c) [1..<Suc ((dklen + hlen - 1) div hlen)]))"

subsection \<open>HMAC over a hasher\<close>

text \<open>A hasher whose \<open>Finalize\<close> gives the digest \<open>H\<close> of what was written, half a block long.\<close>

locale digest_hasher = block_hasher B tr iv
  for B :: nat and tr :: "'s \<Rightarrow> bytes \<Rightarrow> 's" and iv :: 's +
  fixes fin :: "'s hasher \<Rightarrow> bytes" and H :: "bytes \<Rightarrow> bytes"
  assumes fin_hashed: "hashed h m \<Longrightarrow> fin h = H m"
    and digest_half: "2 * length (H m) = B"
begin

lemma fin_Write: "hashed h m \<Longrightarrow> fin (hasher_Write B tr h d) = H (m @ d)"
  by (rule fin_hashed) (rule hashed_Write)

lemma hmac_rkey_padded:
  assumes "length kbuf = B"
  shows "hmac_rkey B (\<lambda>k. fin (hasher_Write B tr \<lparr>hs_s = iv, hs_buf = kbuf, hs_bytes = 0\<rparr> k)) key =
    (let K = (if length key \<le> B then key else H key) in K @ replicate (B - length K) 0)"
proof -
  have "B - length (H key) = B div 2"
    using digest_half [of key] by arith
  then show ?thesis
    unfolding hmac_rkey_def fin_Write [OF hashed_init [OF assms]] by (simp add: Let_def)
qed

lemma hmac_correct:
  assumes "length kbuf = B" "length obuf = B" "length ibuf = B"
    and "rkey = hmac_rkey B (\<lambda>k. fin (hasher_Write B tr \<lparr>hs_s = iv, hs_buf = kbuf, hs_bytes = 0\<rparr> k)) key"
  shows "fin (hasher_Write B tr (hasher_Write B tr \<lparr>hs_s = iv, hs_buf = obuf, hs_bytes = 0\<rparr> (map (\<lambda>b. b XOR 0x5c) rkey))
      (fin (fold (\<lambda>d h. hasher_Write B tr h d) ds (hasher_Write B tr \<lparr>hs_s = iv, hs_buf = ibuf, hs_bytes = 0\<rparr>
         (map (\<lambda>b. b XOR (0x5c XOR 0x36)) (map (\<lambda>b. b XOR 0x5c) rkey)))))) =
    hmac_spec B H key (concat ds)"
proof -
  have x: "map (\<lambda>b. b XOR (0x5c XOR 0x36)) (map (\<lambda>b. b XOR 0x5c) rkey) = map (\<lambda>b. b XOR (0x36 :: u8)) rkey"
    by (simp add: xor.assoc)
  have "fin (fold (\<lambda>d h. hasher_Write B tr h d) ds (hasher_Write B tr \<lparr>hs_s = iv, hs_buf = ibuf, hs_bytes = 0\<rparr> k)) = H (k @ concat ds)" for k
    using fin_hashed [OF hashed_writes [OF hashed_Write [OF hashed_init [OF assms(3)]]]] by simp
  then show ?thesis
    using fin_Write [OF hashed_Write [OF hashed_init [OF assms(2)]]] hmac_rkey_padded [OF assms(1), of key]
    unfolding x unfolding assms(4) hmac_spec_def by (simp add: Let_def)
qed

end

interpretation hmac256: digest_hasher 64 sha256_block sha256_Initialize CSHA256_Finalize sha256_spec
  by unfold_locales (simp_all add: sha256_digest)

interpretation hmac512: digest_hasher 128 sha512_Transform sha512_Initialize CSHA512_Finalize sha512_spec
  by unfold_locales (simp_all add: sha512_digest)

lemma CHMAC_SHA256_spec:
  assumes "length kbuf = 64" "length obuf = 64" "length ibuf = 64"
  shows "CHMAC_SHA256_Finalize (fold (\<lambda>d h. CHMAC_SHA256_Write h d) ds (CHMAC_SHA256_init kbuf obuf ibuf key)) =
    hmac_spec 64 sha256_spec key (concat ds)"
proof -
  have "fold (\<lambda>d h. CHMAC_SHA256_Write h d) ds h = h\<lparr>hm_inner := fold (\<lambda>d h. CSHA256_Write h d) ds (hm_inner h)\<rparr>" for h
    by (induction ds arbitrary: h) (simp_all add: CHMAC_SHA256_Write_def)
  then show ?thesis
    using hmac256.hmac_correct [OF assms refl, of key ds]
    by (simp add: CHMAC_SHA256_Finalize_def CHMAC_SHA256_init_def CSHA256_Write_def CSHA256_init_def Let_def)
qed

lemma CHMAC_SHA512_spec:
  assumes "length kbuf = 128" "length obuf = 128" "length ibuf = 128"
  shows "CHMAC_SHA512_Finalize (fold (\<lambda>d h. CHMAC_SHA512_Write h d) ds (CHMAC_SHA512_init kbuf obuf ibuf key)) =
    hmac_spec 128 sha512_spec key (concat ds)"
proof -
  have "fold (\<lambda>d h. CHMAC_SHA512_Write h d) ds h = h\<lparr>hm_inner := fold (\<lambda>d h. CSHA512_Write h d) ds (hm_inner h)\<rparr>" for h
    by (induction ds arbitrary: h) (simp_all add: CHMAC_SHA512_Write_def)
  then show ?thesis
    using hmac512.hmac_correct [OF assms refl, of key ds]
    by (simp add: CHMAC_SHA512_Finalize_def CHMAC_SHA512_init_def CSHA512_Write_def CSHA512_init_def Let_def)
qed

lemma length_hmac_spec: "length (hmac_spec 128 sha512_spec key m) = 64"
  by (simp add: hmac_spec_def Let_def)

subsection \<open>PBKDF2\<close>

lemma upt_1_Suc: "[1..<Suc (Suc n)] = 1 # map Suc [1..<Suc n]"
  by (simp add: map_Suc_upt upt_conv_Cons del: upt_Suc)

lemma pbkdf2_iter_fold:
  "pbkdf2_iter prf iter j d p = fold (\<lambda>k p. map2 (XOR) p ((prf ^^ k) d)) [1..<Suc (nat (iter - j))] p"
proof (induction "nat (iter - j)" arbitrary: j d p)
  case 0
  then show ?case
    by (subst pbkdf2_iter.simps) simp
next
  case (Suc n)
  have "j < iter" "nat (iter - (j + 1)) = n"
    using Suc.hyps(2) by linarith+
  then show ?case
    using Suc.hyps(1) [of "j + 1" "prf d" "map2 (XOR) p (prf d)"]
    unfolding Suc.hyps(2) [symmetric] upt_1_Suc
    by (subst pbkdf2_iter.simps) (simp add: fold_map comp_def funpow_swap1 Let_def del: upt_Suc)
qed

lemma take_map2: "take n (map2 f p q) = map2 f (take n p) q"
proof (induction p arbitrary: n q)
  case (Cons a p)
  then show ?case
    by (cases q; cases n) simp_all
qed simp

lemma take_fold_map2: "take n (fold (\<lambda>k p. map2 f p (q k)) ks p) = fold (\<lambda>k p. map2 f p (q k)) ks (take n p)"
  by (induction ks arbitrary: p) (simp_all add: take_map2)

lemma byte_of_unat: "(of_nat (unat (x :: u32) div 2 ^ k) :: u8) = ucast (drop_bit k x)"
proof -
  have "unat x div 2 ^ k = unat (drop_bit k x)"
    by (simp only: unat_drop_bit_eq) (simp add: drop_bit_eq_div)
  then show ?thesis
    by simp
qed

lemma low_byte: "k \<le> 24 \<Longrightarrow> (ucast (drop_bit k (i :: u64) AND 0xff) :: u8) = ucast (drop_bit k (ucast i :: u32))"
proof -
  assume "k \<le> 24"
  have m: "(0xff :: u64) = mask 8"
    by (simp add: mask_eq_exp_minus_1)
  show ?thesis
    unfolding m using \<open>k \<le> 24\<close> by (intro bit_word_eqI) (auto simp: bit_simps)
qed

lemma pbkdf2_itmp:
  "[ucast (drop_bit 24 i AND 0xff), ucast (drop_bit 16 i AND 0xff), ucast (drop_bit 8 i AND 0xff), ucast (i AND 0xff)] =
    WriteBE32 (ucast (i :: u64))"
proof -
  have "le_bytes 4 v = [of_nat v, of_nat (v div 2 ^ 8), of_nat (v div 2 ^ 16), of_nat (v div 2 ^ 24)]" for v
    unfolding four_Suc by (simp add: div_mult2_eq [symmetric])
  then show ?thesis
    using low_byte [of 24 i] low_byte [of 16 i] low_byte [of 8 i] low_byte [of 0 i]
      byte_of_unat [of "ucast i" 24] byte_of_unat [of "ucast i" 16] byte_of_unat [of "ucast i" 8]
    unfolding WriteBE32_def by simp
qed

lemma pbkdf2_hmac_spec:
  assumes "length kbuf = 128" "length obuf = 128" "length ibuf = 128"
  shows "pbkdf2_hmac kbuf obuf ibuf upass ds = hmac_spec 128 sha512_spec upass (concat ds)"
  unfolding pbkdf2_hmac_def by (rule CHMAC_SHA512_spec [OF assms])

lemma length_fold_map2: "length p = n \<Longrightarrow> (\<And>k. length (q k) = n) \<Longrightarrow> length (fold (\<lambda>k p. map2 f p (q k)) ks p) = n"
  by (induction ks arbitrary: p) simp_all

lemma length_pbkdf2_block:
  assumes "\<And>m. length (prf m) = n"
  shows "length (pbkdf2_block prf salt c i) = n"
proof -
  have "length ((prf ^^ k) (prf m)) = n" for k m
    using assms by (cases k) simp_all
  then show ?thesis
    unfolding pbkdf2_block_def Let_def by (intro length_fold_map2) (simp_all add: assms)
qed

lemma pbkdf2_loop_spec:
  fixes upass
  defines "prf \<equiv> hmac_spec 128 sha512_spec upass"
  assumes "length kbuf = 128" "length obuf = 128" "length ibuf = 128"
  shows "pbkdf2_loop kbuf obuf ibuf upass salt iter n (of_nat i) =
    take n (concat (map (pbkdf2_block prf salt (nat iter)) [i..<i + (n + 63) div 64]))"
proof (induction n arbitrary: i rule: less_induct)
  case (less n)
  let ?b = "pbkdf2_block prf salt (nat iter)"
  show ?case
  proof (cases "n = 0")
    case True
    then show ?thesis
      by (subst pbkdf2_loop.simps) simp
  next
    case False
    define cplen where "cplen = (if n > 64 then 64 else n)"
    have c: "cplen \<le> n" "0 < cplen" "cplen \<le> 64" "(n + 63) div 64 = Suc ((n - cplen + 63) div 64)" "cplen = 64 \<or> n = cplen"
      using False unfolding cplen_def by (auto simp: div_add_self2 split: if_splits)
    have iters: "[1..<Suc (nat (iter - 1))] = [1..<nat iter]"
      by (cases "iter \<le> 1") (simp_all add: nat_diff_distrib)
    have u: "(ucast (of_nat i :: u64) :: u32) = of_nat i"
      by (rule bit_word_eqI) (auto simp: bit_simps)
    have p: "pbkdf2_iter (\<lambda>d. pbkdf2_hmac kbuf obuf ibuf upass [d]) iter 1
        (pbkdf2_hmac kbuf obuf ibuf upass [salt, WriteBE32 (of_nat i)])
        (take cplen (pbkdf2_hmac kbuf obuf ibuf upass [salt, WriteBE32 (of_nat i)])) = take cplen (?b i)"
      unfolding pbkdf2_iter_fold iters pbkdf2_block_def Let_def take_fold_map2 pbkdf2_hmac_spec [OF assms(2-)] prf_def by simp
    have len: "length (?b i) = 64"
      by (rule length_pbkdf2_block) (simp add: prf_def length_hmac_spec)
    have "pbkdf2_loop kbuf obuf ibuf upass salt iter n (of_nat i) =
        take cplen (?b i) @ pbkdf2_loop kbuf obuf ibuf upass salt iter (n - cplen) (of_nat (i + 1))"
      using False p by (subst pbkdf2_loop.simps) (simp add: Let_def pbkdf2_itmp u cplen_def add.commute)
    also have "\<dots> = take cplen (?b i) @ take (n - cplen) (concat (map ?b [i + 1..<i + 1 + (n - cplen + 63) div 64]))"
      using less.IH [of "n - cplen" "i + 1"] c by simp
    also have "\<dots> = take n (?b i @ concat (map ?b [i + 1..<i + 1 + (n - cplen + 63) div 64]))"
      using c len by auto
    also have "?b i @ concat (map ?b [i + 1..<i + 1 + (n - cplen + 63) div 64]) = concat (map ?b [i..<i + (n + 63) div 64])"
      unfolding c(4) by (simp add: upt_conv_Cons del: upt_Suc)
    finally show ?thesis .
  qed
qed

text \<open>
  The keyed hashes are those of their standards. HMAC-SHA256 and HMAC-SHA512, whatever the pieces the message is
  written in and however long the key is, are the two nested hashes of RFC 2104; the HKDF label expansion succeeds exactly
  for labels of at most 128 bytes and is then the first block of RFC 5869; and PBKDF2 gives, for every requested length below
  $2^{31}$, that many bytes of the blocks of RFC 8018, an iteration count below one counting as one.
\<close>

theorem keyed_hashes:
  assumes "length kbuf = 64" "length obuf = 64" "length ibuf = 64" "length kbuf' = 128" "length obuf' = 128" "length ibuf' = 128"
  shows "CHMAC_SHA256_Finalize (fold (\<lambda>d h. CHMAC_SHA256_Write h d) ds (CHMAC_SHA256_init kbuf obuf ibuf key)) =
      hmac_spec 64 sha256_spec key (concat ds) \<and>
    CHMAC_SHA512_Finalize (fold (\<lambda>d h. CHMAC_SHA512_Write h d) ds (CHMAC_SHA512_init kbuf' obuf' ibuf' key)) =
      hmac_spec 128 sha512_spec key (concat ds) \<and>
    Expand32 kbuf obuf ibuf (CHKDF_HMAC_SHA256_L32 kbuf obuf ibuf ikm salt) info =
      (if length info \<le> 128
       then Some (hmac_spec 64 sha256_spec (hmac_spec 64 sha256_spec salt ikm) (info @ [1])) else None) \<and>
    PKCS5_PBKDF2_HMAC_SHA512 kbuf' obuf' ibuf' pass salt iter keylen =
      (if keylen < 2 ^ 31
       then Some (pbkdf2_spec (hmac_spec 128 sha512_spec pass) 64 salt (nat iter) keylen) else None)"
proof -
  note h = CHMAC_SHA256_spec [OF assms(1-3)] CHMAC_SHA512_spec [OF assms(4-6)]
  have "CHKDF_HMAC_SHA256_L32 kbuf obuf ibuf ikm salt = hmac_spec 64 sha256_spec salt ikm"
    using h(1) [of "[ikm]" salt] unfolding CHKDF_HMAC_SHA256_L32_def by simp
  moreover have "pbkdf2_loop kbuf' obuf' ibuf' pass salt iter keylen 1 =
      pbkdf2_spec (hmac_spec 128 sha512_spec pass) 64 salt (nat iter) keylen"
    using pbkdf2_loop_spec [OF assms(4-6), of pass salt iter keylen 1]
    unfolding pbkdf2_spec_def by (simp add: add.commute [of 63] del: upt_Suc)
  ultimately show ?thesis
    using h(1) [of "[info, [1]]"] h
    unfolding Expand32_def PKCS5_PBKDF2_HMAC_SHA512_def by simp
qed

theorem keyed_hashes_witness:
  "CHMAC_SHA256_Finalize (CHMAC_SHA256_Write (CHMAC_SHA256_Write (CHMAC_SHA256_init (replicate 64 0) (replicate 64 1) (replicate 64 2)
     (replicate 70 9)) [1, 2]) [3]) = hmac_spec 64 sha256_spec (replicate 70 9) [1, 2, 3]"
  using keyed_hashes [of "replicate 64 0" "replicate 64 1" "replicate 64 2" "replicate 128 0" "replicate 128 1" "replicate 128 2"
      "[[1, 2], [3]]" "replicate 70 9"] by simp

end
