(* ===== verification/Siphash.thy ===== *)
theory Siphash
  imports Hasher
begin

section \<open>SipHash-2-4 (crypto/siphash.cpp)\<close>

text \<open>
  The streaming hasher takes bytes or whole 64-bit words; two unrolled functions hash a \<open>uint256\<close>, and a \<open>uint256\<close> with 32
  more bits, at once. The theory shows that all of them compute SipHash-2-4 of the bytes.
\<close>

unbundle bit_operations_syntax

subsection \<open>The code\<close>

type_synonym sip_state = "u64 \<times> u64 \<times> u64 \<times> u64"

definition ROTL :: "u64 \<Rightarrow> nat \<Rightarrow> u64" where
  "ROTL x b = push_bit b x OR drop_bit (64 - b) x"

definition SIPROUND :: "sip_state \<Rightarrow> sip_state" where
  "SIPROUND v = (case v of (v0, v1, v2, v3) \<Rightarrow>
     let v0 = v0 + v1; v1 = ROTL v1 13; v1 = v1 XOR v0;
         v0 = ROTL v0 32;
         v2 = v2 + v3; v3 = ROTL v3 16; v3 = v3 XOR v2;
         v0 = v0 + v3; v3 = ROTL v3 21; v3 = v3 XOR v0;
         v2 = v2 + v1; v1 = ROTL v1 17; v1 = v1 XOR v2;
         v2 = ROTL v2 32
     in (v0, v1, v2, v3))"

text \<open>The lines that take in one word.\<close>

definition sip_absorb :: "u64 \<Rightarrow> sip_state \<Rightarrow> sip_state" where
  "sip_absorb d v = (case v of (v0, v1, v2, v3) \<Rightarrow>
     (case SIPROUND (SIPROUND (v0, v1, v2, v3 XOR d)) of (v0, v1, v2, v3) \<Rightarrow> (v0 XOR d, v1, v2, v3)))"

text \<open>The lines that end a hash.\<close>

definition sip_end :: "sip_state \<Rightarrow> u64" where
  "sip_end v = (case v of (v0, v1, v2, v3) \<Rightarrow>
     (case SIPROUND (SIPROUND (SIPROUND (SIPROUND (v0, v1, v2 XOR 0xFF, v3)))) of
        (v0, v1, v2, v3) \<Rightarrow> v0 XOR v1 XOR v2 XOR v3))"

record CSipHasher =
  sip_v :: sip_state
  sip_tmp :: u64
  sip_count :: u8

definition CSipHasher_init :: "u64 \<Rightarrow> u64 \<Rightarrow> CSipHasher" where
  "CSipHasher_init k0 k1 =
     \<lparr>sip_v = (0x736f6d6570736575 XOR k0, 0x646f72616e646f6d XOR k1, 0x6c7967656e657261 XOR k0, 0x7465646279746573 XOR k1),
      sip_tmp = 0, sip_count = 0\<rparr>"

text \<open>A word can only be written after whole words: \<open>None\<close> is the failed assertion.\<close>

definition CSipHasher_Write64 :: "CSipHasher \<Rightarrow> u64 \<Rightarrow> CSipHasher option" where
  "CSipHasher_Write64 h data =
     (if sip_count h mod 8 = 0
      then Some (h\<lparr>sip_v := sip_absorb data (sip_v h), sip_count := sip_count h + 8\<rparr>)
      else None)"

fun sip_write_loop :: "bytes \<Rightarrow> sip_state \<Rightarrow> u64 \<Rightarrow> u8 \<Rightarrow> sip_state \<times> u64 \<times> u8" where
  "sip_write_loop [] v t c = (v, t, c)"
| "sip_write_loop (b # data) v t c =
     (let t = t OR push_bit (8 * unat (c mod 8)) (ucast b);
          c = c + 1
      in if c AND 7 = 0 then sip_write_loop data (sip_absorb t v) 0 c
         else sip_write_loop data v t c)"

definition CSipHasher_Write :: "CSipHasher \<Rightarrow> bytes \<Rightarrow> CSipHasher" where
  "CSipHasher_Write h data =
     (case sip_write_loop data (sip_v h) (sip_tmp h) (sip_count h) of
        (v, t, c) \<Rightarrow> \<lparr>sip_v = v, sip_tmp = t, sip_count = c\<rparr>)"

definition CSipHasher_Finalize :: "CSipHasher \<Rightarrow> u64" where
  "CSipHasher_Finalize h =
     (let t = sip_tmp h OR push_bit 56 (ucast (sip_count h)) in sip_end (sip_absorb t (sip_v h)))"

definition GetUint64 :: "bytes \<Rightarrow> nat \<Rightarrow> u64" where
  "GetUint64 m_data pos =
     (let ptr = drop (pos * 8) m_data
      in ucast (ptr ! 0) OR push_bit 8 (ucast (ptr ! 1)) OR push_bit 16 (ucast (ptr ! 2)) OR push_bit 24 (ucast (ptr ! 3))
         OR push_bit 32 (ucast (ptr ! 4)) OR push_bit 40 (ucast (ptr ! 5)) OR push_bit 48 (ucast (ptr ! 6)) OR push_bit 56 (ucast (ptr ! 7)))"

definition SipHashUint256 :: "u64 \<Rightarrow> u64 \<Rightarrow> bytes \<Rightarrow> u64" where
  "SipHashUint256 k0 k1 val =
     (let d = GetUint64 val 0;
          v0 = 0x736f6d6570736575 XOR k0; v1 = 0x646f72616e646f6d XOR k1;
          v2 = 0x6c7967656e657261 XOR k0; v3 = 0x7465646279746573 XOR k1 XOR d;
          (v0, v1, v2, v3) = SIPROUND (SIPROUND (v0, v1, v2, v3)); v0 = v0 XOR d;
          d = GetUint64 val 1; v3 = v3 XOR d;
          (v0, v1, v2, v3) = SIPROUND (SIPROUND (v0, v1, v2, v3)); v0 = v0 XOR d;
          d = GetUint64 val 2; v3 = v3 XOR d;
          (v0, v1, v2, v3) = SIPROUND (SIPROUND (v0, v1, v2, v3)); v0 = v0 XOR d;
          d = GetUint64 val 3; v3 = v3 XOR d;
          (v0, v1, v2, v3) = SIPROUND (SIPROUND (v0, v1, v2, v3)); v0 = v0 XOR d;
          v3 = v3 XOR push_bit 59 4;
          (v0, v1, v2, v3) = SIPROUND (SIPROUND (v0, v1, v2, v3)); v0 = v0 XOR push_bit 59 4;
          v2 = v2 XOR 0xFF;
          (v0, v1, v2, v3) = SIPROUND (SIPROUND (SIPROUND (SIPROUND (v0, v1, v2, v3))))
      in v0 XOR v1 XOR v2 XOR v3)"

definition SipHashUint256Extra :: "u64 \<Rightarrow> u64 \<Rightarrow> bytes \<Rightarrow> u32 \<Rightarrow> u64" where
  "SipHashUint256Extra k0 k1 val extra =
     (let d = GetUint64 val 0;
          v0 = 0x736f6d6570736575 XOR k0; v1 = 0x646f72616e646f6d XOR k1;
          v2 = 0x6c7967656e657261 XOR k0; v3 = 0x7465646279746573 XOR k1 XOR d;
          (v0, v1, v2, v3) = SIPROUND (SIPROUND (v0, v1, v2, v3)); v0 = v0 XOR d;
          d = GetUint64 val 1; v3 = v3 XOR d;
          (v0, v1, v2, v3) = SIPROUND (SIPROUND (v0, v1, v2, v3)); v0 = v0 XOR d;
          d = GetUint64 val 2; v3 = v3 XOR d;
          (v0, v1, v2, v3) = SIPROUND (SIPROUND (v0, v1, v2, v3)); v0 = v0 XOR d;
          d = GetUint64 val 3; v3 = v3 XOR d;
          (v0, v1, v2, v3) = SIPROUND (SIPROUND (v0, v1, v2, v3)); v0 = v0 XOR d;
          d = push_bit 56 36 OR ucast extra; v3 = v3 XOR d;
          (v0, v1, v2, v3) = SIPROUND (SIPROUND (v0, v1, v2, v3)); v0 = v0 XOR d;
          v2 = v2 XOR 0xFF;
          (v0, v1, v2, v3) = SIPROUND (SIPROUND (SIPROUND (SIPROUND (v0, v1, v2, v3))))
      in v0 XOR v1 XOR v2 XOR v3)"

subsection \<open>SipHash-2-4\<close>

primrec le_word :: "bytes \<Rightarrow> u64" where
  "le_word [] = 0"
| "le_word (b # bs) = ucast b OR push_bit 8 (le_word bs)"

definition sipround :: "sip_state \<Rightarrow> sip_state" where
  "sipround = (\<lambda>(a, b, c, d).
     let a = a + b; c = c + d;
         b = word_rotl 13 b XOR a; d = word_rotl 16 d XOR c;
         a = word_rotl 32 a;
         c = c + b; a = a + d;
         b = word_rotl 17 b XOR c; d = word_rotl 21 d XOR a;
         c = word_rotl 32 c
     in (a, b, c, d))"

definition sip_compress :: "sip_state \<Rightarrow> u64 \<Rightarrow> sip_state" where
  "sip_compress = (\<lambda>(a, b, c, d) m. case (sipround ^^ 2) (a, b, c, d XOR m) of (a, b, c, d) \<Rightarrow> (a XOR m, b, c, d))"

definition siphash :: "u64 \<Rightarrow> u64 \<Rightarrow> bytes \<Rightarrow> u64" where
  "siphash k0 k1 m =
     (let last = le_word (drop (8 * (length m div 8)) m) OR push_bit 56 (of_nat (length m mod 256));
          v = foldl sip_compress
                (k0 XOR 0x736f6d6570736575, k1 XOR 0x646f72616e646f6d, k0 XOR 0x6c7967656e657261, k1 XOR 0x7465646279746573)
                (map le_word (full_blocks 8 m) @ [last])
      in case v of (a, b, c, d) \<Rightarrow> (case (sipround ^^ 4) (a, b, c XOR 0xff, d) of (a, b, c, d) \<Rightarrow> a XOR b XOR c XOR d))"

lemma ROTL_rotl: "0 < n \<Longrightarrow> n < 64 \<Longrightarrow> ROTL x n = word_rotl n x"
  unfolding ROTL_def by (rule bit_word_eqI)
    (auto simp: bit_simps bit_word_rotl_iff mod_if not_less add.commute [of 64] dest: bit_imp_le_length)

lemma SIPROUND_eq: "SIPROUND = sipround"
  by (rule ext) (simp add: SIPROUND_def sipround_def Let_def ROTL_rotl split: prod.split)

lemma sip_absorb_eq: "sip_absorb d v = sip_compress v d"
  by (simp add: sip_absorb_def sip_compress_def SIPROUND_eq numeral_2_eq_2 split: prod.split)

lemma sip_end_eq:
  "sip_end v = (case v of (a, b, c, d) \<Rightarrow> (case (sipround ^^ 4) (a, b, c XOR 0xff, d) of (a, b, c, d) \<Rightarrow> a XOR b XOR c XOR d))"
  by (simp add: sip_end_def SIPROUND_eq numeral_eq_Suc split: prod.split)

lemma le_word_snoc: "le_word (bs @ [b]) = le_word bs OR push_bit (8 * length bs) (ucast b)"
  by (induction bs) (simp_all add: push_bit_or or.assoc add.commute)

text \<open>What a hasher holds after the bytes \<open>m\<close>.\<close>

definition sip_hashed :: "u64 \<Rightarrow> u64 \<Rightarrow> CSipHasher \<Rightarrow> bytes \<Rightarrow> bool" where
  "sip_hashed k0 k1 h m \<longleftrightarrow>
     sip_v h = foldl sip_compress (sip_v (CSipHasher_init k0 k1)) (map le_word (full_blocks 8 m)) \<and>
     sip_tmp h = le_word (drop (8 * (length m div 8)) m) \<and> sip_count h = of_nat (length m)"

lemma sip_init_hashed: "sip_hashed k0 k1 (CSipHasher_init k0 k1) []"
  unfolding sip_hashed_def CSipHasher_init_def full_blocks_def by simp

lemma sip_count_mod: "unat ((of_nat n :: u8) mod 8) = n mod 8"
  by (simp add: unat_mod unsigned_of_nat take_bit_eq_mod mod_mod_cancel)

lemma sip_count_and: "(of_nat n :: u8) AND 7 = 0 \<longleftrightarrow> n mod 8 = 0"
proof -
  have "(of_nat n :: u8) AND 7 = of_nat n mod 8"
    using take_bit_eq_mask [of 3 "of_nat n :: u8"] take_bit_eq_mod [of 3 "of_nat n :: u8"]
    by (simp add: mask_eq_exp_minus_1)
  then show ?thesis
    using sip_count_mod [of n] by (metis unat_eq_zero)
qed

lemma full_blocks_snoc:
  "full_blocks 8 (m @ [b]) = (if Suc (length m) mod 8 = 0 then full_blocks 8 m @ [drop (8 * (length m div 8)) m @ [b]] else full_blocks 8 m)"
  "drop (8 * (Suc (length m) div 8)) (m @ [b]) = (if Suc (length m) mod 8 = 0 then [] else drop (8 * (length m div 8)) m @ [b])"
proof -
  let ?q = "length m div 8"
  have q: "8 * ?q + length m mod 8 = length m"
    by simp
  show "full_blocks 8 (m @ [b]) = (if Suc (length m) mod 8 = 0 then full_blocks 8 m @ [drop (8 * ?q) m @ [b]] else full_blocks 8 m)"
  proof (cases "Suc (length m) mod 8 = 0")
    case True
    then have "Suc (length m) div 8 = ?q + 1" "length (drop (8 * ?q) m) = 7"
      by (auto simp: div_Suc mod_Suc minus_mult_div_eq_mod split: if_splits)
    then show ?thesis
      using True blocks_of_add [of 8 ?q 1 "m @ [b]"] blocks_of_append [of 8 ?q m "[b]"] by (simp add: full_blocks_def)
  next
    case False
    then show ?thesis
      using blocks_of_append [of 8 ?q m "[b]"] by (simp add: full_blocks_def div_Suc)
  qed
  show "drop (8 * (Suc (length m) div 8)) (m @ [b]) = (if Suc (length m) mod 8 = 0 then [] else drop (8 * ?q) m @ [b])"
    by (auto simp: div_Suc mod_Suc minus_mult_div_eq_mod)
qed

lemma sip_write_loop_hashed:
  assumes "sip_hashed k0 k1 \<lparr>sip_v = v, sip_tmp = t, sip_count = c\<rparr> m"
  shows "case sip_write_loop data v t c of (v, t, c) \<Rightarrow> sip_hashed k0 k1 \<lparr>sip_v = v, sip_tmp = t, sip_count = c\<rparr> (m @ data)"
  using assms
proof (induction data arbitrary: v t c m)
  case (Cons b data)
  let ?r = "drop (8 * (length m div 8)) m"
  have h: "v = foldl sip_compress (sip_v (CSipHasher_init k0 k1)) (map le_word (full_blocks 8 m))" "t = le_word ?r" "c = of_nat (length m)"
    using Cons.prems unfolding sip_hashed_def by simp_all
  have "8 * (length m div 8) + length m mod 8 = length m"
    by simp
  then have "length ?r = length m mod 8"
    by (simp add: minus_mult_div_eq_mod)
  then have t: "t OR push_bit (8 * unat (c mod 8)) (ucast b) = le_word (?r @ [b])"
    unfolding h(2,3) sip_count_mod le_word_snoc by simp
  have c: "c + 1 = of_nat (length (m @ [b]))" "c + 1 AND 7 = 0 \<longleftrightarrow> Suc (length m) mod 8 = 0"
    using sip_count_and [of "Suc (length m)"] unfolding h(3) by (simp_all add: add.commute)
  show ?case
  proof (cases "Suc (length m) mod 8 = 0")
    case True
    then have "sip_hashed k0 k1 \<lparr>sip_v = sip_absorb (le_word (?r @ [b])) v, sip_tmp = 0, sip_count = c + 1\<rparr> (m @ [b])"
      unfolding sip_hashed_def c(1) using h(1) by (simp add: full_blocks_snoc sip_absorb_eq del: drop_append)
    from Cons.IH [OF this] show ?thesis
      using True by (simp add: t c(2) Let_def)
  next
    case False
    then have "sip_hashed k0 k1 \<lparr>sip_v = v, sip_tmp = le_word (?r @ [b]), sip_count = c + 1\<rparr> (m @ [b])"
      unfolding sip_hashed_def c(1) using h(1) by (simp add: full_blocks_snoc del: drop_append)
    from Cons.IH [OF this] show ?thesis
      using False by (simp add: t c(2) Let_def)
  qed
qed simp

lemma sip_Write_hashed: "sip_hashed k0 k1 h m \<Longrightarrow> sip_hashed k0 k1 (CSipHasher_Write h data) (m @ data)"
  using sip_write_loop_hashed [of k0 k1 "sip_v h" "sip_tmp h" "sip_count h" m data]
  by (cases h) (auto simp: CSipHasher_Write_def split: prod.splits)

lemma le_word_8: "length bs = 8 \<Longrightarrow> GetUint64 (bs @ rest) 0 = le_word bs"
  by (auto simp: GetUint64_def eval_nat_numeral length_Suc_conv push_bit_or or.assoc)

lemma sip_Write64_hashed:
  assumes "sip_hashed k0 k1 h m"
  shows "CSipHasher_Write64 h (le_word bs) = None \<longleftrightarrow> length m mod 8 \<noteq> 0"
    and "length bs = 8 \<Longrightarrow> CSipHasher_Write64 h (le_word bs) = Some h' \<Longrightarrow> sip_hashed k0 k1 h' (m @ bs)"
proof -
  have c: "sip_count h = of_nat (length m)"
    using assms unfolding sip_hashed_def by blast
  have d: "sip_count h mod 8 = 0 \<longleftrightarrow> length m mod 8 = 0"
    using sip_count_mod [of "length m"] unfolding c by (metis unat_eq_zero)
  then show "CSipHasher_Write64 h (le_word bs) = None \<longleftrightarrow> length m mod 8 \<noteq> 0"
    by (simp add: CSipHasher_Write64_def)
  show "sip_hashed k0 k1 h' (m @ bs)" if "length bs = 8" "CSipHasher_Write64 h (le_word bs) = Some h'"
  proof -
    have m: "length m mod 8 = 0" and h': "h' = h\<lparr>sip_v := sip_absorb (le_word bs) (sip_v h), sip_count := sip_count h + 8\<rparr>"
      using that(2) d by (auto simp: CSipHasher_Write64_def split: if_splits)
    have q: "8 * (length m div 8) = length m"
      using mult_div_mod_eq [of 8 "length m"] m by simp
    have n: "length (m @ bs) div 8 = length m div 8 + 1"
      using that(1) by simp
    have "full_blocks 8 (m @ bs) = full_blocks 8 m @ [bs]"
      using that(1) q blocks_of_append [of 8 "length m div 8" m bs] unfolding full_blocks_def n blocks_of_add by simp
    then show ?thesis
      using assms that(1) q unfolding sip_hashed_def h' n by (simp add: sip_absorb_eq)
  qed
qed

lemma sip_digest: "sip_hashed k0 k1 h m \<Longrightarrow> CSipHasher_Finalize h = siphash k0 k1 m"
proof -
  assume h: "sip_hashed k0 k1 h m"
  have "(ucast (of_nat (length m) :: u8) :: u64) = of_nat (length m mod 256)"
    by (simp add: unsigned_of_nat take_bit_eq_mod)
  then show ?thesis
    using h unfolding sip_hashed_def CSipHasher_Finalize_def siphash_def Let_def sip_end_eq
    by (simp add: sip_absorb_eq CSipHasher_init_def xor.commute)
qed

subsection \<open>The unrolled functions\<close>

lemma SipHashUint256_absorbs:
  "SipHashUint256 k0 k1 val = sip_end (sip_absorb (push_bit 59 4) (sip_absorb (GetUint64 val 3) (sip_absorb (GetUint64 val 2)
     (sip_absorb (GetUint64 val 1) (sip_absorb (GetUint64 val 0) (sip_v (CSipHasher_init k0 k1)))))))"
  unfolding SipHashUint256_def CSipHasher_init_def sip_absorb_def sip_end_def
  by (auto simp: Let_def xor.assoc split: prod.splits)

lemma SipHashUint256Extra_absorbs:
  "SipHashUint256Extra k0 k1 val extra = sip_end (sip_absorb (push_bit 56 36 OR ucast extra) (sip_absorb (GetUint64 val 3)
     (sip_absorb (GetUint64 val 2) (sip_absorb (GetUint64 val 1) (sip_absorb (GetUint64 val 0) (sip_v (CSipHasher_init k0 k1)))))))"
  unfolding SipHashUint256Extra_def CSipHasher_init_def sip_absorb_def sip_end_def
  by (auto simp: Let_def xor.assoc split: prod.splits)

lemma GetUint64_blocks:
  assumes "length val = 32"
  shows "map le_word (blocks_of 8 4 (val @ rest)) = [GetUint64 val 0, GetUint64 val 1, GetUint64 val 2, GetUint64 val 3]"
proof -
  have "GetUint64 val i = le_word (take 8 (drop (8 * i) val))" if "i < 4" for i
  proof -
    have "GetUint64 val i = GetUint64 (take 8 (drop (8 * i) val) @ drop 8 (drop (8 * i) val)) 0"
      unfolding append_take_drop_id by (simp add: GetUint64_def mult.commute)
    then show ?thesis
      using that assms by (subst (asm) le_word_8) simp_all
  qed
  then show ?thesis
    using assms by (simp add: numeral_eq_Suc)
qed

lemma le_word_WriteLE32: "le_word (WriteLE32 x) = ucast x"
  by (rule bit_word_eqI, auto simp: WriteLE32_def bit_simps not_less dest: bit_imp_le_length) (rule ccontr, simp)

text \<open>
  All ways to hash agree with SipHash-2-4 of the bytes: the byte stream in any pieces; a word written
  after the bytes \<open>m\<close>, which is possible exactly when \<open>m\<close> is a whole number of words and counts as its eight bytes;
  the unrolled hash of a \<open>uint256\<close>; and the one with 32 more bits.
\<close>

theorem siphash_equivalent:
  assumes "length val = 32" "length w = 8"
  shows "CSipHasher_Finalize (fold (\<lambda>d h. CSipHasher_Write h d) ds (CSipHasher_init k0 k1)) = siphash k0 k1 (concat ds) \<and>
    map_option CSipHasher_Finalize (CSipHasher_Write64 (CSipHasher_Write (CSipHasher_init k0 k1) m) (GetUint64 w 0)) =
      (if length m mod 8 = 0 then Some (siphash k0 k1 (m @ w)) else None) \<and>
    SipHashUint256 k0 k1 val = siphash k0 k1 val \<and>
    SipHashUint256Extra k0 k1 val extra = siphash k0 k1 (val @ WriteLE32 extra)"
proof -
  have ds: "sip_hashed k0 k1 (fold (\<lambda>d h. CSipHasher_Write h d) ds h) (m @ concat ds)" if "sip_hashed k0 k1 h m" for h m
    using that
  proof (induction ds arbitrary: h m)
    case (Cons d ds)
    from Cons.IH [OF sip_Write_hashed [OF Cons.prems, of d]] show ?case
      by simp
  qed simp
  have m: "sip_hashed k0 k1 (CSipHasher_Write (CSipHasher_init k0 k1) m) m"
    using sip_Write_hashed [OF sip_init_hashed, of k0 k1 m] by simp
  have w: "GetUint64 w 0 = le_word w"
    using le_word_8 [OF assms(2), of "[]"] by simp
  have "map_option CSipHasher_Finalize (CSipHasher_Write64 (CSipHasher_Write (CSipHasher_init k0 k1) m) (GetUint64 w 0)) =
      (if length m mod 8 = 0 then Some (siphash k0 k1 (m @ w)) else None)"
    using sip_Write64_hashed(1) [OF m, of w] sip_Write64_hashed(2) [OF m assms(2)] sip_digest
    unfolding w by (cases "CSipHasher_Write64 (CSipHasher_Write (CSipHasher_init k0 k1) m) (le_word w)") auto
  moreover have "SipHashUint256 k0 k1 val = siphash k0 k1 val"
    using GetUint64_blocks [OF assms(1), of "[]"] assms(1)
    unfolding SipHashUint256_absorbs siphash_def full_blocks_def Let_def sip_end_eq sip_absorb_eq
    by (simp add: CSipHasher_init_def xor.commute)
  moreover have "SipHashUint256Extra k0 k1 val extra = siphash k0 k1 (val @ WriteLE32 extra)"
    using GetUint64_blocks [OF assms(1), of "WriteLE32 extra"] assms(1)
    unfolding SipHashUint256Extra_absorbs siphash_def full_blocks_def Let_def sip_end_eq sip_absorb_eq
    by (simp add: CSipHasher_init_def xor.commute or.commute le_word_WriteLE32)
  ultimately show ?thesis
    using sip_digest [OF ds [OF sip_init_hashed]] by simp
qed

theorem siphash_equivalent_witness:
  "SipHashUint256 1 2 (replicate 32 3) = siphash 1 2 (replicate 32 3) \<and>
   CSipHasher_Finalize (CSipHasher_Write (CSipHasher_Write (CSipHasher_init 1 2) [1, 2, 3]) (replicate 7 4)) = siphash 1 2 ([1, 2, 3] @ replicate 7 4)"
  using siphash_equivalent [of "replicate 32 3" "replicate 8 0" "[[1, 2, 3], replicate 7 4]" 1 2] by simp

end
