(* ===== verification/Chain.thy ===== *)
theory Chain
  imports Compact
begin

section \<open>Block headers, the block index and the active chain (primitives/block.h, chain.h, chain.cpp)\<close>

text \<open>
  Entries of the block index are C++ objects linked by the pointers \<open>pprev\<close> and \<open>pskip\<close> and
  compared by identity, so the index is an explicit store from pointers to entries. A \<open>nullptr\<close>
  is \<open>None\<close>. An operation that may dereference a null pointer or fail an \<open>assert\<close> returns an
  option whose \<open>None\<close> is that failure.
\<close>

type_synonym uint256 = bytes
type_synonym bptr = nat

record CBlockHeader =
  hdr_nVersion :: int
  hdr_hashPrevBlock :: uint256
  hdr_hashMerkleRoot :: uint256
  hdr_nTime :: u32
  hdr_nBits :: u32
  hdr_nNonce :: u32
  hdr_nHeight :: u32
  hdr_nNonce64 :: u64
  hdr_mix_hash :: uint256

definition null256 :: uint256 where
  "null256 = replicate 32 0"

definition header_SetNull :: CBlockHeader where
  "header_SetNull =
     \<lparr>hdr_nVersion = 0, hdr_hashPrevBlock = null256, hdr_hashMerkleRoot = null256, hdr_nTime = 0,
      hdr_nBits = 0, hdr_nNonce = 0, hdr_nHeight = 0, hdr_nNonce64 = 0, hdr_mix_hash = null256\<rparr>"

definition SCC_GEN_TIME :: u32 where
  "SCC_GEN_TIME = 1601898626"

text \<open>\<open>Params().GetConsensus().nPPSwitchTime\<close> is the argument \<open>nPPSwitchTime\<close>.\<close>

definition IsProgPow :: "u32 \<Rightarrow> u32 \<Rightarrow> bool" where
  "IsProgPow nPPSwitchTime nTime \<longleftrightarrow> nTime > SCC_GEN_TIME \<and> nTime \<ge> nPPSwitchTime"

definition IsFirstProgPow :: "u32 \<Rightarrow> u32 \<Rightarrow> bool" where
  "IsFirstProgPow nPPSwitchTime nTime \<longleftrightarrow>
     IsProgPow nPPSwitchTime nTime \<and> nTime \<le> nPPSwitchTime + 432000"

subsection \<open>Entries of the block index\<close>

record FlatFilePos =
  pos_nFile :: int
  pos_nPos :: u32

record CBlockIndex =
  phashBlock :: "uint256 option"
  pprev :: "bptr option"
  pskip :: "bptr option"
  nHeight :: int
  nFile :: int
  nDataPos :: u32
  nUndoPos :: u32
  nChainWork :: base_uint
  nTx :: u32
  nChainTx :: u32
  nStatus :: u32
  nVersion :: int
  hashMerkleRoot :: uint256
  nTime :: u32
  nBits :: u32
  nNonce :: u32
  nNonce64 :: u64
  mix_hash :: uint256
  nSequenceId :: int
  nTimeMax :: u32

type_synonym block_store = "bptr \<Rightarrow> CBlockIndex option"

definition index_SetNull :: CBlockIndex where
  "index_SetNull =
     \<lparr>phashBlock = None, pprev = None, pskip = None, nHeight = 0, nFile = 0, nDataPos = 0, nUndoPos = 0,
      nChainWork = uint_zero, nTx = 0, nChainTx = 0, nStatus = 0, nVersion = 0,
      hashMerkleRoot = null256, nTime = 0, nBits = 0, nNonce = 0, nNonce64 = 0, mix_hash = null256,
      nSequenceId = 0, nTimeMax = 0\<rparr>"

definition index_of_header :: "u32 \<Rightarrow> CBlockHeader \<Rightarrow> CBlockIndex" where
  "index_of_header nPPSwitchTime block =
     (let b = index_SetNull
            \<lparr>nVersion := hdr_nVersion block, hashMerkleRoot := hdr_hashMerkleRoot block,
             nTime := hdr_nTime block, nBits := hdr_nBits block, nNonce := hdr_nNonce block\<rparr>
      in if IsProgPow nPPSwitchTime (hdr_nTime block)
         then b\<lparr>nHeight := sint (hdr_nHeight block), nNonce64 := hdr_nNonce64 block,
                mix_hash := hdr_mix_hash block\<rparr>
         else b)"

definition BLOCK_VALID_MASK :: u32 where
  "BLOCK_VALID_MASK = 1 OR 2 OR 3 OR 4 OR 5"

definition BLOCK_HAVE_DATA :: u32 where "BLOCK_HAVE_DATA = 8"
definition BLOCK_HAVE_UNDO :: u32 where "BLOCK_HAVE_UNDO = 16"

definition BLOCK_FAILED_MASK :: u32 where
  "BLOCK_FAILED_MASK = 32 OR 64"

text \<open>\<open>FlatFilePos\<close>'s constructor sets \<open>nFile = -1\<close>, \<open>nPos = 0\<close>.\<close>

definition GetBlockPos :: "CBlockIndex \<Rightarrow> FlatFilePos" where
  "GetBlockPos b =
     (if nStatus b AND BLOCK_HAVE_DATA \<noteq> 0 then \<lparr>pos_nFile = nFile b, pos_nPos = nDataPos b\<rparr>
      else \<lparr>pos_nFile = -1, pos_nPos = 0\<rparr>)"

definition GetUndoPos :: "CBlockIndex \<Rightarrow> FlatFilePos" where
  "GetUndoPos b =
     (if nStatus b AND BLOCK_HAVE_UNDO \<noteq> 0 then \<lparr>pos_nFile = nFile b, pos_nPos = nUndoPos b\<rparr>
      else \<lparr>pos_nFile = -1, pos_nPos = 0\<rparr>)"

definition GetBlockHash :: "CBlockIndex \<Rightarrow> uint256 option" where
  "GetBlockHash b = phashBlock b"

definition HaveTxsDownloaded :: "CBlockIndex \<Rightarrow> bool" where
  "HaveTxsDownloaded b \<longleftrightarrow> nChainTx b \<noteq> 0"

definition GetBlockHeader :: "u32 \<Rightarrow> block_store \<Rightarrow> CBlockIndex \<Rightarrow> CBlockHeader option" where
  "GetBlockHeader nPPSwitchTime st b =
     (case (case pprev b of None \<Rightarrow> Some null256 | Some q \<Rightarrow> Option.bind (st q) GetBlockHash) of
        None \<Rightarrow> None
      | Some prev \<Rightarrow>
          let h = header_SetNull
                \<lparr>hdr_nVersion := nVersion b, hdr_hashPrevBlock := prev,
                 hdr_hashMerkleRoot := hashMerkleRoot b, hdr_nTime := nTime b, hdr_nBits := nBits b\<rparr>
          in Some (if IsProgPow nPPSwitchTime (nTime b)
               then h\<lparr>hdr_nHeight := word_of_int (nHeight b), hdr_nNonce64 := nNonce64 b,
                      hdr_mix_hash := mix_hash b\<rparr>
               else h\<lparr>hdr_nNonce := nNonce b\<rparr>))"

definition GetBlockTime :: "CBlockIndex \<Rightarrow> int" where
  "GetBlockTime b = uint (nTime b)"

definition GetBlockTimeMax :: "CBlockIndex \<Rightarrow> int" where
  "GetBlockTimeMax b = uint (nTimeMax b)"

definition nMedianTimeSpan :: nat where
  "nMedianTimeSpan = 11"

text \<open>The times of a block and its predecessors, at most \<open>n\<close> of them.\<close>

fun past_times :: "block_store \<Rightarrow> nat \<Rightarrow> bptr option \<Rightarrow> int list option" where
  "past_times st 0 p = Some []"
| "past_times st (Suc n) None = Some []"
| "past_times st (Suc n) (Some p) =
     (case st p of None \<Rightarrow> None
      | Some b \<Rightarrow> map_option (\<lambda>ts. GetBlockTime b # ts) (past_times st n (pprev b)))"

definition GetMedianTimePast :: "block_store \<Rightarrow> bptr \<Rightarrow> int option" where
  "GetMedianTimePast st p =
     map_option (\<lambda>ts. sort ts ! (length ts div 2)) (past_times st nMedianTimeSpan (Some p))"

definition IsValid :: "CBlockIndex \<Rightarrow> u32 \<Rightarrow> bool option" where
  "IsValid b nUpTo =
     (if nUpTo AND (NOT BLOCK_VALID_MASK) \<noteq> 0 then None
      else if nStatus b AND BLOCK_FAILED_MASK \<noteq> 0 then Some False
      else Some (nStatus b AND BLOCK_VALID_MASK \<ge> nUpTo))"

definition RaiseValidity :: "CBlockIndex \<Rightarrow> u32 \<Rightarrow> (bool \<times> CBlockIndex) option" where
  "RaiseValidity b nUpTo =
     (if nUpTo AND (NOT BLOCK_VALID_MASK) \<noteq> 0 then None
      else if nStatus b AND BLOCK_FAILED_MASK \<noteq> 0 then Some (False, b)
      else if nStatus b AND BLOCK_VALID_MASK < nUpTo
      then Some (True, b\<lparr>nStatus := nStatus b AND (NOT BLOCK_VALID_MASK) OR nUpTo\<rparr>)
      else Some (False, b))"

subsection \<open>Ancestors through the skip list\<close>

definition InvertLowestOne :: "int \<Rightarrow> int" where
  "InvertLowestOne n = n AND (n - 1)"

definition GetSkipHeight :: "int \<Rightarrow> int" where
  "GetSkipHeight height =
     (if height < 2 then 0
      else if height AND 1 \<noteq> 0 then InvertLowestOne (InvertLowestOne (height - 1)) + 1
      else InvertLowestOne height)"

lemma InvertLowestOne_bounds: "0 < n \<Longrightarrow> 0 \<le> InvertLowestOne n \<and> InvertLowestOne n < n"
  using AND_upper2 [of "n - 1" n] by (simp add: InvertLowestOne_def)

lemma InvertLowestOne_nonneg: "0 \<le> n \<Longrightarrow> 0 \<le> InvertLowestOne n"
  by (simp add: InvertLowestOne_def)

lemma InvertLowestOne_le: "0 \<le> n \<Longrightarrow> InvertLowestOne n \<le> n"
  using InvertLowestOne_bounds [of n] by (cases "n = 0") (simp_all add: InvertLowestOne_def)

lemma GetSkipHeight_bounds: "0 < h \<Longrightarrow> 0 \<le> GetSkipHeight h \<and> GetSkipHeight h < h"
proof -
  assume h: "0 < h"
  have "InvertLowestOne (InvertLowestOne (h - 1)) < h - 1" if "2 \<le> h"
    using that InvertLowestOne_bounds [of "h - 1"] InvertLowestOne_le [of "InvertLowestOne (h - 1)"] by linarith
  then show ?thesis
    using h InvertLowestOne_bounds [of h] InvertLowestOne_nonneg [of "h - 1"]
      InvertLowestOne_nonneg [of "InvertLowestOne (h - 1)"]
    by (auto simp: GetSkipHeight_def)
qed

lemma GetSkipHeight_less [simp]: "0 \<le> k \<Longrightarrow> k < h \<Longrightarrow> GetSkipHeight h < h"
  using GetSkipHeight_bounds [of h] by simp

text \<open>
  The loop of \<open>GetAncestor\<close>; \<open>None\<close> where the source fails its assertion or reads through an
  invalid pointer. The caller has returned on a negative \<open>height\<close>, so the second conjunct of the
  guard always holds; with it the loop stops on every argument.
\<close>

function ancestor_walk :: "block_store \<Rightarrow> int \<Rightarrow> bptr \<Rightarrow> int \<Rightarrow> bptr option" where
  "ancestor_walk st height pindexWalk heightWalk =
     (if heightWalk > height \<and> 0 \<le> height then
        let heightSkip = GetSkipHeight heightWalk;
            heightSkipPrev = GetSkipHeight (heightWalk - 1)
        in case st pindexWalk of
             None \<Rightarrow> None
           | Some b \<Rightarrow>
               (case pskip b of
                  Some q \<Rightarrow>
                    if heightSkip = height \<or>
                       (heightSkip > height \<and>
                        \<not> (heightSkipPrev < heightSkip - 2 \<and> heightSkipPrev \<ge> height))
                    then ancestor_walk st height q heightSkip
                    else (case pprev b of None \<Rightarrow> None
                          | Some r \<Rightarrow> ancestor_walk st height r (heightWalk - 1))
                | None \<Rightarrow>
                    (case pprev b of None \<Rightarrow> None
                     | Some r \<Rightarrow> ancestor_walk st height r (heightWalk - 1)))
      else Some pindexWalk)"
  by pat_completeness auto
termination
  by (relation "measure (\<lambda>(st, height, p, hw). nat hw)") auto

declare ancestor_walk.simps [simp del]

definition GetAncestor :: "block_store \<Rightarrow> bptr \<Rightarrow> int \<Rightarrow> bptr option option" where
  "GetAncestor st this height =
     (case st this of
        None \<Rightarrow> None
      | Some b \<Rightarrow>
          if height > nHeight b \<or> height < 0 then Some None
          else map_option Some (ancestor_walk st height this (nHeight b)))"

definition BuildSkip :: "block_store \<Rightarrow> bptr \<Rightarrow> block_store option" where
  "BuildSkip st this =
     (case st this of
        None \<Rightarrow> None
      | Some b \<Rightarrow>
          (case pprev b of
             None \<Rightarrow> Some st
           | Some q \<Rightarrow>
               (case GetAncestor st q (GetSkipHeight (nHeight b)) of
                  None \<Rightarrow> None
                | Some s \<Rightarrow> Some (st(this \<mapsto> b\<lparr>pskip := s\<rparr>)))))"

subsection \<open>Work and time\<close>

text \<open>\<open>GetBlockProof\<close>: the expected number of hashes behind a target. Division cannot fail.\<close>

definition GetBlockProof :: "CBlockIndex \<Rightarrow> base_uint option" where
  "GetBlockProof block =
     (let (bnTarget, fNegative, fOverflow) = SetCompact (nBits block)
      in if fNegative \<or> fOverflow \<or> EqualTo bnTarget 0 then Some (uint_of_u64 0)
         else map_option (\<lambda>q. uint_add q (uint_of_u64 1))
                (uint_div (uint_not bnTarget) (uint_add bnTarget (uint_of_u64 1))))"

definition GetBlockProofEquivalentTime ::
  "CBlockIndex \<Rightarrow> CBlockIndex \<Rightarrow> CBlockIndex \<Rightarrow> int \<Rightarrow> int option" where
  "GetBlockProofEquivalentTime to from tip nPowTargetSpacing =
     (let (r, sign) =
            (if CompareTo (nChainWork to) (nChainWork from) > 0
             then (uint_sub (nChainWork to) (nChainWork from), 1 :: int)
             else (uint_sub (nChainWork from) (nChainWork to), -1))
      in case GetBlockProof tip of
           None \<Rightarrow> None
         | Some pr \<Rightarrow>
             (case uint_div (uint_mul r (uint_of_u64 (word_of_int nPowTargetSpacing))) pr of
                None \<Rightarrow> None
              | Some r \<Rightarrow>
                  Some (if uint_bits r > 63 then sign * (2 ^ 63 - 1)
                        else sint (word_of_int sign * GetLow64 r))))"

subsection \<open>The active chain\<close>

type_synonym CChain = "bptr option list"

definition Genesis :: "CChain \<Rightarrow> bptr option" where
  "Genesis c = (if length c > 0 then c ! 0 else None)"

definition Tip :: "CChain \<Rightarrow> bptr option" where
  "Tip c = (if length c > 0 then c ! (length c - 1) else None)"

definition chain_at :: "CChain \<Rightarrow> int \<Rightarrow> bptr option" where
  "chain_at c h = (if h < 0 \<or> h \<ge> int (length c) then None else c ! nat h)"

definition Height :: "CChain \<Rightarrow> int" where
  "Height c = int (length c) - 1"

definition Contains :: "block_store \<Rightarrow> CChain \<Rightarrow> bptr \<Rightarrow> bool option" where
  "Contains st c pindex = map_option (\<lambda>b. chain_at c (nHeight b) = Some pindex) (st pindex)"

definition Next :: "block_store \<Rightarrow> CChain \<Rightarrow> bptr \<Rightarrow> bptr option option" where
  "Next st c pindex =
     (case (Contains st c pindex, st pindex) of
        (Some True, Some b) \<Rightarrow> Some (chain_at c (nHeight b + 1))
      | (Some False, _) \<Rightarrow> Some None
      | _ \<Rightarrow> None)"

text \<open>\<open>vChain.resize(n)\<close>: cut or extend with null pointers.\<close>

definition chain_resize :: "nat \<Rightarrow> CChain \<Rightarrow> CChain" where
  "chain_resize n c = take n c @ replicate (n - length c) None"

text \<open>
  The loop of \<open>SetTip\<close>. It follows \<open>pprev\<close>, so its fuel is the height of the tip plus two;
  running out, an invalid pointer and a write outside \<open>vChain\<close> are \<open>None\<close>.
\<close>

fun set_tip_loop :: "nat \<Rightarrow> block_store \<Rightarrow> CChain \<Rightarrow> bptr option \<Rightarrow> CChain option" where
  "set_tip_loop 0 st c p = None"
| "set_tip_loop (Suc n) st c None = Some c"
| "set_tip_loop (Suc n) st c (Some p) =
     (case st p of
        None \<Rightarrow> None
      | Some b \<Rightarrow>
          if nHeight b < 0 \<or> nHeight b \<ge> int (length c) then None
          else if c ! nat (nHeight b) = Some p then Some c
          else set_tip_loop n st (c[nat (nHeight b) := Some p]) (pprev b))"

definition SetTip :: "block_store \<Rightarrow> CChain \<Rightarrow> bptr option \<Rightarrow> CChain option" where
  "SetTip st c pindex =
     (case pindex of
        None \<Rightarrow> Some []
      | Some p \<Rightarrow>
          (case st p of
             None \<Rightarrow> None
           | Some b \<Rightarrow>
               set_tip_loop (nat (nHeight b) + 2) st (chain_resize (nat (nHeight b + 1)) c) (Some p)))"

fun locator_loop :: "nat \<Rightarrow> block_store \<Rightarrow> CChain \<Rightarrow> int \<Rightarrow> uint256 list \<Rightarrow> bptr option \<Rightarrow> uint256 list option" where
  "locator_loop 0 st c nStep vHave p = None"
| "locator_loop (Suc n) st c nStep vHave None = Some vHave"
| "locator_loop (Suc n) st c nStep vHave (Some p) =
     (case st p of
        None \<Rightarrow> None
      | Some b \<Rightarrow>
          (case GetBlockHash b of
             None \<Rightarrow> None
           | Some hash \<Rightarrow>
               let vHave' = vHave @ [hash]
               in if nHeight b = 0 then Some vHave'
                  else let h = max (nHeight b - nStep) 0
                       in case (if chain_at c (nHeight b) = Some p then Some (chain_at c h) else GetAncestor st p h) of
                            None \<Rightarrow> None
                          | Some q \<Rightarrow>
                              locator_loop n st c (if length vHave' > 10 then nStep * 2 else nStep) vHave' q))"

definition GetLocator :: "block_store \<Rightarrow> CChain \<Rightarrow> bptr option \<Rightarrow> uint256 list option" where
  "GetLocator st c pindex =
     (let p = (case pindex of None \<Rightarrow> Tip c | Some q \<Rightarrow> Some q)
      in case p of
           None \<Rightarrow> Some []
         | Some q \<Rightarrow>
             (case st q of None \<Rightarrow> None
              | Some b \<Rightarrow> locator_loop (nat (nHeight b) + 2) st c 1 [] (Some q)))"

fun fork_loop :: "nat \<Rightarrow> block_store \<Rightarrow> CChain \<Rightarrow> bptr option \<Rightarrow> bptr option option" where
  "fork_loop 0 st c p = None"
| "fork_loop (Suc n) st c None = Some None"
| "fork_loop (Suc n) st c (Some p) =
     (case st p of
        None \<Rightarrow> None
      | Some b \<Rightarrow> if chain_at c (nHeight b) = Some p then Some (Some p) else fork_loop n st c (pprev b))"

definition FindFork :: "block_store \<Rightarrow> CChain \<Rightarrow> bptr option \<Rightarrow> bptr option option" where
  "FindFork st c pindex =
     (case pindex of
        None \<Rightarrow> Some None
      | Some p \<Rightarrow>
          (case st p of
             None \<Rightarrow> None
           | Some b \<Rightarrow>
               (case (if nHeight b > Height c then GetAncestor st p (Height c) else Some (Some p)) of
                  None \<Rightarrow> None
                | Some q \<Rightarrow> fork_loop (nat (nHeight b) + 2) st c q)))"

text \<open>
  \<open>std::lower_bound\<close>: the first position whose entry does not satisfy the predicate, found by
  halving (the library's documented algorithm on random access iterators).
\<close>

function lower_bound :: "('a \<Rightarrow> bool) \<Rightarrow> 'a list \<Rightarrow> nat \<Rightarrow> nat \<Rightarrow> nat" where
  "lower_bound P xs first len =
     (if len = 0 then first
      else let half = len div 2; middle = first + half
           in if P (xs ! middle) then lower_bound P xs (middle + 1) (len - half - 1)
              else lower_bound P xs first half)"
  by pat_completeness auto
termination
  by (relation "measure (\<lambda>(P, xs, first, len). len)") auto

declare lower_bound.simps [simp del]

definition valid_entry :: "block_store \<Rightarrow> bptr option \<Rightarrow> bool" where
  "valid_entry st e = (case e of None \<Rightarrow> False | Some p \<Rightarrow> st p \<noteq> None)"

text \<open>The search dereferences entries of \<open>vChain\<close>; an invalid one is the outer \<open>None\<close>.\<close>

definition FindEarliestAtLeast :: "block_store \<Rightarrow> CChain \<Rightarrow> int \<Rightarrow> int \<Rightarrow> bptr option option" where
  "FindEarliestAtLeast st c nTimeArg height =
     (if \<not> list_all (valid_entry st) c then None
      else let less = (\<lambda>e. let b = the (st (the e)) in GetBlockTimeMax b < nTimeArg \<or> nHeight b < height);
               i = lower_bound less c 0 (length c)
           in Some (if i = length c then None else c ! i))"

fun common_loop :: "nat \<Rightarrow> block_store \<Rightarrow> bptr option \<Rightarrow> bptr option \<Rightarrow> (bptr option \<times> bptr option) option" where
  "common_loop 0 st pa pb = None"
| "common_loop (Suc n) st pa pb =
     (case (pa, pb) of
        (Some a, Some b) \<Rightarrow>
          if a = b then Some (pa, pb)
          else (case (st a, st b) of
                  (Some ea, Some eb) \<Rightarrow> common_loop n st (pprev ea) (pprev eb)
                | _ \<Rightarrow> None)
      | _ \<Rightarrow> Some (pa, pb))"

text \<open>The final \<open>assert(pa == pb)\<close> is the last test.\<close>

definition LastCommonAncestor :: "block_store \<Rightarrow> bptr \<Rightarrow> bptr \<Rightarrow> bptr option option" where
  "LastCommonAncestor st pa pb =
     (case (st pa, st pb) of
        (Some ea, Some eb) \<Rightarrow>
          (case (if nHeight ea > nHeight eb then
                   map_option (\<lambda>x. (x, Some pb)) (GetAncestor st pa (nHeight eb))
                 else if nHeight eb > nHeight ea then
                   map_option (\<lambda>x. (Some pa, x)) (GetAncestor st pb (nHeight ea))
                 else Some (Some pa, Some pb)) of
             None \<Rightarrow> None
           | Some (a, b) \<Rightarrow>
               (case common_loop (nat (nHeight ea) + 2) st a b of
                  None \<Rightarrow> None
                | Some (a', b') \<Rightarrow> if a' = b' then Some a' else None))
      | _ \<Rightarrow> None)"

subsection \<open>Well-formed block stores\<close>

text \<open>The reference notion of ancestor: following \<open>pprev\<close> \<open>n\<close> times.\<close>

fun prev_n :: "block_store \<Rightarrow> nat \<Rightarrow> bptr \<Rightarrow> bptr option" where
  "prev_n st 0 p = Some p"
| "prev_n st (Suc n) p =
     (case st p of None \<Rightarrow> None | Some b \<Rightarrow> (case pprev b of None \<Rightarrow> None | Some q \<Rightarrow> prev_n st n q))"

definition wf_link :: "block_store \<Rightarrow> CBlockIndex \<Rightarrow> bool" where
  "wf_link st b \<longleftrightarrow> phashBlock b \<noteq> None \<and>
     (case pprev b of None \<Rightarrow> nHeight b = 0
      | Some q \<Rightarrow> (case st q of None \<Rightarrow> False | Some c \<Rightarrow> nHeight b = nHeight c + 1)) \<and> 0 \<le> nHeight b"

definition wf_skip :: "block_store \<Rightarrow> bptr \<Rightarrow> CBlockIndex \<Rightarrow> bool" where
  "wf_skip st p b \<longleftrightarrow>
     (case pskip b of None \<Rightarrow> True
      | Some s \<Rightarrow> prev_n st (nat (nHeight b - GetSkipHeight (nHeight b))) p = Some s)"

definition wf_store :: "block_store \<Rightarrow> bool" where
  "wf_store st \<longleftrightarrow> (\<forall>p b. st p = Some b \<longrightarrow> wf_link st b \<and> wf_skip st p b)"

lemma wf_storeD:
  assumes "wf_store st" and "st p = Some b"
  shows "wf_link st b" and "wf_skip st p b" and "0 \<le> nHeight b"
  using assms by (auto simp: wf_store_def wf_link_def)

lemma wf_prevD:
  assumes "wf_store st" and "st p = Some b" and "pprev b = Some q"
  obtains c where "st q = Some c" and "nHeight b = nHeight c + 1"
  using wf_storeD(1) [OF assms(1,2)] assms(3) by (auto simp: wf_link_def split: option.splits)

lemma wf_genesis_prev:
  assumes "wf_store st" and "st p = Some b" and "nHeight b = 0"
  shows "pprev b = None"
proof (rule ccontr)
  assume "pprev b \<noteq> None"
  then obtain q where q: "pprev b = Some q" by auto
  obtain e where "st q = Some e" "nHeight b = nHeight e + 1" by (rule wf_prevD [OF assms(1,2) q])
  then show False using assms(3) wf_storeD(3) [OF assms(1), of q e] by simp
qed

lemma wf_prev_None: "wf_store st \<Longrightarrow> st p = Some b \<Longrightarrow> pprev b = None \<Longrightarrow> nHeight b = 0"
  using wf_storeD(1) [of st p b] by (auto simp: wf_link_def)

lemma wf_prev_Some: 
  assumes "wf_store st" and "st p = Some b" and "0 < nHeight b"
  obtains q c where "pprev b = Some q" and "st q = Some c" and "nHeight b = nHeight c + 1"
proof (cases "pprev b")
  case None
  then show ?thesis using wf_prev_None [OF assms(1,2)] assms(3) by simp
next
  case (Some q)
  then show ?thesis using wf_prevD [OF assms(1,2)] that by blast
qed

lemma prev_n_add: "prev_n st (m + n) p = Option.bind (prev_n st m p) (prev_n st n)"
  by (induction m arbitrary: p) (auto split: option.splits)

lemma prev_n_ex:
  assumes "wf_store st"
  shows "st p = Some b \<Longrightarrow> int n \<le> nHeight b \<Longrightarrow>
    \<exists>q c. prev_n st n p = Some q \<and> st q = Some c \<and> nHeight c = nHeight b - int n"
proof (induction n arbitrary: p b)
  case 0
  then show ?case by simp
next
  case (Suc n)
  from Suc.prems(2) have "0 < nHeight b" by simp
  then obtain q c where q: "pprev b = Some q" "st q = Some c" "nHeight b = nHeight c + 1"
    using wf_prev_Some [OF assms Suc.prems(1)] by blast
  have "int n \<le> nHeight c" using Suc.prems(2) q(3) by simp
  from Suc.IH [OF q(2) this] show ?case using Suc.prems(1) q by auto
qed

lemma prev_n_defined:
  assumes "wf_store st" and "st p = Some b" and "int n \<le> nHeight b"
  obtains q c where "prev_n st n p = Some q" and "st q = Some c" and "nHeight c = nHeight b - int n"
  using prev_n_ex [OF assms] by blast

lemma prev_n_shift:
  assumes "prev_n st m p = Some q" and "m \<le> n"
  shows "prev_n st n p = prev_n st (n - m) q"
  using prev_n_add [of st m "n - m" p] assms by simp

lemma ancestor_walk_value:
  assumes "wf_store st" and "st p = Some b" and "0 \<le> h" and "h \<le> nHeight b"
  shows "ancestor_walk st h p (nHeight b) = prev_n st (nat (nHeight b - h)) p"
  using assms(2,4)
proof (induction "nat (nHeight b)" arbitrary: p b rule: less_induct)
  case (less b p)
  note unfold = ancestor_walk.simps [of st h p "nHeight b"]
  show ?case
  proof (cases "h < nHeight b")
    case False
    then have "h = nHeight b" using less.prems by simp
    then show ?thesis by (subst unfold) simp
  next
    case True
    have pos: "0 < nHeight b" using True assms(3) by simp
    obtain q c where q: "pprev b = Some q" "st q = Some c" "nHeight b = nHeight c + 1"
      using wf_prev_Some [OF assms(1) less.prems(1) pos] by blast
    have prev: "ancestor_walk st h q (nHeight b - 1) = prev_n st (nat (nHeight b - h)) p"
    proof -
      have "ancestor_walk st h q (nHeight c) = prev_n st (nat (nHeight c - h)) q"
        using less.hyps [OF _ q(2)] q(3) True assms(3) by simp
      moreover have "prev_n st 1 p = Some q" using less.prems q by simp
      then have "prev_n st (nat (nHeight b - h)) p = prev_n st (nat (nHeight b - h) - 1) q"
        using True by (intro prev_n_shift) auto
      moreover have "nat (nHeight b - h) - 1 = nat (nHeight c - h)" using q(3) by simp
      ultimately show ?thesis using q(3) by simp
    qed
    have skip: "ancestor_walk st h s (GetSkipHeight (nHeight b)) = prev_n st (nat (nHeight b - h)) p"
      if "pskip b = Some s" and "h \<le> GetSkipHeight (nHeight b)" for s
    proof -
      let ?k = "GetSkipHeight (nHeight b)"
      have k: "0 \<le> ?k" "?k < nHeight b" using GetSkipHeight_bounds [OF pos] by simp_all
      have s: "prev_n st (nat (nHeight b - ?k)) p = Some s"
        using wf_storeD(2) [OF assms(1) less.prems(1)] that(1) by (simp add: wf_skip_def)
      obtain d where d: "st s = Some d" "nHeight d = ?k"
        using prev_n_defined [OF assms(1) less.prems(1), of "nat (nHeight b - ?k)"] s k by auto
      have "ancestor_walk st h s (nHeight d) = prev_n st (nat (nHeight d - h)) s"
        using less.hyps [OF _ d(1)] d(2) k that(2) by simp
      moreover have "prev_n st (nat (nHeight b - h)) p =
          prev_n st (nat (nHeight b - h) - nat (nHeight b - ?k)) s"
        using s that(2) k by (intro prev_n_shift) auto
      moreover have "nat (nHeight b - h) - nat (nHeight b - ?k) = nat (?k - h)"
        using that(2) k by simp
      ultimately show ?thesis using d(2) by simp
    qed
    show ?thesis
      using True assms(3) less.prems(1) q(1) prev skip
      by (subst unfold) (auto simp: Let_def split: option.splits)
  qed
qed

lemma GetAncestor_value:
  assumes "wf_store st" and "st p = Some b"
  shows "GetAncestor st p h =
    Some (if h < 0 \<or> nHeight b < h then None else prev_n st (nat (nHeight b - h)) p)"
proof (cases "h < 0 \<or> nHeight b < h")
  case True
  then show ?thesis using assms(2) by (auto simp: GetAncestor_def)
next
  case False
  then obtain q where "prev_n st (nat (nHeight b - h)) p = Some q"
    using prev_n_defined [OF assms, of "nat (nHeight b - h)"] by auto
  then show ?thesis using False assms ancestor_walk_value [OF assms] by (simp add: GetAncestor_def)
qed

lemma prev_n_cong:
  assumes "\<And>p. map_option pprev (st p) = map_option pprev (st' p)"
  shows "prev_n st n p = prev_n st' n p"
proof (induction n arbitrary: p)
  case 0
  then show ?case by simp
next
  case (Suc n)
  then show ?case using assms [of p] by (cases "st p"; cases "st' p") (auto split: option.splits)
qed

lemma BuildSkip_value:
  assumes "wf_store st" and "st this = Some b" and "pprev b = Some q"
  obtains s where "prev_n st (nat (nHeight b - GetSkipHeight (nHeight b))) this = Some s"
    and "BuildSkip st this = Some (st(this \<mapsto> b\<lparr>pskip := Some s\<rparr>))"
proof -
  obtain c where c: "st q = Some c" "nHeight b = nHeight c + 1" using wf_prevD [OF assms] .
  have pos: "0 < nHeight b" using wf_storeD(3) [OF assms(1) c(1)] c(2) by simp
  let ?k = "GetSkipHeight (nHeight b)"
  have k: "0 \<le> ?k" "?k < nHeight b" using GetSkipHeight_bounds [OF pos] by simp_all
  obtain s where s: "prev_n st (nat (nHeight c - ?k)) q = Some s"
    using prev_n_defined [OF assms(1) c(1), of "nat (nHeight c - ?k)"] k c(2) by auto
  have "prev_n st 1 this = Some q" using assms by simp
  then have "prev_n st (nat (nHeight b - ?k)) this = prev_n st (nat (nHeight b - ?k) - 1) q"
    using k by (intro prev_n_shift) auto
  moreover have "nat (nHeight b - ?k) - 1 = nat (nHeight c - ?k)" using c(2) by simp
  ultimately have "prev_n st (nat (nHeight b - ?k)) this = Some s" using s by simp
  moreover have "GetAncestor st q ?k = Some (Some s)"
    using GetAncestor_value [OF assms(1) c(1)] s k c(2) by simp
  ultimately show ?thesis using that assms by (simp add: BuildSkip_def)
qed

lemma wf_link_set_skip: "wf_link st (b\<lparr>pskip := s\<rparr>) = wf_link st b"
  by (simp add: wf_link_def split: option.split)

lemma wf_store_set_skip:
  assumes wf: "wf_store st" and b: "st this = Some b"
    and s: "prev_n st (nat (nHeight b - GetSkipHeight (nHeight b))) this = Some s"
  shows "wf_store (st(this \<mapsto> b\<lparr>pskip := Some s\<rparr>))"
proof -
  let ?st = "st(this \<mapsto> b\<lparr>pskip := Some s\<rparr>)"
  have prev: "prev_n ?st n p = prev_n st n p" for n p
    using b by (intro prev_n_cong) auto
  have link: "wf_link ?st e" if "wf_link st e" for e
    using that b by (auto simp: wf_link_def split: option.splits)
  have "wf_link ?st e \<and> wf_skip ?st p e" if e: "?st p = Some e" for p e
  proof (cases "p = this")
    case True
    then have "e = b\<lparr>pskip := Some s\<rparr>" using e by simp
    moreover have "wf_link ?st b" using wf_storeD(1) [OF wf b] by (rule link)
    ultimately show ?thesis using True s by (simp only: wf_link_set_skip) (simp add: wf_skip_def prev)
  next
    case False
    then have "st p = Some e" using e by simp
    note D = wf_storeD [OF wf this]
    have "wf_link ?st e" using D(1) by (rule link)
    moreover have "wf_skip ?st p e" using D(2) by (simp only: wf_skip_def prev)
    ultimately show ?thesis ..
  qed
  then show ?thesis by (auto simp: wf_store_def)
qed

subsection \<open>The active chain as a path\<close>

definition link_ok :: "block_store \<Rightarrow> CChain \<Rightarrow> nat \<Rightarrow> bool" where
  "link_ok st c i \<longleftrightarrow>
     (\<exists>q e. c ! i = Some q \<and> st q = Some e \<and> nHeight e = int i \<and> (0 < i \<longrightarrow> pprev e = c ! (i - 1)))"

definition chain_ok :: "block_store \<Rightarrow> CChain \<Rightarrow> bool" where
  "chain_ok st c \<longleftrightarrow> (\<forall>i < length c. link_ok st c i)"

lemma chain_okD:
  assumes "chain_ok st c" and "i < length c"
  obtains q e where "c ! i = Some q" and "st q = Some e" and "nHeight e = int i"
    and "0 < i \<longrightarrow> pprev e = c ! (i - 1)"
  using assms by (auto simp: chain_ok_def link_ok_def)

lemma Contains_iff:
  assumes "chain_ok st c" and "st p = Some b"
  shows "chain_at c (nHeight b) = Some p \<longleftrightarrow> Some p \<in> set c"
proof
  assume "chain_at c (nHeight b) = Some p"
  then have "c ! nat (nHeight b) = Some p" "nat (nHeight b) < length c"
    by (auto simp: chain_at_def split: if_splits)
  then show "Some p \<in> set c" by (metis nth_mem)
next
  assume "Some p \<in> set c"
  then obtain i where i: "i < length c" "c ! i = Some p" by (auto simp: in_set_conv_nth)
  obtain q e where "c ! i = Some q" "st q = Some e" "nHeight e = int i"
    by (rule chain_okD [OF assms(1) i(1)])
  then have "nHeight b = int i" using i(2) assms(2) by simp
  then show "chain_at c (nHeight b) = Some p" using i by (simp add: chain_at_def)
qed

lemma set_tip_loop_ok:
  assumes old: "chain_ok st old" and wf: "wf_store st"
  shows "st p = Some b \<Longrightarrow> nHeight b = int h \<Longrightarrow> h < length c \<Longrightarrow> h + 2 \<le> n \<Longrightarrow>
    (\<And>i. h + 1 < i \<Longrightarrow> i < length c \<Longrightarrow> link_ok st c i) \<Longrightarrow>
    (h + 1 < length c \<Longrightarrow> \<exists>q e. c ! (h + 1) = Some q \<and> st q = Some e \<and> nHeight e = int (h + 1) \<and> pprev e = Some p) \<Longrightarrow>
    (\<And>i. i \<le> h \<Longrightarrow> c ! i = None \<or> i < length old \<and> (\<forall>j \<le> i. c ! j = old ! j)) \<Longrightarrow>
    \<exists>c'. set_tip_loop n st c (Some p) = Some c' \<and> chain_ok st c' \<and> length c' = length c \<and>
      (\<forall>i > h. c' ! i = c ! i) \<and> c' ! h = Some p"
proof (induction h arbitrary: p b c n)
  case (0 p b c n)
  from 0(4) obtain m where n: "n = Suc (Suc m)" by (metis add_2_eq_Suc add_cancel_left_left le_Suc_ex)
  have pp: "pprev b = None" using wf_genesis_prev [OF wf 0(1)] 0(2) by simp
  let ?c = "c[0 := Some p]"
  have "set_tip_loop n st c (Some p) = Some ?c"
    using 0(1,2,3) pp n by (cases "c ! 0 = Some p") (simp_all add: list_update_same_conv [THEN iffD2])
  moreover have "link_ok st ?c i" if "i < length c" for i
  proof -
    consider "i = 0" | "i = 1" | "1 < i" by linarith
    then show ?thesis
    proof cases
      case 1
      then show ?thesis using 0(1,2,3) by (auto simp: link_ok_def)
    next
      case 2
      then show ?thesis using 0(3,6) that by (auto simp: link_ok_def)
    next
      case 3
      then show ?thesis using 0(5) [of i] that by (auto simp: link_ok_def)
    qed
  qed
  ultimately show ?case using 0(3) by (auto simp: chain_ok_def)
next
  case (Suc h p b c n)
  from Suc.prems(4) obtain m where n: "n = Suc m" "h + 2 \<le> m" by (cases n) auto
  have nh: "nat (nHeight b) = Suc h" and rng: "\<not> nHeight b < 0" "\<not> int (length c) \<le> nHeight b"
    using Suc.prems(2,3) by simp_all
  show ?case
  proof (cases "c ! Suc h = Some p")
    case True
    have eq: "Suc h < length old" "\<And>j. j \<le> Suc h \<Longrightarrow> c ! j = old ! j"
      using Suc.prems(7) [of "Suc h"] True by auto
    have "link_ok st c i" if "i < length c" for i
    proof -
      consider "i \<le> Suc h" | "i = Suc h + 1" | "Suc h + 1 < i" by linarith
      then show ?thesis
      proof cases
        case 1
        then have "link_ok st old i" using old eq(1) by (simp add: chain_ok_def)
        then show ?thesis using 1 eq(2) by (simp add: link_ok_def)
      next
        case 2
        then show ?thesis using Suc.prems(6) that True by (auto simp: link_ok_def)
      next
        case 3
        then show ?thesis using Suc.prems(5) that by blast
      qed
    qed
    then have "chain_ok st c" by (simp add: chain_ok_def)
    moreover have "set_tip_loop n st c (Some p) = Some c" using True n(1) Suc.prems(1) by (simp add: nh rng)
    ultimately show ?thesis using True by blast
  next
    case False
    have "0 < nHeight b" using Suc.prems(2) by simp
    then obtain q e where q: "pprev b = Some q" "st q = Some e" "nHeight b = nHeight e + 1"
      using wf_prev_Some [OF wf Suc.prems(1)] by blast
    let ?c = "c[Suc h := Some p]"
    have step: "set_tip_loop n st c (Some p) = set_tip_loop m st ?c (Some q)"
      using False n(1) Suc.prems(1) q(1) by (simp add: nh rng)
    have "\<exists>c'. set_tip_loop m st ?c (Some q) = Some c' \<and> chain_ok st c' \<and> length c' = length ?c \<and>
        (\<forall>i > h. c' ! i = ?c ! i) \<and> c' ! h = Some q"
    proof (rule Suc.IH [OF q(2)])
      show "nHeight e = int h" using q(3) Suc.prems(2) by simp
      show "h < length ?c" "h + 2 \<le> m" using Suc.prems(3) n by simp_all
      show "link_ok st ?c i" if "h + 1 < i" "i < length ?c" for i
      proof (cases "i = Suc h + 1")
        case True
        then show ?thesis using Suc.prems(3,6) that(2) by (auto simp: link_ok_def)
      next
        case F: False
        then show ?thesis using Suc.prems(5) [of i] that by (auto simp: link_ok_def)
      qed
      show "\<exists>q' e'. ?c ! (h + 1) = Some q' \<and> st q' = Some e' \<and> nHeight e' = int (h + 1) \<and> pprev e' = Some q"
        if "h + 1 < length ?c" using that Suc.prems(1,2) q(1) by simp
      show "?c ! i = None \<or> i < length old \<and> (\<forall>j \<le> i. ?c ! j = old ! j)" if "i \<le> h" for i
        using Suc.prems(7) [of i] that by auto
    qed
    then show ?thesis using step Suc.prems(3) by auto
  qed
qed

lemma SetTip_ok:
  assumes "wf_store st" and "chain_ok st c" and "st p = Some b"
  obtains c' where "SetTip st c (Some p) = Some c'" and "chain_ok st c'"
    and "int (length c') = nHeight b + 1" and "Tip c' = Some p"
proof -
  define h where "h = nat (nHeight b)"
  have h: "nHeight b = int h" using wf_storeD(3) [OF assms(1,3)] by (simp add: h_def)
  let ?c = "chain_resize (Suc h) c"
  have len: "length ?c = Suc h" by (simp add: chain_resize_def)
  have old: "?c ! i = None \<or> i < length c \<and> (\<forall>j \<le> i. ?c ! j = c ! j)" if "i \<le> h" for i
    using that by (cases "i < length c") (auto simp: chain_resize_def nth_append)
  obtain c' where c': "set_tip_loop (h + 2) st ?c (Some p) = Some c'" "chain_ok st c'"
      "length c' = length ?c" "c' ! h = Some p"
    using set_tip_loop_ok [OF assms(2,1,3) h, of ?c "h + 2"] old len by auto
  have "nat (nHeight b + 1) = Suc h" using h by simp
  then have "SetTip st c (Some p) = Some c'" using c'(1) assms(3) h by (simp add: SetTip_def)
  moreover have "Tip c' = Some p" using c'(3,4) len by (auto simp: Tip_def)
  ultimately show ?thesis using that c'(2,3) len h by simp
qed

subsection \<open>Forks and common ancestors\<close>

lemma prev_n_height:
  assumes "wf_store st" and "st p = Some b" and "prev_n st n p = Some q"
  shows "int n \<le> nHeight b" and "\<exists>c. st q = Some c \<and> nHeight c = nHeight b - int n"
proof -
  have "int n \<le> nHeight b \<and> (\<exists>c. st q = Some c \<and> nHeight c = nHeight b - int n)"
    using assms(2,3)
  proof (induction n arbitrary: p b)
    case 0
    then show ?case using wf_storeD(3) [OF assms(1), of p b] by auto
  next
    case (Suc n)
    then obtain r where r: "pprev b = Some r" "prev_n st n r = Some q" by (auto split: option.splits)
    obtain d where d: "st r = Some d" "nHeight b = nHeight d + 1"
      using wf_prevD [OF assms(1) Suc.prems(1) r(1)] .
    show ?case using Suc.IH [OF d(1) r(2)] d(2) by auto
  qed
  then show "int n \<le> nHeight b" "\<exists>c. st q = Some c \<and> nHeight c = nHeight b - int n" by simp_all
qed

text \<open>The last ancestor of \<open>p\<close> (itself included) on the chain, if there is one.\<close>

definition fork_point :: "block_store \<Rightarrow> CChain \<Rightarrow> bptr \<Rightarrow> bptr option \<Rightarrow> bool" where
  "fork_point st c p r \<longleftrightarrow>
     (case r of
        None \<Rightarrow> \<forall>m q. prev_n st m p = Some q \<longrightarrow> Some q \<notin> set c
      | Some q \<Rightarrow> \<exists>m. prev_n st m p = Some q \<and> Some q \<in> set c \<and>
          (\<forall>k < m. \<forall>q'. prev_n st k p = Some q' \<longrightarrow> Some q' \<notin> set c))"

lemma fork_point_here: "Some p \<in> set c \<Longrightarrow> fork_point st c p (Some p)"
  by (auto simp: fork_point_def intro!: exI [of _ 0])

lemma fork_point_back:
  assumes q: "prev_n st d p = Some q" and out: "\<And>k q'. k < d \<Longrightarrow> prev_n st k p = Some q' \<Longrightarrow> Some q' \<notin> set c"
    and r: "fork_point st c q r"
  shows "fork_point st c p r"
proof -
  have shift: "prev_n st n p = prev_n st (n - d) q" if "d \<le> n" for n using q that by (rule prev_n_shift)
  have outside: "Some q' \<notin> set c"
    if "prev_n st k p = Some q'" "\<And>j. k = d + j \<Longrightarrow> prev_n st j q = Some q' \<Longrightarrow> Some q' \<notin> set c" for k q'
    using that(1) out [of k q'] shift [of k] that(2) [of "k - d"] by (cases "k < d") auto
  show ?thesis
  proof (cases r)
    case None
    then show ?thesis using r outside by (auto simp: fork_point_def)
  next
    case (Some x)
    then obtain j where j: "prev_n st j q = Some x" "Some x \<in> set c"
      "\<And>k q'. k < j \<Longrightarrow> prev_n st k q = Some q' \<Longrightarrow> Some q' \<notin> set c" using r by (auto simp: fork_point_def)
    have "prev_n st (d + j) p = Some x" using shift [of "d + j"] j(1) by simp
    moreover have "Some q' \<notin> set c" if "k < d + j" "prev_n st k p = Some q'" for k q'
      by (rule outside [OF that(2)]) (use j(3) that(1) in auto)
    ultimately have "\<exists>m. prev_n st m p = Some x \<and> (\<forall>k < m. \<forall>q'. prev_n st k p = Some q' \<longrightarrow> Some q' \<notin> set c)"
      by blast
    then show ?thesis using Some j(2) by (simp add: fork_point_def)
  qed
qed

lemma fork_loop_value:
  assumes wf: "wf_store st" and c: "chain_ok st c"
  shows "st p = Some b \<Longrightarrow> nHeight b = int h \<Longrightarrow> h + 2 \<le> n \<Longrightarrow>
    \<exists>r. fork_loop n st c (Some p) = Some r \<and> fork_point st c p r"
proof (induction h arbitrary: p b n)
  case (0 p b n)
  then obtain m where n: "n = Suc (Suc m)" by (metis add_2_eq_Suc add_cancel_left_left le_Suc_ex)
  have pp: "pprev b = None" using wf_genesis_prev [OF wf 0(1)] 0(2) by simp
  show ?case
  proof (cases "Some p \<in> set c")
    case True
    then show ?thesis using n 0(1) Contains_iff [OF c 0(1)] by (simp add: fork_point_here)
  next
    case False
    have "Some q \<notin> set c" if "prev_n st m p = Some q" for m q
      using that False 0(1) pp by (cases m) auto
    then show ?thesis using False n 0(1) Contains_iff [OF c 0(1)] pp by (simp add: fork_point_def)
  qed
next
  case (Suc h p b n)
  then obtain m where n: "n = Suc m" "h + 2 \<le> m" by (cases n) auto
  have "0 < nHeight b" using Suc.prems(2) by simp
  then obtain q e where q: "pprev b = Some q" "st q = Some e" "nHeight b = nHeight e + 1"
    by (rule wf_prev_Some [OF wf Suc.prems(1)])
  show ?case
  proof (cases "Some p \<in> set c")
    case True
    then show ?thesis using n Suc.prems(1) Contains_iff [OF c Suc.prems(1)] by (simp add: fork_point_here)
  next
    case False
    have "nHeight e = int h" using q(3) Suc.prems(2) by simp
    from Suc.IH [OF q(2) this n(2)] obtain r where r: "fork_loop m st c (Some q) = Some r" "fork_point st c q r"
      by blast
    have "prev_n st 1 p = Some q" using Suc.prems(1) q(1) by simp
    then have "fork_point st c p r" by (rule fork_point_back [OF _ _ r(2)]) (use False in auto)
    then show ?thesis using n(1) Suc.prems(1) Contains_iff [OF c Suc.prems(1)] q(1) False r(1) by simp
  qed
qed

lemma chain_set_height:
  assumes "chain_ok st c" and "Some q \<in> set c" and "st q = Some e"
  shows "nHeight e \<le> Height c"
proof -
  have "chain_at c (nHeight e) = Some q" using Contains_iff [OF assms(1,3)] assms(2) by simp
  then show ?thesis by (auto simp: chain_at_def Height_def split: if_splits)
qed

lemma FindFork_value:
  assumes wf: "wf_store st" and c: "chain_ok st c" and p: "st p = Some b"
  obtains r where "FindFork st c (Some p) = Some r" and "fork_point st c p r"
proof (cases "nHeight b > Height c")
  case False
  have "nHeight b = int (nat (nHeight b))" using wf_storeD(3) [OF wf p] by simp
  from fork_loop_value [OF wf c p this order_refl] show ?thesis using that False p by (auto simp: FindFork_def)
next
  case high: True
  show ?thesis
  proof (cases "c = []")
    case True
    then have "Height c = -1" by (simp add: Height_def)
    then have "GetAncestor st p (Height c) = Some None" using p by (simp add: GetAncestor_def)
    then have "FindFork st c (Some p) = Some None" using high p by (simp add: FindFork_def)
    moreover have "fork_point st c p None" using True by (simp add: fork_point_def)
    ultimately show ?thesis by (rule that)
  next
    case False
    then have h0: "0 \<le> Height c" by (cases c) (simp_all add: Height_def)
    let ?d = "nat (nHeight b - Height c)"
    obtain q where q: "prev_n st ?d p = Some q"
      using prev_n_ex [OF wf p, of ?d] h0 high by auto
    obtain e where e: "st q = Some e" "nHeight e = Height c" using prev_n_height(2) [OF wf p q] high by auto
    have "GetAncestor st p (Height c) = Some (Some q)"
      using GetAncestor_value [OF wf p] h0 high q by simp
    moreover have "nat (Height c) + 2 \<le> nat (nHeight b) + 2" using high by simp
    then obtain r where r: "fork_loop (nat (nHeight b) + 2) st c (Some q) = Some r" "fork_point st c q r"
      using fork_loop_value [OF wf c e(1), of "nat (Height c)" "nat (nHeight b) + 2"] e(2) h0
      by (auto simp del: fork_loop.simps)
    ultimately have "FindFork st c (Some p) = Some r" using high p by (simp add: FindFork_def)
    moreover have "fork_point st c p r"
    proof (rule fork_point_back [OF q _ r(2)])
      fix k q' assume k: "k < ?d" "prev_n st k p = Some q'"
      then obtain e' where e': "st q' = Some e'" "nHeight e' = nHeight b - int k"
        using prev_n_height(2) [OF wf p] by blast
      show "Some q' \<notin> set c"
      proof
        assume "Some q' \<in> set c"
        then have "nHeight e' \<le> Height c" by (rule chain_set_height [OF c _ e'(1)])
        then show False using e'(2) k(1) by simp
      qed
    qed
    ultimately show ?thesis by (rule that)
  qed
qed

text \<open>The nearest pair of ancestors at equal depth that coincide.\<close>

definition meet_point :: "block_store \<Rightarrow> bptr \<Rightarrow> bptr \<Rightarrow> bptr option \<Rightarrow> bool" where
  "meet_point st a b r \<longleftrightarrow>
     (case r of
        None \<Rightarrow> \<forall>k q. \<not> (prev_n st k a = Some q \<and> prev_n st k b = Some q)
      | Some q \<Rightarrow> \<exists>k. prev_n st k a = Some q \<and> prev_n st k b = Some q \<and>
          (\<forall>j < k. prev_n st j a \<noteq> prev_n st j b))"

lemma common_loop_value:
  assumes wf: "wf_store st"
  shows "st a = Some ea \<Longrightarrow> st b = Some eb \<Longrightarrow> nHeight ea = int h \<Longrightarrow> nHeight eb = int h \<Longrightarrow> h + 2 \<le> n \<Longrightarrow>
    \<exists>r. common_loop n st (Some a) (Some b) = Some (r, r) \<and> meet_point st a b r"
proof (induction h arbitrary: a b ea eb n)
  case (0 a b ea eb n)
  then obtain m where n: "n = Suc (Suc m)" by (metis add_2_eq_Suc add_cancel_left_left le_Suc_ex)
  have p: "pprev ea = None" "pprev eb = None" using wf_genesis_prev [OF wf] 0 by auto
  show ?case
  proof (cases "a = b")
    case True
    then show ?thesis using n by (auto simp: meet_point_def intro!: exI [of _ 0])
  next
    case False
    have "\<not> (prev_n st k a = Some q \<and> prev_n st k b = Some q)" for k q
      using False 0(1,2) p by (cases k) auto
    then show ?thesis using False 0(1,2) p n by (simp add: meet_point_def)
  qed
next
  case (Suc h a b ea eb n)
  then obtain m where n: "n = Suc m" "h + 2 \<le> m" by (cases n) auto
  have "0 < nHeight ea" "0 < nHeight eb" using Suc.prems(3,4) by simp_all
  then obtain a' ea' b' eb' where q: "pprev ea = Some a'" "st a' = Some ea'" "nHeight ea = nHeight ea' + 1"
      "pprev eb = Some b'" "st b' = Some eb'" "nHeight eb = nHeight eb' + 1"
    using wf_prev_Some [OF wf Suc.prems(1)] wf_prev_Some [OF wf Suc.prems(2)] by metis
  show ?case
  proof (cases "a = b")
    case True
    then show ?thesis using n by (auto simp: meet_point_def intro!: exI [of _ 0])
  next
    case False
    have "nHeight ea' = int h" "nHeight eb' = int h" using q(3,6) Suc.prems(3,4) by simp_all
    from Suc.IH [OF q(2,5) this n(2)] obtain r where
      r: "common_loop m st (Some a') (Some b') = Some (r, r)" "meet_point st a' b' r" by blast
    have prev: "prev_n st (Suc k) a = prev_n st k a'" "prev_n st (Suc k) b = prev_n st k b'" for k
      using Suc.prems(1,2) q(1,4) by simp_all
    have "meet_point st a b r"
    proof (cases r)
      case None
      have "\<not> (prev_n st k a = Some q \<and> prev_n st k b = Some q)" for k q
        using False r(2) None prev by (cases k) (auto simp: meet_point_def)
      then show ?thesis using None by (simp add: meet_point_def)
    next
      case (Some x)
      then obtain k where k: "prev_n st k a' = Some x" "prev_n st k b' = Some x"
        "\<And>j. j < k \<Longrightarrow> prev_n st j a' \<noteq> prev_n st j b'" using r(2) by (auto simp: meet_point_def)
      have "prev_n st j a \<noteq> prev_n st j b" if "j < Suc k" for j
        using that k(3) prev False by (cases j) auto
      moreover have "prev_n st (Suc k) a = Some x" "prev_n st (Suc k) b = Some x" by (simp_all only: prev k(1,2))
      ultimately show ?thesis unfolding Some meet_point_def option.case by blast
    qed
    then show ?thesis using n(1) False Suc.prems(1,2) q(1,4) r(1) by simp
  qed
qed

text \<open>Two entries' ancestors at one height.\<close>

definition ancestor_at :: "block_store \<Rightarrow> bptr \<Rightarrow> int \<Rightarrow> bptr option" where
  "ancestor_at st p h =
     (case st p of None \<Rightarrow> None
      | Some b \<Rightarrow> if 0 \<le> h \<and> h \<le> nHeight b then prev_n st (nat (nHeight b - h)) p else None)"

lemma ancestor_at_prev:
  assumes "wf_store st" and "st p = Some b" and "prev_n st k p = Some q"
  shows "ancestor_at st p (nHeight b - int k) = Some q"
  using prev_n_height(1) [OF assms] assms by (simp add: ancestor_at_def)

lemma ancestor_at_trans:
  assumes wf: "wf_store st" and "st p = Some b" and q: "ancestor_at st p h = Some q" and "h' \<le> h"
  shows "ancestor_at st q h' = ancestor_at st p h'"
proof -
  have h: "0 \<le> h" "h \<le> nHeight b" "prev_n st (nat (nHeight b - h)) p = Some q"
    using q assms(2) by (auto simp: ancestor_at_def split: if_splits)
  obtain e where e: "st q = Some e" "nHeight e = h" using prev_n_height(2) [OF wf assms(2) h(3)] h by auto
  show ?thesis
  proof (cases "0 \<le> h'")
    case True
    have "prev_n st (nat (nHeight b - h')) p = prev_n st (nat (nHeight b - h') - nat (nHeight b - h)) q"
      using h(3) by (rule prev_n_shift) (use assms(4) in simp)
    moreover have "nat (nHeight b - h') - nat (nHeight b - h) = nat (h - h')" using h(2) assms(4) by simp
    ultimately show ?thesis using True e assms h by (simp add: ancestor_at_def)
  next
    case False
    then show ?thesis using e assms(2) by (simp add: ancestor_at_def)
  qed
qed

text \<open>The highest entry that is an ancestor of both.\<close>

definition common_ancestor :: "block_store \<Rightarrow> bptr \<Rightarrow> bptr \<Rightarrow> int \<Rightarrow> bptr \<Rightarrow> bool" where
  "common_ancestor st a b h q \<longleftrightarrow> ancestor_at st a h = Some q \<and> ancestor_at st b h = Some q"

definition last_common :: "block_store \<Rightarrow> bptr \<Rightarrow> bptr \<Rightarrow> bptr option \<Rightarrow> bool" where
  "last_common st a b r \<longleftrightarrow>
     (case r of
        None \<Rightarrow> \<forall>h q. \<not> common_ancestor st a b h q
      | Some q \<Rightarrow> \<exists>h. common_ancestor st a b h q \<and> (\<forall>h' q'. common_ancestor st a b h' q' \<longrightarrow> h' \<le> h))"

lemma common_ancestor_commute: "common_ancestor st a b = common_ancestor st b a"
  by (intro ext) (auto simp: common_ancestor_def)

lemma meet_point_last_common:
  assumes wf: "wf_store st" and a: "st a = Some ea" and b: "st b = Some eb" and h: "nHeight ea = nHeight eb"
    and r: "meet_point st a b r"
  shows "last_common st a b r"
proof -
  have depth: "prev_n st (nat (nHeight ea - h')) a = Some q'" "prev_n st (nat (nHeight ea - h')) b = Some q'"
    if "ancestor_at st a h' = Some q'" "ancestor_at st b h' = Some q'" for h' q'
    using that a b h by (auto simp: ancestor_at_def split: if_splits)
  show ?thesis
  proof (cases r)
    case None
    then show ?thesis using r depth unfolding last_common_def meet_point_def common_ancestor_def by fastforce
  next
    case (Some q)
    then obtain k where k: "prev_n st k a = Some q" "prev_n st k b = Some q"
      "\<And>j. j < k \<Longrightarrow> prev_n st j a \<noteq> prev_n st j b" using r by (auto simp: meet_point_def)
    let ?h = "nHeight ea - int k"
    have "ancestor_at st a ?h = Some q" "ancestor_at st b ?h = Some q"
      using ancestor_at_prev [OF wf a k(1)] ancestor_at_prev [OF wf b k(2)] h by simp_all
    moreover have "h' \<le> ?h" if "ancestor_at st a h' = Some q'" "ancestor_at st b h' = Some q'" for h' q'
    proof -
      have "\<not> nat (nHeight ea - h') < k" using k(3) [of "nat (nHeight ea - h')"] depth [OF that] by auto
      moreover have "h' \<le> nHeight ea" using that(1) a by (auto simp: ancestor_at_def split: if_splits)
      ultimately show ?thesis by simp
    qed
    ultimately show ?thesis using Some by (auto simp: last_common_def common_ancestor_def)
  qed
qed

lemma last_common_back:
  assumes wf: "wf_store st" and a: "st a = Some ea" and b: "st b = Some eb"
    and q: "ancestor_at st a (nHeight eb) = Some a'" and r: "last_common st a' b r"
  shows "last_common st a b r" and "last_common st b a r"
proof -
  have "common_ancestor st a b h x = common_ancestor st a' b h x" for h x
  proof (cases "h \<le> nHeight eb")
    case True
    then show ?thesis using ancestor_at_trans [OF wf a q True] by (simp add: common_ancestor_def)
  next
    case False
    then have "ancestor_at st b h = None" using b by (simp add: ancestor_at_def)
    then show ?thesis by (simp add: common_ancestor_def)
  qed
  then have "common_ancestor st a b = common_ancestor st a' b" by (intro ext)
  then show "last_common st a b r" using r by (simp only: last_common_def)
  then show "last_common st b a r" by (simp only: last_common_def common_ancestor_commute [of st b a])
qed

lemma ancestor_at_ex:
  assumes "wf_store st" and "st p = Some b" and "0 \<le> h" and "h \<le> nHeight b"
  obtains q e where "ancestor_at st p h = Some q" and "GetAncestor st p h = Some (Some q)"
    and "st q = Some e" and "nHeight e = h"
proof -
  obtain q e where "prev_n st (nat (nHeight b - h)) p = Some q" "st q = Some e"
      "nHeight e = nHeight b - int (nat (nHeight b - h))"
    using prev_n_ex [OF assms(1,2), of "nat (nHeight b - h)"] assms(3,4) by auto
  then show ?thesis using that GetAncestor_value [OF assms(1,2)] assms(2-4)
    by (simp add: ancestor_at_def)
qed

lemma LastCommonAncestor_value:
  assumes wf: "wf_store st" and a: "st pa = Some ea" and b: "st pb = Some eb"
  obtains r where "LastCommonAncestor st pa pb = Some r" and "last_common st pa pb r"
proof -
  note h0 = wf_storeD(3) [OF wf a] wf_storeD(3) [OF wf b]
  have loop: "\<exists>r. common_loop (nat (nHeight ea) + 2) st (Some x) (Some y) = Some (r, r) \<and> last_common st x y r"
    if e: "st x = Some ex" "st y = Some ey" "nHeight ex = nHeight ey" "nHeight ex \<le> nHeight ea" for x y ex ey
  proof -
    have "nHeight ex = int (nat (nHeight ex))" "nHeight ey = int (nat (nHeight ex))"
      using wf_storeD(3) [OF wf e(1)] e(3) by simp_all
    moreover have "nat (nHeight ex) + 2 \<le> nat (nHeight ea) + 2" using e(4) by simp
    ultimately obtain r where "common_loop (nat (nHeight ea) + 2) st (Some x) (Some y) = Some (r, r)"
        "meet_point st x y r"
      using common_loop_value [OF wf e(1,2)] by blast
    then show ?thesis using meet_point_last_common [OF wf e(1-3)] by blast
  qed
  consider "nHeight ea > nHeight eb" | "nHeight eb > nHeight ea" | "nHeight ea = nHeight eb" by linarith
  then show ?thesis
  proof cases
    case 1
    obtain q e where q: "ancestor_at st pa (nHeight eb) = Some q"
        "GetAncestor st pa (nHeight eb) = Some (Some q)" "st q = Some e" "nHeight e = nHeight eb"
      by (rule ancestor_at_ex [OF wf a h0(2)]) (use 1 in simp)
    obtain r where r: "common_loop (nat (nHeight ea) + 2) st (Some q) (Some pb) = Some (r, r)" "last_common st q pb r"
      using loop [OF q(3) b q(4)] q(4) 1 by auto
    show ?thesis
      by (rule that [OF _ last_common_back(1) [OF wf a b q(1) r(2)]]) (use 1 a b q(2) r(1) in \<open>simp add: LastCommonAncestor_def\<close>)
  next
    case 2
    obtain q e where q: "ancestor_at st pb (nHeight ea) = Some q"
        "GetAncestor st pb (nHeight ea) = Some (Some q)" "st q = Some e" "nHeight e = nHeight ea"
      by (rule ancestor_at_ex [OF wf b h0(1)]) (use 2 in simp)
    obtain r where r: "common_loop (nat (nHeight ea) + 2) st (Some pa) (Some q) = Some (r, r)" "last_common st pa q r"
      using loop [OF a q(3)] q(4) by auto
    have "last_common st q pa r" using r(2) by (simp only: last_common_def common_ancestor_commute [of st q pa])
    then show ?thesis
      by (intro that [OF _ last_common_back(2) [OF wf b a q(1)]]) (use 2 a b q(2) r(1) in \<open>simp add: LastCommonAncestor_def\<close>)
  next
    case 3
    then show ?thesis using loop [OF a b 3] that a b by (auto simp: LastCommonAncestor_def)
  qed
qed

subsection \<open>Locators\<close>

lemma chain_at_ancestor:
  assumes wf: "wf_store st" and c: "chain_ok st c" and p: "st p = Some b"
    and "chain_at c (nHeight b) = Some p" and "0 \<le> h" and "h \<le> nHeight b"
  shows "chain_at c h = ancestor_at st p h"
proof -
  have len: "nHeight b < int (length c)" "0 \<le> nHeight b" "c ! nat (nHeight b) = Some p"
    using assms(4) by (auto simp: chain_at_def split: if_splits)
  have "prev_n st k p = c ! (nat (nHeight b) - k)" if "k \<le> nat (nHeight b)" for k
    using that
  proof (induction k)
    case 0
    then show ?case using len(3) by simp
  next
    case (Suc k)
    let ?i = "nat (nHeight b) - k"
    have i: "?i < length c" "0 < ?i" using Suc.prems len by simp_all
    obtain q e where q: "c ! ?i = Some q" "st q = Some e" "0 < ?i \<longrightarrow> pprev e = c ! (?i - 1)"
      by (rule chain_okD [OF c i(1)])
    obtain r where r: "c ! (?i - 1) = Some r"
      by (rule chain_okD [OF c, of "?i - 1"]) (use i in auto)
    have "prev_n st k p = Some q" using Suc q(1) by simp
    then have "prev_n st (Suc k) p = prev_n st 1 q" using prev_n_add [of st k 1 p] by simp
    also have "\<dots> = Some r" using q(2,3) i(2) r by simp
    finally show ?case using r by simp
  qed
  from this [of "nat (nHeight b - h)"] show ?thesis
    using assms(5,6) len p by (simp add: ancestor_at_def chain_at_def nat_diff_distrib)
qed

lemma locator_step:
  assumes wf: "wf_store st" and c: "chain_ok st c" and p: "st p = Some b" and h: "0 \<le> h" "h \<le> nHeight b"
  obtains q e where "(if chain_at c (nHeight b) = Some p then Some (chain_at c h) else GetAncestor st p h) = Some (Some q)"
    and "ancestor_at st p h = Some q" and "st q = Some e" and "nHeight e = h"
proof -
  obtain q e where "ancestor_at st p h = Some q" "GetAncestor st p h = Some (Some q)" "st q = Some e" "nHeight e = h"
    by (rule ancestor_at_ex [OF wf p h])
  then show ?thesis using that chain_at_ancestor [OF wf c p _ h] by simp
qed

text \<open>
  The hashes of a descending sequence of ancestors: from \<open>p\<close> down to height 0.
\<close>

fun locator_path :: "block_store \<Rightarrow> bptr \<Rightarrow> uint256 list \<Rightarrow> bool" where
  "locator_path st p [] = False"
| "locator_path st p [x] = (\<exists>b. st p = Some b \<and> GetBlockHash b = Some x \<and> nHeight b = 0)"
| "locator_path st p (x # y # ys) =
     (\<exists>b h q. st p = Some b \<and> GetBlockHash b = Some x \<and> 0 \<le> h \<and> h < nHeight b \<and>
        ancestor_at st p h = Some q \<and> locator_path st q (y # ys))"

lemma locator_path_Cons:
  assumes "st p = Some b" and "GetBlockHash b = Some x" and "0 \<le> h" and "h < nHeight b"
    and "ancestor_at st p h = Some q" and "locator_path st q ys"
  shows "locator_path st p (x # ys)"
  using assms by (cases ys) auto

lemma locator_loop_value:
  assumes wf: "wf_store st" and c: "chain_ok st c"
  shows "st p = Some b \<Longrightarrow> nHeight b = int h \<Longrightarrow> h + 2 \<le> n \<Longrightarrow> 1 \<le> k \<Longrightarrow>
    \<exists>ys. locator_loop n st c k vs (Some p) = Some (vs @ ys) \<and> locator_path st p ys"
proof (induction h arbitrary: p b n k vs rule: less_induct)
  case (less h p b n k vs)
  then obtain m where n: "n = Suc m" "h + 1 \<le> m" by (cases n) auto
  obtain x where x: "GetBlockHash b = Some x" using wf_storeD(1) [OF wf less.prems(1)] by (auto simp: wf_link_def GetBlockHash_def)
  show ?case
  proof (cases "nHeight b = 0")
    case True
    then show ?thesis using less.prems(1) n x by (auto simp: Let_def)
  next
    case False
    let ?h = "max (nHeight b - k) 0"
    have h: "0 \<le> ?h" "?h < nHeight b" using False less.prems(2,4) by auto
    obtain q e where q: "(if chain_at c (nHeight b) = Some p then Some (chain_at c ?h) else GetAncestor st p ?h) = Some (Some q)"
        "ancestor_at st p ?h = Some q" "st q = Some e" "nHeight e = ?h"
      by (rule locator_step [OF wf c less.prems(1) h(1)]) (use h(2) in simp)
    let ?k = "if length (vs @ [x]) > 10 then k * 2 else k"
    have lt: "nat ?h < h" using h less.prems(2) nat_less_iff [OF h(1), of h] by (simp only:)
    have "\<exists>ys. locator_loop m st c ?k (vs @ [x]) (Some q) = Some ((vs @ [x]) @ ys) \<and> locator_path st q ys"
      by (rule less.IH [OF lt q(3)]) (use q(4) h(1) lt n(2) less.prems(4) in auto)
    then obtain ys where ys: "locator_loop m st c ?k (vs @ [x]) (Some q) = Some (vs @ x # ys)"
        "locator_path st q ys" by auto
    have "locator_loop n st c k vs (Some p) = Some (vs @ x # ys)"
      unfolding n(1) locator_loop.simps less.prems(1) x option.case Let_def q(1) using False ys(1) by simp
    moreover have "locator_path st p (x # ys)"
      by (rule locator_path_Cons [OF less.prems(1) x h q(2) ys(2)])
    ultimately show ?thesis by blast
  qed
qed

lemma GetLocator_value:
  assumes wf: "wf_store st" and c: "chain_ok st c" and p: "st p = Some b"
  obtains ys where "GetLocator st c (Some p) = Some ys" and "locator_path st p ys"
proof -
  have "nHeight b = int (nat (nHeight b))" using wf_storeD(3) [OF wf p] by simp
  from locator_loop_value [OF wf c p this order_refl, of 1 "[]"] obtain ys where
    "locator_loop (nat (nHeight b) + 2) st c 1 [] (Some p) = Some ys" "locator_path st p ys"
    by (auto simp del: locator_loop.simps)
  then show ?thesis using that p by (simp add: GetLocator_def del: locator_loop.simps)
qed

subsection \<open>Work behind a target\<close>

lemma SetCompact_not_max: 
  assumes "SetCompact n = (t, neg, ovf)"
  shows "uval t + 1 < 2 ^ 256"
proof (cases "compact_size n \<le> 3")
  case True
  then have "uval t = compact_mantissa n div 256 ^ (3 - compact_size n)" using SetCompact_value(2) [OF assms] by simp
  also have "\<dots> \<le> compact_mantissa n" by (rule div_le_dividend)
  also have "\<dots> < 2 ^ 23" by simp
  finally show ?thesis by simp
next
  case False
  define k where "k = compact_size n - 4"
  have "compact_size n - 3 = Suc k" using False by (simp add: k_def)
  then have t: "uval t = (256 * (compact_mantissa n * 256 ^ k)) mod 2 ^ 256"
    using SetCompact_value(2) [OF assms] False by (simp add: mult.left_commute)
  have "256 dvd uval t" unfolding t by (rule dvd_mod) simp_all
  moreover have "uval t < 2 ^ 256" unfolding t by (rule mod_less_divisor) simp
  ultimately have "uval t \<noteq> 2 ^ 256 - 1" by auto
  then show ?thesis using \<open>uval t < 2 ^ 256\<close> by linarith
qed

lemma complement_div: "0 < d \<Longrightarrow> d \<le> m \<Longrightarrow> (m - d) div d + 1 = m div (d::nat)"
  by (simp add: div_if [of m])

lemma GetBlockProof_value:
  assumes "SetCompact (nBits b) = (t, neg, ovf)"
  shows "\<exists>w. GetBlockProof b = Some w \<and> wf_uint w \<and>
    uval w = (if neg \<or> ovf \<or> uval t = 0 then 0 else 2 ^ 256 div (uval t + 1))"
proof -
  note t = SetCompact_value(1) [OF assms]
  note nm = SetCompact_not_max [OF assms]
  show ?thesis
  proof (cases "neg \<or> ovf \<or> uval t = 0")
    case True
    then show ?thesis using assms EqualTo_value [OF t, of 0]
      by (auto simp: GetBlockProof_def uval_uint_of_u64)
  next
    case False
    have one: "uval (uint_of_u64 1) = 1" by (simp add: uval_uint_of_u64)
    have d: "uval (uint_add t (uint_of_u64 1)) = uval t + 1" "wf_uint (uint_add t (uint_of_u64 1))"
      using uint_ring_facts(1) [OF t, of "uint_of_u64 1"] mod_less [OF nm] t
      by (simp_all only: one wf_uint_simps)
    have nt: "uval (uint_not t) = 2 ^ 256 - (uval t + 1)" "wf_uint (uint_not t)"
      using uint_ring_facts(6) [OF t t] t by (simp_all only: diff_diff_left add.commute wf_uint_def uint_not_def length_map)
    have "uval (uint_add t (uint_of_u64 1)) \<noteq> 0" unfolding d(1) by simp
    then obtain q where q: "uint_div (uint_not t) (uint_add t (uint_of_u64 1)) = Some q"
      using uint_div_value(1) [OF nt(2) d(2)] by (metis not_None_eq)
    have qv: "wf_uint q" "uval q = (2 ^ 256 - (uval t + 1)) div (uval t + 1)"
      using uint_div_value(2) [OF nt(2) d(2) q] unfolding d(1) nt(1) by simp_all
    have sum: "uval q + 1 = 2 ^ 256 div (uval t + 1)"
      unfolding qv(2) by (rule complement_div [OF _ less_imp_le [OF nm]]) simp
    have "2 ^ 256 div (uval t + 1) < (2::nat) ^ 256" by (rule div_less_dividend) (use False in simp_all)
    then have "uval (uint_add q (uint_of_u64 1)) = 2 ^ 256 div (uval t + 1)"
      using uint_ring_facts(1) [OF qv(1), of "uint_of_u64 1"] sum by (simp only: one wf_uint_simps mod_less)
    moreover have "GetBlockProof b = Some (uint_add q (uint_of_u64 1))"
      using False assms q EqualTo_value [OF t, of 0] by (simp add: GetBlockProof_def)
    moreover have "wf_uint (uint_add q (uint_of_u64 1))" using qv(1) by simp
    ultimately show ?thesis using False by (simp only: if_False) blast
  qed
qed

subsection \<open>Binary search over the chain\<close>

lemma lower_bound_value:
  assumes "\<And>i j. i \<le> j \<Longrightarrow> j < length xs \<Longrightarrow> P (xs ! j) \<Longrightarrow> P (xs ! i)"
    and "first + len \<le> length xs"
    and "\<And>i. i < first \<Longrightarrow> P (xs ! i)" and "\<And>i. first + len \<le> i \<Longrightarrow> i < length xs \<Longrightarrow> \<not> P (xs ! i)"
  shows "lower_bound P xs first len \<le> length xs \<and> (\<forall>i < lower_bound P xs first len. P (xs ! i)) \<and>
    (\<forall>i. lower_bound P xs first len \<le> i \<longrightarrow> i < length xs \<longrightarrow> \<not> P (xs ! i))"
  using assms(2-)
proof (induction len arbitrary: first rule: less_induct)
  case (less len first)
  note unfold = lower_bound.simps [of P xs first len]
  show ?case
  proof (cases "len = 0")
    case True
    then have "lower_bound P xs first len = first" using unfold by simp
    then show ?thesis using True less.prems by simp
  next
    case False
    let ?h = "len div 2" and ?m = "first + len div 2"
    have hl: "?h < len" using False by simp
    then have m: "?m < length xs" using less.prems(1) by simp
    show ?thesis
    proof (cases "P (xs ! ?m)")
      case True
      have eq: "lower_bound P xs first len = lower_bound P xs (?m + 1) (len - ?h - 1)"
        using True False by (simp add: unfold Let_def)
      have up: "?m + 1 + (len - ?h - 1) = first + len" "len - ?h - 1 < len" using hl by simp_all
      show ?thesis unfolding eq
      proof (rule less.IH [OF up(2)])
        show "?m + 1 + (len - ?h - 1) \<le> length xs" unfolding up(1) by (rule less.prems(1))
        show "P (xs ! i)" if "i < ?m + 1" for i using assms(1) [of i ?m] True m that by simp
        show "\<not> P (xs ! i)" if "?m + 1 + (len - ?h - 1) \<le> i" "i < length xs" for i
          using less.prems(3) that unfolding up(1) by blast
      qed
    next
      case F: False
      have eq: "lower_bound P xs first len = lower_bound P xs first ?h"
        using F False by (simp add: unfold Let_def)
      show ?thesis unfolding eq
      proof (rule less.IH [OF hl])
        show "?m \<le> length xs" using m by simp
        show "P (xs ! i)" if "i < first" for i using less.prems(2) that .
        show "\<not> P (xs ! i)" if "?m \<le> i" "i < length xs" for i using assms(1) [of ?m i] F that by blast
      qed
    qed
  qed
qed

subsection \<open>Median time past\<close>

lemma sort_nth_ge:
  fixes xs :: "int list"
  assumes "k < length xs" and "length xs - k \<le> length (filter (\<lambda>x. m \<le> x) xs)"
  shows "m \<le> sort xs ! k"
proof (rule ccontr)
  assume neg: "\<not> m \<le> sort xs ! k"
  let ?s = "sort xs"
  have "length (filter (\<lambda>x. m \<le> x) xs) = length (filter (\<lambda>x. m \<le> x) ?s)"
    by (simp add: filter_sort)
  also have "filter (\<lambda>x. m \<le> x) ?s = filter (\<lambda>x. m \<le> x) (take (Suc k) ?s) @ filter (\<lambda>x. m \<le> x) (drop (Suc k) ?s)"
    by (metis append_take_drop_id filter_append)
  also have "filter (\<lambda>x. m \<le> x) (take (Suc k) ?s) = []"
  proof -
    have "x < m" if "x \<in> set (take (Suc k) ?s)" for x
    proof -
      from that obtain i where "i < Suc k" "x = ?s ! i" using assms(1) by (auto simp: in_set_conv_nth)
      then have "x \<le> ?s ! k" using sorted_nth_mono [of ?s i k] assms(1) by simp
      then show ?thesis using neg by simp
    qed
    then show ?thesis by (fastforce simp: filter_empty_conv)
  qed
  finally have "length (filter (\<lambda>x. m \<le> x) xs) \<le> length xs - Suc k"
    using length_filter_le [of "\<lambda>x. m \<le> x" "drop (Suc k) ?s"] by simp
  then show False using assms by simp
qed

lemma sort_nth_count:
  fixes xs :: "int list"
  assumes "k < length xs"
  shows "length xs - k \<le> length (filter (\<lambda>x. sort xs ! k \<le> x) xs)"
proof -
  let ?s = "sort xs"
  have "x \<ge> ?s ! k" if "x \<in> set (drop k ?s)" for x
  proof -
    from that obtain i where "i < length xs - k" "x = ?s ! (k + i)" by (auto simp: in_set_conv_nth)
    then show ?thesis using sorted_nth_mono [of ?s k "k + i"] by simp
  qed
  then have "filter (\<lambda>x. ?s ! k \<le> x) (drop k ?s) = drop k ?s" by (simp add: filter_id_conv)
  then have "length xs - k = length (filter (\<lambda>x. ?s ! k \<le> x) (drop k ?s))" by simp
  also have "\<dots> \<le> length (filter (\<lambda>x. ?s ! k \<le> x) (take k ?s @ drop k ?s))"
    by (simp only: filter_append length_append le_add2)
  also have "\<dots> = length (filter (\<lambda>x. ?s ! k \<le> x) xs)"
    by (simp only: append_take_drop_id filter_sort length_sort)
  finally show ?thesis .
qed

lemma past_times_value:
  assumes "wf_store st"
  shows "st p = Some b \<Longrightarrow> \<exists>ts. past_times st n (Some p) = Some ts \<and> length ts \<le> n \<and> (0 < n \<longrightarrow> ts \<noteq> [])"
proof (induction n arbitrary: p b)
  case 0
  then show ?case by simp
next
  case (Suc n)
  show ?case
  proof (cases "pprev b")
    case None
    then show ?thesis using Suc.prems by (cases n) auto
  next
    case (Some q)
    obtain c where "st q = Some c" by (rule wf_prevD [OF assms Suc.prems Some])
    from Suc.IH [OF this] show ?thesis using Suc.prems Some by auto
  qed
qed

lemma past_times_shorter:
  "past_times st (Suc n) p = Some ts \<Longrightarrow> past_times st n p = Some (take n ts) \<and> length ts \<le> Suc n"
proof (induction n arbitrary: p ts)
  case 0
  then show ?case by (cases p) (auto split: option.splits)
next
  case (Suc n)
  show ?case
  proof (cases p)
    case None
    then show ?thesis using Suc.prems by simp
  next
    case (Some x)
    then obtain b us where u: "st x = Some b" "past_times st (Suc n) (pprev b) = Some us" "ts = GetBlockTime b # us"
      using Suc.prems by (auto split: option.splits)
    from Suc.IH [OF u(2)] show ?thesis using Some u by simp
  qed
qed

lemma median_count:
  fixes L n a d :: nat
  assumes "L - L div 2 \<le> a + d" and "d \<le> L - n" and "L \<le> Suc n"
  shows "Suc (min L n) - Suc (min L n) div 2 \<le> Suc a"
proof (cases "L \<le> n")
  case True
  then have "L - L div 2 \<le> a" "min L n = L" using assms(1,2) by simp_all
  then show ?thesis by simp
next
  case False
  then have "L = Suc n" "min L n = n" using assms(3) by simp_all
  then show ?thesis using assms(1,2) by simp
qed

lemma median_window_mono:
  fixes ts :: "int list"
  assumes "ts \<noteq> []" and "length ts \<le> Suc n" and "sort ts ! (length ts div 2) < t" and "us = t # take n ts"
  shows "sort ts ! (length ts div 2) \<le> sort us ! (length us div 2)"
proof -
  let ?m = "sort ts ! (length ts div 2)"
  let ?F = "filter (\<lambda>x. ?m \<le> x)"
  have len: "length ts div 2 < length ts" using assms(1) by (cases ts) auto
  have c: "length ts - length ts div 2 \<le> length (?F ts)" using sort_nth_count [OF len] .
  have split: "length (?F ts) = length (?F (take n ts)) + length (?F (drop n ts))"
    by (metis append_take_drop_id filter_append length_append)
  have d: "length (?F (drop n ts)) \<le> length ts - n" using length_filter_le [of "\<lambda>x. ?m \<le> x" "drop n ts"] by simp
  have u: "length (?F us) = Suc (length (?F (take n ts)))" using assms(3,4) by simp
  have lu: "length us = Suc (min (length ts) n)" using assms(4) by simp
  have "length us - length us div 2 \<le> length (?F us)"
    unfolding u lu by (rule median_count [OF c [unfolded split] d assms(2)])
  then show ?thesis by (intro sort_nth_ge) (simp_all add: lu)
qed

subsection \<open>A concrete block tree\<close>

text \<open>
  Entries 0, 1, 2 and 3 form a chain, 4 forks off entry 1. Skip pointers are those \<open>BuildSkip\<close> sets.
\<close>

definition demo_block :: "bptr option \<Rightarrow> bptr option \<Rightarrow> int \<Rightarrow> u32 \<Rightarrow> CBlockIndex" where
  "demo_block prev skip h t =
     index_SetNull\<lparr>phashBlock := Some [word_of_int h, ucast t], pprev := prev, pskip := skip, nHeight := h,
       nTime := t, nTimeMax := t, nBits := 0x1e0ffff0\<rparr>"

definition demo_store :: block_store where
  "demo_store =
     [0 \<mapsto> demo_block None None 0 10, 1 \<mapsto> demo_block (Some 0) (Some 0) 1 20,
      2 \<mapsto> demo_block (Some 1) (Some 0) 2 30, 3 \<mapsto> demo_block (Some 2) (Some 1) 3 40,
      4 \<mapsto> demo_block (Some 1) None 2 50]"

definition demo_chain :: CChain where
  "demo_chain = [Some 0, Some 1, Some 2, Some 3]"

lemma demo_block_fields [simp]:
  "pprev (demo_block p s h t) = p" "pskip (demo_block p s h t) = s" "nHeight (demo_block p s h t) = h"
  "phashBlock (demo_block p s h t) \<noteq> None" "nTime (demo_block p s h t) = t" "nTimeMax (demo_block p s h t) = t"
  by (simp_all add: demo_block_def)

lemma demo_skip_heights: "GetSkipHeight 1 = 0" "GetSkipHeight 2 = 0" "GetSkipHeight 3 = 1"
  by (simp_all add: GetSkipHeight_def InvertLowestOne_def)

lemma demo_wf: "wf_store demo_store"
  unfolding wf_store_def
proof (intro allI impI)
  fix p b
  assume "demo_store p = Some b"
  then consider "p = 0" "b = demo_block None None 0 10" | "p = 1" "b = demo_block (Some 0) (Some 0) 1 20"
    | "p = 2" "b = demo_block (Some 1) (Some 0) 2 30" | "p = 3" "b = demo_block (Some 2) (Some 1) 3 40"
    | "p = 4" "b = demo_block (Some 1) None 2 50"
    by (auto simp: demo_store_def split: if_splits)
  then show "wf_link demo_store b \<and> wf_skip demo_store p b"
    by cases (simp_all add: wf_link_def wf_skip_def demo_store_def demo_skip_heights numeral_2_eq_2)
qed

lemma demo_chain_ok: "chain_ok demo_store demo_chain"
  by (auto simp: chain_ok_def link_ok_def demo_chain_def demo_store_def less_Suc_eq numeral_2_eq_2 numeral_3_eq_3)

subsection \<open>What the chain operations guarantee\<close>

text \<open>C9: on a well-formed block tree the skip-list walk never fails its assertion and
  returns exactly the entry reached by following \<open>pprev\<close> down to the requested height, or null when the
  height is negative or above the entry.\<close>

theorem GetAncestor_correct:
  assumes "wf_store st" and "st p = Some b"
  shows "GetAncestor st p h =
    Some (if h < 0 \<or> nHeight b < h then None else prev_n st (nat (nHeight b - h)) p)"
  using assms by (rule GetAncestor_value)

theorem GetAncestor_correct_witness:
  "GetAncestor demo_store 3 1 = Some (Some 1) \<and> GetAncestor demo_store 3 7 = Some None"
  using GetAncestor_correct [OF demo_wf, of 3 "demo_block (Some 2) (Some 1) 3 40"]
  by (simp add: demo_store_def numeral_2_eq_2)

text \<open>C36: \<open>BuildSkip\<close> succeeds on every entry of a well-formed tree, keeps the tree
  well-formed, leaves the ancestor relation as it was, and gives an entry that has a predecessor a skip
  pointer to its ancestor at the skip height.\<close>

theorem BuildSkip_preserves:
  assumes "wf_store st" and "st p = Some b"
  shows "\<exists>st' b'. BuildSkip st p = Some st' \<and> wf_store st' \<and> prev_n st' = prev_n st \<and> st' p = Some b' \<and>
    (pprev b = None \<or> pskip b' = ancestor_at st p (GetSkipHeight (nHeight b)))"
proof (cases "pprev b")
  case None
  then show ?thesis using assms by (simp add: BuildSkip_def)
next
  case (Some q)
  obtain s where s: "prev_n st (nat (nHeight b - GetSkipHeight (nHeight b))) p = Some s"
      "BuildSkip st p = Some (st(p \<mapsto> b\<lparr>pskip := Some s\<rparr>))"
    by (rule BuildSkip_value [OF assms Some])
  have pos: "0 < nHeight b"
    using wf_prevD [OF assms Some] wf_storeD(3) [OF assms(1), of q] by (metis add_strict_increasing zero_less_one add.commute)
  have "ancestor_at st p (GetSkipHeight (nHeight b)) = Some s"
    using s(1) assms(2) GetSkipHeight_bounds [OF pos] by (simp add: ancestor_at_def)
  moreover have "prev_n (st(p \<mapsto> b\<lparr>pskip := Some s\<rparr>)) = prev_n st"
    using assms(2) by (intro ext prev_n_cong) auto
  ultimately show ?thesis using s wf_store_set_skip [OF assms s(1)] by simp
qed

theorem BuildSkip_preserves_witness:
  "\<exists>st'. BuildSkip demo_store 4 = Some st' \<and> wf_store st'"
  using BuildSkip_preserves [OF demo_wf, of 4 "demo_block (Some 1) None 2 50"]
  by (auto simp: demo_store_def)

text \<open>C11: \<open>SetTip\<close> returns for every entry of a well-formed tree, and afterwards the vector
  is exactly the path from the genesis entry to the new tip: slot \<open>h\<close> holds the tip's ancestor at height
  \<open>h\<close>, whatever chain was active before.\<close>

theorem SetTip_correct:
  assumes "wf_store st" and "chain_ok st c" and "st p = Some b"
  shows "\<exists>c'. SetTip st c (Some p) = Some c' \<and> chain_ok st c' \<and> Tip c' = Some p \<and>
    Height c' = nHeight b \<and> chain_at c' = ancestor_at st p"
proof -
  obtain c' where c': "SetTip st c (Some p) = Some c'" "chain_ok st c'" "int (length c') = nHeight b + 1"
      "Tip c' = Some p" by (rule SetTip_ok [OF assms])
  have h: "Height c' = nHeight b" using c'(3) by (simp add: Height_def)
  have top: "chain_at c' (nHeight b) = Some p"
  proof -
    have "nat (nHeight b) = length c' - 1" using c'(3) by simp
    then show ?thesis using c'(3,4) wf_storeD(3) [OF assms(1,3)] by (auto simp: chain_at_def Tip_def split: if_splits)
  qed
  have "chain_at c' h = ancestor_at st p h" for h
  proof (cases "0 \<le> h \<and> h \<le> nHeight b")
    case True
    then show ?thesis using chain_at_ancestor [OF assms(1) c'(2) assms(3) top] by simp
  next
    case False
    then show ?thesis using c'(3) assms(3) by (auto simp: chain_at_def ancestor_at_def)
  qed
  then show ?thesis using c' h by auto
qed

theorem SetTip_correct_witness:
  "\<exists>c'. SetTip demo_store demo_chain (Some 4) = Some c' \<and> Tip c' = Some 4 \<and> Height c' = 2"
  using SetTip_correct [OF demo_wf demo_chain_ok, of 4 "demo_block (Some 1) None 2 50"]
  by (auto simp: demo_store_def)

text \<open>C37: \<open>FindFork\<close> returns the last entry on the way back from \<open>p\<close> that lies on the
  active chain, and null exactly when no ancestor does; the jump through \<open>GetAncestor\<close> skips nothing.\<close>

theorem FindFork_correct:
  assumes "wf_store st" and "chain_ok st c" and "st p = Some b"
  shows "\<exists>r. FindFork st c (Some p) = Some r \<and> fork_point st c p r"
  using FindFork_value [OF assms] by blast

theorem FindFork_correct_witness:
  "\<exists>r. FindFork demo_store demo_chain (Some 4) = Some r \<and> fork_point demo_store demo_chain 4 r"
  using FindFork_correct [OF demo_wf demo_chain_ok, of 4 "demo_block (Some 1) None 2 50"]
  by (simp add: demo_store_def)

text \<open>C38: the two pointers of \<open>LastCommonAncestor\<close> always meet, its final assertion
  never fails, and the result is the highest common ancestor (null when the entries share none).\<close>

theorem LastCommonAncestor_correct:
  assumes "wf_store st" and "st a = Some ea" and "st b = Some eb"
  shows "\<exists>r. LastCommonAncestor st a b = Some r \<and> last_common st a b r"
  using LastCommonAncestor_value [OF assms] by blast

theorem LastCommonAncestor_correct_witness:
  "\<exists>r. LastCommonAncestor demo_store 3 4 = Some r \<and> last_common demo_store 3 4 r"
  using LastCommonAncestor_correct [OF demo_wf, of 3 "demo_block (Some 2) (Some 1) 3 40" 4 "demo_block (Some 1) None 2 50"]
  by (simp add: demo_store_def)

text \<open>\<open>GetLocator\<close> terminates for every entry and lists the hashes of the entry and a
  strictly descending sequence of its ancestors that ends at height 0.\<close>

theorem GetLocator_correct:
  assumes "wf_store st" and "chain_ok st c" and "st p = Some b"
  shows "\<exists>ys. GetLocator st c (Some p) = Some ys \<and> locator_path st p ys"
  using GetLocator_value [OF assms] by blast

theorem GetLocator_correct_witness:
  "\<exists>ys. GetLocator demo_store demo_chain (Some 4) = Some ys \<and> locator_path demo_store 4 ys"
  using GetLocator_correct [OF demo_wf demo_chain_ok, of 4 "demo_block (Some 1) None 2 50"]
  by (simp add: demo_store_def)

lemma chain_entry_mono:
  assumes c: "chain_ok st c"
    and tm: "\<And>p b q e. st p = Some b \<Longrightarrow> pprev b = Some q \<Longrightarrow> st q = Some e \<Longrightarrow> nTimeMax e \<le> nTimeMax b"
    and "i \<le> j" and "j < length c"
  shows "nTimeMax (the (st (the (c ! i)))) \<le> nTimeMax (the (st (the (c ! j))))"
  using assms(3,4)
proof (induction j)
  case 0
  then show ?case by simp
next
  case (Suc j)
  show ?case
  proof (cases "i = Suc j")
    case True
    then show ?thesis by simp
  next
    case False
    obtain q e where q: "c ! Suc j = Some q" "st q = Some e" "0 < Suc j \<longrightarrow> pprev e = c ! (Suc j - 1)"
      by (rule chain_okD [OF c Suc.prems(2)])
    obtain r d where r: "c ! j = Some r" "st r = Some d" by (rule chain_okD [OF c, of j]) (use Suc.prems in auto)
    have "nTimeMax d \<le> nTimeMax e" using tm [OF q(2) _ r(2)] q(3) r(1) by simp
    then show ?thesis using Suc False q r by (auto intro: order_trans)
  qed
qed

text \<open>On a chain whose \<open>nTimeMax\<close> does not decrease, the binary search returns the
  lowest entry of the chain with \<open>nTimeMax\<close> and height at least the given ones, and null when none has.\<close>

theorem FindEarliestAtLeast_correct:
  assumes "chain_ok st c"
    and "\<forall>p b q e. st p = Some b \<and> pprev b = Some q \<and> st q = Some e \<longrightarrow> nTimeMax e \<le> nTimeMax b"
  shows "\<exists>i \<le> length c. FindEarliestAtLeast st c t h = Some (if i = length c then None else c ! i) \<and>
    (\<forall>j < length c. i \<le> j \<longleftrightarrow> t \<le> GetBlockTimeMax (the (st (the (c ! j)))) \<and> h \<le> int j)"
proof -
  let ?less = "\<lambda>e. let b = the (st (the e)) in GetBlockTimeMax b < t \<or> nHeight b < h"
  let ?i = "lower_bound ?less c 0 (length c)"
  have height: "nHeight (the (st (the (c ! j)))) = int j" if "j < length c" for j
    by (rule chain_okD [OF assms(1) that]) simp
  have valid: "list_all (valid_entry st) c"
    unfolding list_all_length
  proof (intro allI impI)
    fix n assume "n < length c"
    then show "valid_entry st (c ! n)" by (rule chain_okD [OF assms(1)]) (simp add: valid_entry_def)
  qed
  have mono: "?less (c ! i)" if "i \<le> j" "j < length c" "?less (c ! j)" for i j
  proof -
    have "nTimeMax (the (st (the (c ! i)))) \<le> nTimeMax (the (st (the (c ! j))))"
      by (rule chain_entry_mono [OF assms(1) _ that(1,2)]) (use assms(2) in blast)
    then have "GetBlockTimeMax (the (st (the (c ! i)))) \<le> GetBlockTimeMax (the (st (the (c ! j))))"
      by (simp only: GetBlockTimeMax_def word_le_def)
    moreover have "nHeight (the (st (the (c ! i)))) \<le> nHeight (the (st (the (c ! j))))"
      using height [of i] height [of j] that(1,2) by simp
    ultimately show ?thesis using that(3) by (auto simp: Let_def)
  qed
  have lb: "?i \<le> length c" "\<And>i. i < ?i \<Longrightarrow> ?less (c ! i)" "\<And>i. ?i \<le> i \<Longrightarrow> i < length c \<Longrightarrow> \<not> ?less (c ! i)"
    using lower_bound_value [of c ?less 0 "length c", OF mono] by simp_all
  have "?i \<le> j \<longleftrightarrow> t \<le> GetBlockTimeMax (the (st (the (c ! j)))) \<and> h \<le> int j" if "j < length c" for j
    using lb(2) [of j] lb(3) [of j] that height [OF that] by (cases "?i \<le> j") (auto simp: Let_def)
  moreover have "FindEarliestAtLeast st c t h = Some (if ?i = length c then None else c ! ?i)"
    using valid by (simp add: FindEarliestAtLeast_def Let_def)
  ultimately show ?thesis using lb(1) by blast
qed

theorem FindEarliestAtLeast_correct_witness:
  "\<exists>i \<le> length demo_chain. FindEarliestAtLeast demo_store demo_chain 25 1 =
     Some (if i = length demo_chain then None else demo_chain ! i)"
proof -
  have "\<forall>p b q e. demo_store p = Some b \<and> pprev b = Some q \<and> demo_store q = Some e \<longrightarrow> nTimeMax e \<le> nTimeMax b"
    by (auto simp: demo_store_def split: if_splits)
  then show ?thesis using FindEarliestAtLeast_correct [OF demo_chain_ok, of 25 1] by blast
qed

text \<open>C39: the work credited to a block is \<open>2 ^ 256\<close> divided by its target plus one, zero for
  a negative, overflowing or zero target; the division never raises.\<close>

theorem GetBlockProof_correct:
  "map_option uval (GetBlockProof b) =
     Some (case SetCompact (nBits b) of (t, neg, ovf) \<Rightarrow>
       if neg \<or> ovf \<or> uval t = 0 then 0 else 2 ^ 256 div (uval t + 1))"
proof -
  obtain t neg ovf where t: "SetCompact (nBits b) = (t, neg, ovf)" by (cases "SetCompact (nBits b)")
  then show ?thesis using GetBlockProof_value [OF t] by (elim exE) (simp only: prod.case option.map)
qed

lemma median_mono:
  assumes "wf_store st" and "st p = Some b" and "pprev b = Some q"
    and "GetMedianTimePast st q = Some m" and "m < GetBlockTime b"
  shows "\<exists>m'. GetMedianTimePast st p = Some m' \<and> m \<le> m'"
proof -
  obtain c where "st q = Some c" by (rule wf_prevD [OF assms(1-3)])
  then obtain ts where ts: "past_times st (Suc 10) (Some q) = Some ts" "length ts \<le> Suc 10" "ts \<noteq> []"
    using past_times_value [OF assms(1), of q c "Suc 10"] by auto
  have m: "m = sort ts ! (length ts div 2)"
    using assms(4) ts(1) by (simp add: GetMedianTimePast_def nMedianTimeSpan_def eval_nat_numeral del: past_times.simps)
  let ?us = "GetBlockTime b # take 10 ts"
  have "past_times st (Suc 10) (Some p) = Some ?us"
    using past_times_shorter [OF ts(1)] assms(2,3) by (simp only: past_times.simps option.case option.map)
  then have "GetMedianTimePast st p = Some (sort ?us ! (length ?us div 2))"
    by (simp add: GetMedianTimePast_def nMedianTimeSpan_def eval_nat_numeral del: past_times.simps)
  moreover have "m \<le> sort ?us ! (length ?us div 2)"
    unfolding m by (rule median_window_mono [OF ts(3,2) _ refl]) (use assms(5) m in simp)
  ultimately show ?thesis by blast
qed

text \<open>C40: when a block's time is above the median time past of its predecessor, as
  the header check demands, the median time past does not decrease from the predecessor to the block.\<close>

theorem MedianTimePast_monotone:
  assumes "wf_store st" and "st p = Some b" and "pprev b = Some q"
    and "GetMedianTimePast st q = Some m" and "m < GetBlockTime b"
  shows "\<exists>m'. GetMedianTimePast st p = Some m' \<and> m \<le> m'"
  by (rule median_mono [OF assms])

theorem MedianTimePast_monotone_witness:
  "\<exists>m'. GetMedianTimePast demo_store 3 = Some m' \<and> 20 \<le> m'"
proof -
  have "GetMedianTimePast demo_store 2 = Some 20" by code_simp
  then show ?thesis
    using MedianTimePast_monotone [OF demo_wf, of 3 "demo_block (Some 2) (Some 1) 3 40" 2 20]
    by (simp add: demo_store_def GetBlockTime_def)
qed

lemma raised_status:
  assumes "n AND (NOT BLOCK_VALID_MASK) = 0"
  shows "(s AND (NOT BLOCK_VALID_MASK) OR n) AND BLOCK_VALID_MASK = n"
    and "(s AND (NOT BLOCK_VALID_MASK) OR n) AND (NOT BLOCK_VALID_MASK) = s AND (NOT BLOCK_VALID_MASK)"
    and "(s AND (NOT BLOCK_VALID_MASK) OR n) AND BLOCK_FAILED_MASK = s AND BLOCK_FAILED_MASK"
proof -
  let ?M = BLOCK_VALID_MASK and ?F = BLOCK_FAILED_MASK
  have nM: "n AND ?M = n"
    using assms by (metis bit.conj_disj_distrib bit.disj_cancel_right bit.conj_one_right or.right_neutral)
  have F: "NOT ?M AND ?F = ?F" "?M AND ?F = 0" by (simp_all add: BLOCK_VALID_MASK_def BLOCK_FAILED_MASK_def)
  show "(s AND (NOT ?M) OR n) AND ?M = n" by (simp add: bit.conj_disj_distrib2 and.assoc nM)
  show "(s AND (NOT ?M) OR n) AND (NOT ?M) = s AND (NOT ?M)"
    by (simp add: bit.conj_disj_distrib2 and.assoc assms)
  have "n AND ?F = n AND (?M AND ?F)" by (simp only: and.assoc [symmetric] nM)
  then have "n AND ?F = 0" by (simp add: F)
  then show "(s AND (NOT ?M) OR n) AND ?F = s AND ?F" by (simp add: bit.conj_disj_distrib2 and.assoc F)
qed

text \<open>Raising an entry's validity fails its assertion only on an argument outside the
  validity mask, changes nothing on a failed entry, and otherwise leaves an entry that \<open>IsValid\<close> accepts at
  the level, reporting a change exactly when it was not accepted before; the data and failure bits stay.\<close>

theorem RaiseValidity_correct:
  assumes "n AND (NOT BLOCK_VALID_MASK) = 0"
  shows "\<exists>ch b'. RaiseValidity b n = Some (ch, b') \<and>
    nStatus b' AND (NOT BLOCK_VALID_MASK) = nStatus b AND (NOT BLOCK_VALID_MASK) \<and>
    (if nStatus b AND BLOCK_FAILED_MASK \<noteq> 0 then \<not> ch \<and> b' = b \<and> IsValid b' n = Some False
     else IsValid b' n = Some True \<and> IsValid b n = Some (\<not> ch))"
proof (cases "nStatus b AND BLOCK_FAILED_MASK \<noteq> 0")
  case True
  then show ?thesis using assms
    by (intro exI [of _ False] exI [of _ b]) (simp add: RaiseValidity_def IsValid_def)
next
  case ok: False
  show ?thesis
  proof (cases "nStatus b AND BLOCK_VALID_MASK < n")
    case True
    let ?b = "b\<lparr>nStatus := nStatus b AND (NOT BLOCK_VALID_MASK) OR n\<rparr>"
    have "RaiseValidity b n = Some (True, ?b)" using True ok assms by (simp add: RaiseValidity_def)
    moreover have "IsValid ?b n = Some True" "IsValid b n = Some False"
      using ok True assms raised_status [OF assms, of "nStatus b"] by (simp_all add: IsValid_def not_le)
    ultimately show ?thesis using ok raised_status(2) [OF assms, of "nStatus b"]
      by (intro exI [of _ True] exI [of _ ?b]) simp
  next
    case False
    then show ?thesis using ok assms
      by (intro exI [of _ False] exI [of _ b]) (simp add: RaiseValidity_def IsValid_def not_less)
  qed
qed

theorem RaiseValidity_correct_witness:
  "\<exists>ch b'. RaiseValidity index_SetNull 5 = Some (ch, b') \<and> IsValid b' 5 = Some True"
  using RaiseValidity_correct [of 5 index_SetNull]
  by (auto simp: BLOCK_VALID_MASK_def BLOCK_FAILED_MASK_def index_SetNull_def)

end
