(* ===== verification/Transaction.thy ===== *)
theory Transaction
  imports Serialize Chain
begin

section \<open>Transactions (primitives/transaction.h, primitives/transaction.cpp, amount.h)\<close>

text \<open>
  Amounts and versions are signed integers of the source: they are integers here, and the writers and
  readers convert them to 64 and 16 bits. A script is the list of its bytes.
\<close>

type_synonym CAmount = int
type_synonym CScript = bytes

definition COIN :: CAmount where
  "COIN = 100000000"

definition MAX_MONEY :: CAmount where
  "MAX_MONEY = 21000000 * COIN"

definition MoneyRange :: "CAmount \<Rightarrow> bool" where
  "MoneyRange nValue \<longleftrightarrow> nValue \<ge> 0 \<and> nValue \<le> MAX_MONEY"

definition TRANSACTION_NORMAL :: u16 where "TRANSACTION_NORMAL = 0"
definition TRANSACTION_PROVIDER_REGISTER :: u16 where "TRANSACTION_PROVIDER_REGISTER = 1"
definition TRANSACTION_PROVIDER_UPDATE_SERVICE :: u16 where "TRANSACTION_PROVIDER_UPDATE_SERVICE = 2"
definition TRANSACTION_PROVIDER_UPDATE_REGISTRAR :: u16 where "TRANSACTION_PROVIDER_UPDATE_REGISTRAR = 3"
definition TRANSACTION_PROVIDER_UPDATE_REVOKE :: u16 where "TRANSACTION_PROVIDER_UPDATE_REVOKE = 4"
definition TRANSACTION_COINBASE :: u16 where "TRANSACTION_COINBASE = 5"
definition TRANSACTION_QUORUM_COMMITMENT :: u16 where "TRANSACTION_QUORUM_COMMITMENT = 6"
definition TRANSACTION_MNHF_SIGNAL :: u16 where "TRANSACTION_MNHF_SIGNAL = 7"

lemmas transaction_types =
  TRANSACTION_NORMAL_def TRANSACTION_PROVIDER_REGISTER_def TRANSACTION_PROVIDER_UPDATE_SERVICE_def
  TRANSACTION_PROVIDER_UPDATE_REGISTRAR_def TRANSACTION_PROVIDER_UPDATE_REVOKE_def
  TRANSACTION_COINBASE_def TRANSACTION_QUORUM_COMMITMENT_def TRANSACTION_MNHF_SIGNAL_def

subsection \<open>Hashes as blobs (uint256.h)\<close>

definition uint256_IsNull :: "uint256 \<Rightarrow> bool" where
  "uint256_IsNull h \<longleftrightarrow> (\<forall>b \<in> set h. b = 0)"

definition uint256_null :: uint256 where
  "uint256_null = replicate 32 0"

text \<open>\<open>memcmp\<close> on two blobs: the first byte that differs decides.\<close>

fun memcmp :: "bytes \<Rightarrow> bytes \<Rightarrow> int" where
  "memcmp (a # as) (b # bs) = (if a < b then -1 else if b < a then 1 else memcmp as bs)"
| "memcmp _ _ = 0"

definition ser_uint256 :: "uint256 \<Rightarrow> bytes" where
  "ser_uint256 h = h"

definition unser_uint256 :: "uint256 reader" where
  "unser_uint256 s = read_bytes 32 s"

subsection \<open>Outpoints, inputs, outputs\<close>

record COutPoint =
  op_hash :: uint256
  op_n :: u32

definition NULL_INDEX :: u32 where
  "NULL_INDEX = - 1"

definition outpoint_null :: COutPoint where
  "outpoint_null = \<lparr>op_hash = uint256_null, op_n = NULL_INDEX\<rparr>"

definition outpoint_IsNull :: "COutPoint \<Rightarrow> bool" where
  "outpoint_IsNull p \<longleftrightarrow> uint256_IsNull (op_hash p) \<and> op_n p = NULL_INDEX"

definition outpoint_less :: "COutPoint \<Rightarrow> COutPoint \<Rightarrow> bool" where
  "outpoint_less a b \<longleftrightarrow>
     (let cmp = memcmp (op_hash a) (op_hash b) in cmp < 0 \<or> cmp = 0 \<and> op_n a < op_n b)"

definition ser_outpoint :: "COutPoint \<Rightarrow> bytes" where
  "ser_outpoint p = ser_uint256 (op_hash p) @ ser_writedata32 (op_n p)"

definition unser_outpoint :: "COutPoint reader" where
  "unser_outpoint s =
     do { (h, s) \<leftarrow> unser_uint256 s; (n, s) \<leftarrow> ser_readdata32 s; Some (\<lparr>op_hash = h, op_n = n\<rparr>, s) }"

record CTxIn =
  prevout :: COutPoint
  scriptSig :: CScript
  nSequence :: u32

definition SEQUENCE_FINAL :: u32 where
  "SEQUENCE_FINAL = 0xffffffff"

definition SEQUENCE_LOCKTIME_DISABLE_FLAG :: u32 where
  "SEQUENCE_LOCKTIME_DISABLE_FLAG = push_bit 31 1"

definition SEQUENCE_LOCKTIME_TYPE_FLAG :: u32 where
  "SEQUENCE_LOCKTIME_TYPE_FLAG = push_bit 22 1"

definition SEQUENCE_LOCKTIME_MASK :: u32 where
  "SEQUENCE_LOCKTIME_MASK = 0x0000ffff"

definition SEQUENCE_LOCKTIME_GRANULARITY :: nat where
  "SEQUENCE_LOCKTIME_GRANULARITY = 9"

definition ser_txin :: "CTxIn \<Rightarrow> bytes" where
  "ser_txin i = ser_outpoint (prevout i) @ ser_bytes (scriptSig i) @ ser_writedata32 (nSequence i)"

definition unser_txin :: "CTxIn reader" where
  "unser_txin s =
     do { (p, s) \<leftarrow> unser_outpoint s; (sig, s) \<leftarrow> unser_bytes s; (n, s) \<leftarrow> ser_readdata32 s;
          Some (\<lparr>prevout = p, scriptSig = sig, nSequence = n\<rparr>, s) }"

record CTxOut =
  nValue :: CAmount
  scriptPubKey :: CScript

definition txout_null :: CTxOut where
  "txout_null = \<lparr>nValue = - 1, scriptPubKey = []\<rparr>"

definition txout_IsNull :: "CTxOut \<Rightarrow> bool" where
  "txout_IsNull out \<longleftrightarrow> nValue out = - 1"

definition ser_txout :: "CTxOut \<Rightarrow> bytes" where
  "ser_txout out = ser_writedata64 (word_of_int (nValue out)) @ ser_bytes (scriptPubKey out)"

definition unser_txout :: "CTxOut reader" where
  "unser_txout s =
     do { (v, s) \<leftarrow> ser_readdata64 s; (pk, s) \<leftarrow> unser_bytes s;
          Some (\<lparr>nValue = sint v, scriptPubKey = pk\<rparr>, s) }"

subsection \<open>Transactions\<close>

text \<open>
  \<open>CTransaction\<close> and \<open>CMutableTransaction\<close> have the same fields; the hash that the former caches is
  computed from them.
\<close>

record CTransaction =
  vin :: "CTxIn list"
  vout :: "CTxOut list"
  tx_nVersion :: int
  nType :: u16
  nLockTime :: u32
  vExtraPayload :: bytes

definition tx_CURRENT_VERSION :: int where
  "tx_CURRENT_VERSION = 2"

definition tx_empty :: CTransaction where
  "tx_empty = \<lparr>vin = [], vout = [], tx_nVersion = tx_CURRENT_VERSION, nType = TRANSACTION_NORMAL,
     nLockTime = 0, vExtraPayload = []\<rparr>"

definition n32bitVersion :: "int \<Rightarrow> u16 \<Rightarrow> u32" where
  "n32bitVersion ver ty = word_of_int ver OR push_bit 16 (ucast ty)"

definition tx_Serialize :: "CTransaction \<Rightarrow> bytes" where
  "tx_Serialize tx =
     ser_writedata32 (n32bitVersion (tx_nVersion tx) (nType tx)) @
     ser_vector ser_txin (vin tx) @ ser_vector ser_txout (vout tx) @ ser_writedata32 (nLockTime tx) @
     (if tx_nVersion tx = 3 \<and> nType tx \<noteq> TRANSACTION_NORMAL then ser_bytes (vExtraPayload tx) else [])"

definition tx_Unserialize :: "CTransaction reader" where
  "tx_Unserialize s =
     do { (v, s) \<leftarrow> ser_readdata32 s;
          let ver = sint (ucast v :: u16); ty = ucast (drop_bit 16 v) :: u16 in
          do { (ins, s) \<leftarrow> unser_vector unser_txin s;
               (outs, s) \<leftarrow> unser_vector unser_txout s;
               (lt, s) \<leftarrow> ser_readdata32 s;
               (payload, s) \<leftarrow> (if ver = 3 \<and> ty \<noteq> TRANSACTION_NORMAL then unser_bytes s else Some ([], s));
               Some (\<lparr>vin = ins, vout = outs, tx_nVersion = ver, nType = ty, nLockTime = lt,
                 vExtraPayload = payload\<rparr>, s) } }"

text \<open>\<open>SerializeHash\<close> is a parameter: the double SHA-256 of the serialized bytes.\<close>

definition tx_GetHash :: "(bytes \<Rightarrow> uint256) \<Rightarrow> CTransaction \<Rightarrow> uint256" where
  "tx_GetHash SerializeHash tx = SerializeHash (tx_Serialize tx)"

definition tx_IsNull :: "CTransaction \<Rightarrow> bool" where
  "tx_IsNull tx \<longleftrightarrow> vin tx = [] \<and> vout tx = []"

definition tx_IsCoinBase :: "CTransaction \<Rightarrow> bool" where
  "tx_IsCoinBase tx \<longleftrightarrow> length (vin tx) = 1 \<and> outpoint_IsNull (prevout (vin tx ! 0))"

definition GetTotalSize :: "CTransaction \<Rightarrow> nat" where
  "GetTotalSize tx = length (tx_Serialize tx)"

text \<open>\<open>None\<close> is the exception "value out of range", or the failed assertion at the end.\<close>

fun GetValueOut_loop :: "CAmount \<Rightarrow> CTxOut list \<Rightarrow> CAmount option" where
  "GetValueOut_loop nValueOut [] = (if MoneyRange nValueOut then Some nValueOut else None)"
| "GetValueOut_loop nValueOut (out # outs) =
     (if \<not> MoneyRange (nValue out) \<or> \<not> MoneyRange (nValueOut + nValue out) then None
      else GetValueOut_loop (nValueOut + nValue out) outs)"

definition GetValueOut :: "CTransaction \<Rightarrow> CAmount option" where
  "GetValueOut tx = GetValueOut_loop 0 (vout tx)"

subsection \<open>The orders of BIP 69\<close>

fun lexicographical_compare :: "bytes \<Rightarrow> bytes \<Rightarrow> bool" where
  "lexicographical_compare (a # as) (b # bs) =
     (if a < b then True else if b < a then False else lexicographical_compare as bs)"
| "lexicographical_compare [] (b # bs) = True"
| "lexicographical_compare _ [] = False"

definition CompareInputBIP69 :: "CTxIn \<Rightarrow> CTxIn \<Rightarrow> bool" where
  "CompareInputBIP69 a b =
     (if op_hash (prevout a) = op_hash (prevout b) then op_n (prevout a) < op_n (prevout b)
      else lexicographical_compare (rev (op_hash (prevout a))) (rev (op_hash (prevout b))))"

text \<open>Scripts are compared by the operator of \<open>prevector\<close>: the shorter one is the smaller.\<close>

fun prevector_less_elems :: "bytes \<Rightarrow> bytes \<Rightarrow> bool" where
  "prevector_less_elems (a # as) (b # bs) =
     (if a < b then True else if b < a then False else prevector_less_elems as bs)"
| "prevector_less_elems _ _ = False"

definition prevector_less :: "bytes \<Rightarrow> bytes \<Rightarrow> bool" where
  "prevector_less a b =
     (if length a < length b then True else if length a > length b then False else prevector_less_elems a b)"

definition CompareOutputBIP69 :: "CTxOut \<Rightarrow> CTxOut \<Rightarrow> bool" where
  "CompareOutputBIP69 a b \<longleftrightarrow>
     nValue a < nValue b \<or> nValue a = nValue b \<and> prevector_less (scriptPubKey a) (scriptPubKey b)"

subsection \<open>Well-formed data and the codecs\<close>

definition wf_outpoint :: "COutPoint \<Rightarrow> bool" where
  "wf_outpoint p \<longleftrightarrow> length (op_hash p) = 32"

definition wf_script :: "CScript \<Rightarrow> bool" where
  "wf_script sc \<longleftrightarrow> length sc \<le> 0x02000000"

definition wf_txin :: "CTxIn \<Rightarrow> bool" where
  "wf_txin i \<longleftrightarrow> wf_outpoint (prevout i) \<and> wf_script (scriptSig i)"

definition wf_txout :: "CTxOut \<Rightarrow> bool" where
  "wf_txout out \<longleftrightarrow> - (2 ^ 63) \<le> nValue out \<and> nValue out < 2 ^ 63 \<and> wf_script (scriptPubKey out)"

definition wf_tx :: "CTransaction \<Rightarrow> bool" where
  "wf_tx tx \<longleftrightarrow> list_all wf_txin (vin tx) \<and> list_all wf_txout (vout tx) \<and>
     length (vin tx) \<le> 0x02000000 \<and> length (vout tx) \<le> 0x02000000 \<and>
     - (2 ^ 15) \<le> tx_nVersion tx \<and> tx_nVersion tx < 2 ^ 15 \<and>
     (if tx_nVersion tx = 3 \<and> nType tx \<noteq> TRANSACTION_NORMAL then wf_script (vExtraPayload tx)
      else vExtraPayload tx = [])"

interpretation uint256: canonical_codec ser_uint256 unser_uint256 "\<lambda>h. length h = 32"
  by unfold_locales (auto simp: ser_uint256_def unser_uint256_def dest: read_bytes_SomeD)

interpretation outpoint: canonical_codec ser_outpoint unser_outpoint wf_outpoint
proof
  show "unser_outpoint (ser_outpoint p @ s) = Some (p, s)" if "wf_outpoint p" for p s
    using that by (simp add: unser_outpoint_def ser_outpoint_def wf_outpoint_def uint256.unser_ser u32.unser_ser)
  show "wf_outpoint p \<and> s = ser_outpoint p @ r" if "unser_outpoint s = Some (p, r)" for s p r
    using that by (auto simp: unser_outpoint_def ser_outpoint_def wf_outpoint_def split: Option.bind_splits
        dest!: uint256.ser_unser u32.ser_unser)
qed

interpretation txin: canonical_codec ser_txin unser_txin wf_txin
proof
  show "unser_txin (ser_txin i @ s) = Some (i, s)" if "wf_txin i" for i s
    using that by (simp add: unser_txin_def ser_txin_def wf_txin_def wf_script_def outpoint.unser_ser
        u32.unser_ser byte_vector.unser_ser)
  show "wf_txin i \<and> s = ser_txin i @ r" if "unser_txin s = Some (i, r)" for s i r
    using that by (auto simp: unser_txin_def ser_txin_def wf_txin_def wf_script_def split: Option.bind_splits
        dest!: outpoint.ser_unser u32.ser_unser byte_vector.ser_unser)
qed

lemma sint_word_of_int64: "- (2 ^ 63) \<le> i \<Longrightarrow> i < 2 ^ 63 \<Longrightarrow> sint (word_of_int i :: u64) = i"
  by (simp add: signed_of_int signed_take_bit_int_eq_self)

lemma sint_range64: "- (2 ^ 63) \<le> sint (v :: u64)" "sint (v :: u64) < 2 ^ 63"
  using sint_greater_eq [of v] sint_less [of v] by simp_all

interpretation txout: canonical_codec ser_txout unser_txout wf_txout
proof
  show "unser_txout (ser_txout out @ s) = Some (out, s)" if "wf_txout out" for out s
    using that by (simp add: unser_txout_def ser_txout_def wf_txout_def wf_script_def
        u64.unser_ser byte_vector.unser_ser sint_word_of_int64)
  show "wf_txout out \<and> s = ser_txout out @ r" if "unser_txout s = Some (out, r)" for s out r
    using that sint_range64 by (auto simp: unser_txout_def ser_txout_def wf_txout_def wf_script_def split: Option.bind_splits
        dest!: u64.ser_unser byte_vector.ser_unser)
qed

lemma bit_sign_16:
  assumes "- (2 ^ 15) \<le> ver" "ver < 2 ^ 15" "15 \<le> i"
  shows "bit (ver :: int) i \<longleftrightarrow> ver < 0"
proof -
  have p: "(2::int) ^ 15 \<le> 2 ^ i"
    using assms(3) by (intro power_increasing) simp_all
  show ?thesis
  proof (cases "ver < 0")
    case True
    then have "ver div 2 ^ i = - 1"
      using p assms(1) by (intro int_div_pos_eq [where r = "ver + 2 ^ i"]) simp_all
    then show ?thesis
      using True by (simp add: bit_iff_odd)
  next
    case False
    then have "ver div 2 ^ i = 0"
      using p assms(2) by simp
    then show ?thesis
      using False by (simp add: bit_iff_odd)
  qed
qed

lemma version_fields:
  assumes "- (2 ^ 15) \<le> ver" "ver < 2 ^ 15"
  shows "sint (ucast (n32bitVersion ver ty) :: u16) = ver"
    and "(ucast (drop_bit 16 (n32bitVersion ver ty)) :: u16) = (if ver < 0 then - 1 else ty)"
proof -
  have "(ucast (n32bitVersion ver ty) :: u16) = word_of_int ver"
    by (intro bit_word_eqI) (simp add: n32bitVersion_def bit_simps)
  then show "sint (ucast (n32bitVersion ver ty) :: u16) = ver"
    using assms by (simp add: signed_of_int signed_take_bit_int_eq_self)
  show "(ucast (drop_bit 16 (n32bitVersion ver ty)) :: u16) = (if ver < 0 then - 1 else ty)"
    by (intro bit_word_eqI) (auto simp: n32bitVersion_def bit_simps bit_sign_16 [OF assms])
qed

lemma n32bitVersion_negative:
  assumes "- (2 ^ 15) \<le> ver" "ver < 0"
  shows "n32bitVersion ver ty = word_of_int ver"
proof (rule bit_word_eqI)
  have "ver < 2 ^ 15"
    using assms(2) by simp
  then show "bit (n32bitVersion ver ty) i \<longleftrightarrow> bit (word_of_int ver :: u32) i" if "i < LENGTH(32)" for i
    using that assms(2) bit_sign_16 [OF assms(1) \<open>ver < 2 ^ 15\<close>, of i]
    by (auto simp: n32bitVersion_def bit_simps)
qed

lemma n32bitVersion_fields:
  assumes "0 \<le> sint (ucast v :: u16)"
  shows "n32bitVersion (sint (ucast v :: u16)) (ucast (drop_bit 16 v)) = v"
proof (rule bit_word_eqI)
  fix i
  assume i: "i < LENGTH(32)"
  have r: "- (2 ^ 15) \<le> sint (ucast v :: u16)" "sint (ucast v :: u16) < 2 ^ 15"
    using sint_greater_eq [of "ucast v :: u16"] sint_less [of "ucast v :: u16"] by simp_all
  show "bit (n32bitVersion (sint (ucast v :: u16)) (ucast (drop_bit 16 v))) i \<longleftrightarrow> bit v i"
    using i assms bit_sign_16 [OF r, of i] by (cases "i < 16") (auto simp: n32bitVersion_def bit_simps)
qed

subsection \<open>Transactions on the wire\<close>

lemma tx_Unserialize_Serialize:
  assumes "wf_tx tx"
  shows "tx_Unserialize (tx_Serialize tx @ s) =
    Some (if tx_nVersion tx < 0 then tx\<lparr>nType := - 1\<rparr> else tx, s)"
proof -
  have w: "list_all wf_txin (vin tx)" "list_all wf_txout (vout tx)" "length (vin tx) \<le> 0x02000000"
      "length (vout tx) \<le> 0x02000000" "- (2 ^ 15) \<le> tx_nVersion tx" "tx_nVersion tx < 2 ^ 15"
    using assms by (simp_all add: wf_tx_def)
  show ?thesis
  proof (cases "tx_nVersion tx = 3 \<and> nType tx \<noteq> TRANSACTION_NORMAL")
    case True
    then have p: "length (vExtraPayload tx) \<le> 0x02000000"
      using assms by (simp add: wf_tx_def wf_script_def)
    show ?thesis
      using True version_fields [of 3 "nType tx"] by (simp add: tx_Unserialize_def tx_Serialize_def u32.unser_ser Let_def version_fields [OF w(5,6)]
          txin.unser_vector_ser [OF w(1,3)] txout.unser_vector_ser [OF w(2,4)] byte_vector.unser_ser [OF p])
  next
    case False
    then have "vExtraPayload tx = []"
      using assms by (auto simp: wf_tx_def split: if_splits)
    then show ?thesis
      using False by (auto simp: tx_Unserialize_def tx_Serialize_def u32.unser_ser Let_def version_fields [OF w(5,6)]
          txin.unser_vector_ser [OF w(1,3)] txout.unser_vector_ser [OF w(2,4)])
  qed
qed

lemma tx_Unserialize_SomeD:
  assumes "tx_Unserialize s = Some (tx, r)"
  shows "wf_tx tx \<and> (0 \<le> tx_nVersion tx \<longrightarrow> s = tx_Serialize tx @ r)"
proof -
  obtain v s1 ins s2 outs s3 lt s4 payload where
    v: "ser_readdata32 s = Some (v, s1)" and i: "unser_vector unser_txin s1 = Some (ins, s2)" and
    out: "unser_vector unser_txout s2 = Some (outs, s3)" and lt: "ser_readdata32 s3 = Some (lt, s4)" and
    p: "(if sint (ucast v :: u16) = 3 \<and> (ucast (drop_bit 16 v) :: u16) \<noteq> TRANSACTION_NORMAL
         then unser_bytes s4 else Some ([], s4)) = Some (payload, r)" and
    tx: "tx = \<lparr>vin = ins, vout = outs, tx_nVersion = sint (ucast v :: u16), nType = ucast (drop_bit 16 v),
      nLockTime = lt, vExtraPayload = payload\<rparr>"
    using assms unfolding tx_Unserialize_def Let_def by (auto split: Option.bind_splits simp del: if_split)
  have r: "- (2 ^ 15) \<le> sint (ucast v :: u16)" "sint (ucast v :: u16) < 2 ^ 15"
    using sint_greater_eq [of "ucast v :: u16"] sint_less [of "ucast v :: u16"] by simp_all
  have pl: "if tx_nVersion tx = 3 \<and> nType tx \<noteq> TRANSACTION_NORMAL
      then wf_script payload \<and> s4 = ser_bytes payload @ r else payload = [] \<and> s4 = r"
    using p byte_vector.ser_unser [of s4 payload r]
    by (cases "tx_nVersion tx = 3 \<and> nType tx \<noteq> TRANSACTION_NORMAL") (auto simp: tx wf_script_def)
  have f: "vin tx = ins" "vout tx = outs" "nLockTime tx = lt" "vExtraPayload tx = payload"
      "tx_nVersion tx = sint (ucast v :: u16)" "nType tx = ucast (drop_bit 16 v)"
    by (simp_all add: tx)
  have "wf_tx tx"
    using txin.unser_vector_unser [OF i] txout.unser_vector_unser [OF out] r pl
    unfolding wf_tx_def f by (simp split: if_splits)
  moreover have "s = tx_Serialize tx @ r" if "0 \<le> tx_nVersion tx"
  proof -
    have "n32bitVersion (tx_nVersion tx) (nType tx) = v"
      using n32bitVersion_fields [of v] that unfolding f by simp
    moreover have "s4 = (if tx_nVersion tx = 3 \<and> nType tx \<noteq> TRANSACTION_NORMAL then ser_bytes payload else []) @ r"
      using pl by (simp split: if_splits)
    moreover have "s1 = ser_vector ser_txin ins @ s2" "s2 = ser_vector ser_txout outs @ s3"
        "s3 = ser_writedata32 lt @ s4" "s = ser_writedata32 v @ s1"
      using txin.unser_vector_unser [OF i] txout.unser_vector_unser [OF out] u32.ser_unser [OF lt] u32.ser_unser [OF v]
      by blast+
    ultimately show ?thesis
      unfolding tx_Serialize_def f by (simp only: append_assoc)
  qed
  ultimately show ?thesis
    by blast
qed

text \<open>
  C24: transactions with a nonnegative version are encoded canonically. Reading
  what \<open>Serialize\<close> writes returns the transaction and the rest of the stream, and conversely every
  stream that is read as such a transaction is its serialization, so the bytes that are hashed for the
  transaction id are the bytes that were received; and the transaction that is read is well formed.
\<close>

theorem tx_wire_canonical:
  assumes "0 \<le> tx_nVersion tx"
  shows "tx_Unserialize t = Some (tx, s) \<longleftrightarrow> wf_tx tx \<and> t = tx_Serialize tx @ s"
proof
  show "wf_tx tx \<and> t = tx_Serialize tx @ s" if "tx_Unserialize t = Some (tx, s)"
    using tx_Unserialize_SomeD [OF that] assms by simp
  show "tx_Unserialize t = Some (tx, s)" if "wf_tx tx \<and> t = tx_Serialize tx @ s"
    using tx_Unserialize_Serialize [of tx s] that assms by simp
qed

text \<open>
  A negative version loses the type of a transaction. The sign extension of
  \<open>nVersion\<close> covers the upper half of \<open>n32bitVersion\<close>, so the bytes, and with them the transaction id, do not
  depend on the type, and reading them back gives the type \<open>0xffff\<close>, whatever it was.
\<close>

theorem tx_negative_version:
  assumes "wf_tx tx" "tx_nVersion tx < 0"
  shows "tx_Serialize (tx\<lparr>nType := ty\<rparr>) = tx_Serialize tx \<and>
    tx_GetHash SerializeHash (tx\<lparr>nType := ty\<rparr>) = tx_GetHash SerializeHash tx \<and>
    tx_Unserialize (tx_Serialize tx @ s) = Some (tx\<lparr>nType := 0xffff\<rparr>, s)"
proof -
  have "tx_Serialize (tx\<lparr>nType := ty\<rparr>) = tx_Serialize tx"
    using assms by (simp add: tx_Serialize_def n32bitVersion_negative wf_tx_def)
  then show ?thesis
    using tx_Unserialize_Serialize [OF assms(1), of s] assms(2) by (simp add: tx_GetHash_def)
qed

definition demo_tx :: CTransaction where
  "demo_tx = \<lparr>vin = [\<lparr>prevout = \<lparr>op_hash = replicate 32 7, op_n = 1\<rparr>, scriptSig = [1, 2, 3], nSequence = SEQUENCE_FINAL\<rparr>],
     vout = [\<lparr>nValue = 5000, scriptPubKey = [118, 169]\<rparr>, \<lparr>nValue = 12, scriptPubKey = []\<rparr>],
     tx_nVersion = 3, nType = TRANSACTION_PROVIDER_REGISTER, nLockTime = 0, vExtraPayload = [1, 0]\<rparr>"

lemma wf_demo_tx: "wf_tx demo_tx"
  by (simp add: wf_tx_def demo_tx_def wf_txin_def wf_txout_def wf_outpoint_def wf_script_def transaction_types)

theorem tx_wire_canonical_witness:
  "0 \<le> tx_nVersion demo_tx \<and> tx_Unserialize (tx_Serialize demo_tx @ [9]) = Some (demo_tx, [9])"
proof -
  have v: "0 \<le> tx_nVersion demo_tx"
    by (simp add: demo_tx_def)
  then show ?thesis
    using tx_wire_canonical [OF v, of "tx_Serialize demo_tx @ [9]" "[9]"] wf_demo_tx by simp
qed

theorem tx_negative_version_witness:
  "tx_Serialize (demo_tx\<lparr>tx_nVersion := - 7, vExtraPayload := [], nType := 4\<rparr>) =
     tx_Serialize (demo_tx\<lparr>tx_nVersion := - 7, vExtraPayload := []\<rparr>)"
proof -
  have "wf_tx (demo_tx\<lparr>tx_nVersion := - 7, vExtraPayload := []\<rparr>)"
    using wf_demo_tx by (simp add: wf_tx_def)
  then show ?thesis
    using tx_negative_version [of "demo_tx\<lparr>tx_nVersion := - 7, vExtraPayload := []\<rparr>" 4] by simp
qed

subsection \<open>Values\<close>

lemma GetValueOut_loop_iff:
  "MoneyRange acc \<Longrightarrow> GetValueOut_loop acc outs = Some v \<longleftrightarrow>
     list_all (\<lambda>out. MoneyRange (nValue out)) outs \<and> v = acc + sum_list (map nValue outs) \<and> MoneyRange v"
proof (induction outs arbitrary: acc)
  case (Cons out outs)
  have nn: "0 \<le> sum_list (map nValue outs)" if "list_all (\<lambda>out. MoneyRange (nValue out)) outs"
    using that by (induction outs) (auto simp: MoneyRange_def)
  show ?case
  proof (cases "MoneyRange (nValue out) \<and> MoneyRange (acc + nValue out)")
    case True
    then have "MoneyRange (acc + nValue out)"
      by blast
    from Cons.IH [OF this] show ?thesis
      using True by (simp add: add.assoc)
  next
    case False
    then show ?thesis
      using Cons.prems nn by (auto simp: MoneyRange_def)
  qed
qed auto

lemma GetValueOut_iff:
  "GetValueOut tx = Some v \<longleftrightarrow> list_all (\<lambda>out. MoneyRange (nValue out)) (vout tx) \<and>
     v = sum_list (map nValue (vout tx)) \<and> MoneyRange v"
  unfolding GetValueOut_def by (subst GetValueOut_loop_iff) (simp_all add: MoneyRange_def MAX_MONEY_def COIN_def)

subsection \<open>The order of outpoints\<close>

lemma memcmp_eq_0: "length a = length b \<Longrightarrow> memcmp a b = 0 \<longleftrightarrow> a = b"
  by (induction a b rule: list_induct2) (auto simp: not_less order.antisym)

lemma memcmp_swap: "length a = length b \<Longrightarrow> memcmp b a = - memcmp a b"
  by (induction a b rule: list_induct2) (auto simp: not_less order.antisym)

lemma memcmp_trans:
  "length a = length b \<Longrightarrow> length b = length c \<Longrightarrow> memcmp a b < 0 \<Longrightarrow> memcmp b c < 0 \<Longrightarrow> memcmp a c < 0"
proof (induction a b arbitrary: c rule: list_induct2)
  case (Cons x xs y ys)
  then obtain z zs where "c = z # zs" "length ys = length zs"
    by (cases c) auto
  then show ?case
    using Cons.IH [of zs] Cons.prems by (auto split: if_splits)
qed simp

text \<open>\<open>operator<\<close> of outpoints is a strict total order, as \<open>std::set<COutPoint>\<close> needs it.\<close>

lemma outpoint_less_order:
  assumes "wf_outpoint a" "wf_outpoint b" "wf_outpoint c"
  shows "\<not> outpoint_less a a" "outpoint_less a b \<Longrightarrow> outpoint_less b c \<Longrightarrow> outpoint_less a c"
    "outpoint_less a b \<or> a = b \<or> outpoint_less b a"
proof -
  have l: "length (op_hash a) = length (op_hash b)" "length (op_hash b) = length (op_hash c)"
    "length (op_hash a) = length (op_hash c)"
    using assms by (simp_all add: wf_outpoint_def)
  show "\<not> outpoint_less a a"
    using memcmp_eq_0 [of "op_hash a" "op_hash a"] by (simp add: outpoint_less_def Let_def)
  show "outpoint_less a c" if "outpoint_less a b" "outpoint_less b c"
    using that memcmp_trans [OF l(1,2)] memcmp_eq_0 [OF l(1)] memcmp_eq_0 [OF l(2)] memcmp_eq_0 [OF l(3)]
    by (auto simp: outpoint_less_def Let_def)
  show "outpoint_less a b \<or> a = b \<or> outpoint_less b a"
    using memcmp_eq_0 [OF l(1)] memcmp_swap [OF l(1)] less_linear [of "op_n a" "op_n b"]
    by (cases a; cases b) (auto simp: outpoint_less_def Let_def)
qed

text \<open>
  The order of outputs compares the lengths of the scripts before their
  bytes, so it is not the lexicographic order of the scripts that the input comparison uses for hashes:
  of two outputs of one value the one with the shorter script comes first, although its script is the
  greater of the two byte strings.
\<close>

lemma bip69_output_order:
  "CompareOutputBIP69 \<lparr>nValue = v, scriptPubKey = 2 # a\<rparr> \<lparr>nValue = v, scriptPubKey = 1 # a @ [x]\<rparr> \<and>
   lexicographical_compare (1 # a @ [x]) (2 # a)"
  by (simp add: CompareOutputBIP69_def prevector_less_def)

end
