(* ===== verification/Merkle.thy ===== *)
theory Merkle
  imports Hash Transaction
begin

section \<open>Merkle roots (consensus/merkle.cpp)\<close>

text \<open>
  \<open>ComputeMerkleRoot\<close> halves a list of hashes until one is left, duplicating the last one of a list of odd length, and reports
  whether it met two equal hashes side by side. The multi-way functions of \<open>SHA256D64\<close> and what its words hold at first
  are arguments, as in \<open>Sha256d64\<close>. The code hashes in place: each output block ends before the next input block
  begins, so the outputs are those of the inputs at the start.
\<close>

subsection \<open>The code\<close>

fun equal_pair :: "uint256 list \<Rightarrow> bool" where
  "equal_pair (a # b # hashes) \<longleftrightarrow> a = b \<or> equal_pair hashes"
| "equal_pair _ \<longleftrightarrow> False"

definition merkle_even :: "uint256 list \<Rightarrow> uint256 list" where
  "merkle_even hashes = (if odd (length hashes) then hashes @ [last hashes] else hashes)"

definition merkle_level :: "(nat \<times> (bytes \<Rightarrow> bytes)) list \<Rightarrow> u32 list \<Rightarrow> uint256 list \<Rightarrow> uint256 list" where
  "merkle_level ways u hashes =
     (let hashes = merkle_even hashes; n = length hashes div 2
      in blocks_of 32 n (SHA256D64 ways u (concat hashes) n))"

function merkle_loop :: "(nat \<times> (bytes \<Rightarrow> bytes)) list \<Rightarrow> u32 list \<Rightarrow> bool \<Rightarrow> uint256 list \<Rightarrow> bool \<times> uint256 list" where
  "merkle_loop ways u mutation hashes =
     (if length hashes > 1
      then merkle_loop ways u (mutation \<or> equal_pair hashes) (merkle_level ways u hashes)
      else (mutation, hashes))"
  by pat_completeness auto

lemma length_blocks_of [simp]: "length (blocks_of B n m) = n"
  by (induction n arbitrary: m) simp_all

lemma length_merkle_level [simp]: "length (merkle_level ways u hashes) = (length hashes + 1) div 2"
  by (auto simp: merkle_level_def merkle_even_def Let_def elim!: oddE)

termination merkle_loop
  by (relation "measure (\<lambda>(ways, u, mutation, hashes). length hashes)") (auto simp: less_Suc_eq_le)

declare merkle_loop.simps [simp del]

definition ComputeMerkleRoot :: "(nat \<times> (bytes \<Rightarrow> bytes)) list \<Rightarrow> u32 list \<Rightarrow> uint256 list \<Rightarrow> uint256 \<times> bool" where
  "ComputeMerkleRoot ways u hashes =
     (case merkle_loop ways u False hashes of (mutation, hashes) \<Rightarrow>
        (if length hashes = 0 then uint256_null else hashes ! 0, mutation))"

definition BlockMerkleRoot :: "(nat \<times> (bytes \<Rightarrow> bytes)) list \<Rightarrow> u32 list \<Rightarrow> CTransaction list \<Rightarrow> uint256 \<times> bool" where
  "BlockMerkleRoot ways u vtx = ComputeMerkleRoot ways u (map (tx_GetHash hash256) vtx)"

subsection \<open>The tree\<close>

fun pair_up :: "uint256 list \<Rightarrow> bytes list" where
  "pair_up (a # b # hashes) = (a @ b) # pair_up hashes"
| "pair_up _ = []"

text \<open>The inputs hashed on the way to the root, level by level.\<close>

function merkle_inputs :: "uint256 list \<Rightarrow> bytes set" where
  "merkle_inputs hashes =
     (if length hashes > 1 then set (pair_up (merkle_even hashes)) \<union> merkle_inputs (map hash256 (pair_up (merkle_even hashes)))
      else {})"
  by pat_completeness auto

lemma length_pair_up [simp]: "length (pair_up hashes) = length hashes div 2"
  by (induction hashes rule: pair_up.induct) auto

lemma length_merkle_even: "length (merkle_even hashes) div 2 = (length hashes + 1) div 2"
  by (auto simp: merkle_even_def elim!: oddE)

termination merkle_inputs
  by (relation "measure length") (auto simp: length_merkle_even less_Suc_eq_le)

declare merkle_inputs.simps [simp del]

text \<open>The number of levels above the leaves.\<close>

function merkle_depth :: "nat \<Rightarrow> nat" where
  "merkle_depth n = (if n > 1 then Suc (merkle_depth ((n + 1) div 2)) else 0)"
  by pat_completeness auto
termination
  by (relation "measure id") auto

declare merkle_depth.simps [simp del]

lemma blocks_of_concat: "list_all (\<lambda>h. length h = B) hs \<Longrightarrow> blocks_of B (length hs) (concat hs) = hs"
  by (induction hs) simp_all

lemma pair_up_concat: "even (length hs) \<Longrightarrow> concat (pair_up hs) = concat hs"
  by (induction hs rule: pair_up.induct) auto

lemma pair_up_64: "list_all (\<lambda>h. length h = 32) hs \<Longrightarrow> list_all (\<lambda>b. length b = 64) (pair_up hs)"
  by (induction hs rule: pair_up.induct) auto

lemma length_concat_64: "list_all (\<lambda>b. length b = 64) bs \<Longrightarrow> length (concat bs) = 64 * length bs"
  by (induction bs) simp_all

lemma even_merkle_even: "even (length (merkle_even hs))"
  by (simp add: merkle_even_def)

lemma merkle_even_32: "list_all (\<lambda>h. length h = 32) hs \<Longrightarrow> list_all (\<lambda>h. length h = 32) (merkle_even hs)"
  by (cases hs rule: rev_cases) (auto simp: merkle_even_def)

lemma length_hash256 [simp]: "length (hash256 m) = 32"
  by (simp add: hash256_def)

lemma merkle_level_eq:
  assumes "length u = 8" "list_all d64_way ways" "list_all (\<lambda>h. length h = 32) hs"
  shows "merkle_level ways u hs = map hash256 (pair_up (merkle_even hs))"
proof -
  let ?p = "pair_up (merkle_even hs)"
  have p: "list_all (\<lambda>b. length b = 64) ?p" "concat ?p = concat (merkle_even hs)" "length (merkle_even hs) div 2 = length ?p"
    using pair_up_64 [OF merkle_even_32 [OF assms(3)]] pair_up_concat [OF even_merkle_even] by simp_all
  have l: "length (concat ?p) = 64 * length ?p"
    using p(1) by (rule length_concat_64)
  have "SHA256D64 ways u (concat ?p) (length ?p) = concat (map hash256 ?p)"
    using SHA256D64_blocks [OF assms(1,2) l] blocks_of_concat [OF p(1)] l
    by (simp add: full_blocks_def hash256_def [abs_def])
  moreover have "blocks_of 32 (length ?p) (concat (map hash256 ?p)) = map hash256 ?p"
    using blocks_of_concat [of 32 "map hash256 ?p"] by (simp add: list_all_length)
  ultimately show ?thesis
    unfolding merkle_level_def Let_def p(3) p(2) [symmetric] by simp
qed

text \<open>The loop on whole hashes, with the hashes of the pairs.\<close>

lemma merkle_loop_step:
  assumes "length u = 8" "list_all d64_way ways" "list_all (\<lambda>h. length h = 32) hs" "length hs > 1"
  shows "merkle_loop ways u mutation hs =
    merkle_loop ways u (mutation \<or> equal_pair hs) (map hash256 (pair_up (merkle_even hs)))"
  using assms by (subst merkle_loop.simps) (simp add: merkle_level_eq)

lemma merkle_loop_end: "length hs \<le> 1 \<Longrightarrow> merkle_loop ways u mutation hs = (mutation, hs)"
  by (subst merkle_loop.simps) simp

lemma merkle_loop_mutated: "mutation \<Longrightarrow> fst (merkle_loop ways u mutation hs)"
proof (induction ways u mutation hs rule: merkle_loop.induct)
  case (1 ways u mutation hs)
  then show ?case
    by (subst merkle_loop.simps) simp
qed

lemma hashes_32: "list_all (\<lambda>h. length h = 32) (map hash256 bs)"
  by (simp add: list_all_length)

lemma pair_up_inj:
  "list_all (\<lambda>h. length h = 32) xs \<Longrightarrow> list_all (\<lambda>h. length h = 32) ys \<Longrightarrow> even (length xs) \<Longrightarrow> even (length ys) \<Longrightarrow>
    pair_up xs = pair_up ys \<Longrightarrow> xs = ys"
proof (induction xs arbitrary: ys rule: pair_up.induct)
  case (1 a b xs)
  from "1.prems"(5) obtain c d ys' where ys: "ys = c # d # ys'"
    by (cases ys rule: pair_up.cases) simp_all
  with "1.prems" have "a = c" "b = d"
    by simp_all
  moreover have "xs = ys'"
    using "1.IH" [of ys'] "1.prems" unfolding ys by simp
  ultimately show ?case
    unfolding ys by simp
next
  case "2_1"
  then show ?case
    by (cases ys rule: pair_up.cases) auto
qed simp

lemma map_hash_collision:
  "map hash256 as = map hash256 bs \<Longrightarrow> as = bs \<or> (\<exists>a\<in>set as. \<exists>b\<in>set bs. a \<noteq> b \<and> hash256 a = hash256 b)"
proof (induction as arbitrary: bs)
  case (Cons a as)
  then show ?case
    by (cases bs) auto
qed simp

lemma equal_pair_last: "odd (length xs) \<Longrightarrow> equal_pair (xs @ [last xs])"
proof (induction xs rule: equal_pair.induct)
  case (1 a b xs)
  then show ?case
    by (cases xs) auto
qed auto

lemma merkle_even_eq:
  assumes "merkle_even xs = merkle_even ys" "\<not> equal_pair xs" "\<not> equal_pair ys"
  shows "xs = ys"
  using assms equal_pair_last [of xs] equal_pair_last [of ys] unfolding merkle_even_def by (auto split: if_splits)

text \<open>Two unmarked lists with equally many levels and the same root are equal, or the two computations hash two different inputs to the same value.\<close>

lemma merkle_binding:
  assumes "length u = 8" "list_all d64_way ways"
  shows "list_all (\<lambda>h. length h = 32) xs \<Longrightarrow> list_all (\<lambda>h. length h = 32) ys \<Longrightarrow>
    merkle_depth (length xs) = merkle_depth (length ys) \<Longrightarrow>
    merkle_loop ways u m xs = (False, r) \<Longrightarrow> merkle_loop ways u m' ys = (False, r) \<Longrightarrow>
    xs = ys \<or> (\<exists>a\<in>merkle_inputs xs. \<exists>b\<in>merkle_inputs ys. a \<noteq> b \<and> hash256 a = hash256 b)"
proof (induction "length xs" arbitrary: xs ys m m' rule: less_induct)
  case less
  show ?case
  proof (cases "length xs > 1")
    case False
    then have "\<not> length ys > 1"
      using less.prems(3) by (metis merkle_depth.simps Zero_not_Suc)
    then show ?thesis
      using False less.prems(4,5) by (simp add: merkle_loop_end)
  next
    case True
    then have ys: "length ys > 1"
      using less.prems(3) by (metis merkle_depth.simps Zero_not_Suc)
    let ?px = "pair_up (merkle_even xs)" and ?py = "pair_up (merkle_even ys)"
    let ?hx = "map hash256 ?px" and ?hy = "map hash256 ?py"
    have lx: "merkle_loop ways u (m \<or> equal_pair xs) ?hx = (False, r)"
      using merkle_loop_step [OF assms less.prems(1) True] less.prems(4) by simp
    have ly: "merkle_loop ways u (m' \<or> equal_pair ys) ?hy = (False, r)"
      using merkle_loop_step [OF assms less.prems(2) ys] less.prems(5) by simp
    have nx: "\<not> equal_pair xs" and ny: "\<not> equal_pair ys"
      using merkle_loop_mutated [of "m \<or> equal_pair xs" ways u ?hx] merkle_loop_mutated [of "m' \<or> equal_pair ys" ways u ?hy] lx ly by auto
    have len: "length ?hx < length xs" "merkle_depth (length ?hx) = merkle_depth (length ?hy)"
      using True ys less.prems(3) by (simp_all add: length_merkle_even merkle_depth.simps [of "length xs"] merkle_depth.simps [of "length ys"])
    have up: "merkle_inputs xs = set ?px \<union> merkle_inputs ?hx" "merkle_inputs ys = set ?py \<union> merkle_inputs ?hy"
      using True ys by (subst merkle_inputs.simps, simp)+
    from less.hyps [OF len(1) hashes_32 hashes_32 len(2) lx ly] show ?thesis
    proof
      assume "?hx = ?hy"
      from map_hash_collision [OF this] show ?thesis
      proof
        assume "?px = ?py"
        then have "merkle_even xs = merkle_even ys"
          using pair_up_inj [OF merkle_even_32 [OF less.prems(1)] merkle_even_32 [OF less.prems(2)] even_merkle_even even_merkle_even] by blast
        then show ?thesis
          using merkle_even_eq nx ny by blast
      qed (use up in blast)
    qed (use up in blast)
  qed
qed

text \<open>The list is never emptied, and what is left does not depend on the mark.\<close>

lemma merkle_loop_single: "hs \<noteq> [] \<Longrightarrow> length (snd (merkle_loop ways u m hs)) = 1"
proof (induction ways u m hs rule: merkle_loop.induct)
  case (1 ways u m hs)
  then have "merkle_level ways u hs \<noteq> []"
    by (simp flip: length_greater_0_conv)
  then show ?case
    using 1 by (subst merkle_loop.simps) (auto simp: Suc_le_eq simp flip: length_greater_0_conv)
qed

lemma merkle_loop_unmarked: "snd (merkle_loop ways u m hs) = snd (merkle_loop ways u m' hs)"
proof (induction ways u m hs arbitrary: m' rule: merkle_loop.induct)
  case (1 ways u m hs)
  show ?case
  proof (cases "length hs > 1")
    case True
    then have "merkle_loop ways u m hs = merkle_loop ways u (m \<or> equal_pair hs) (merkle_level ways u hs)" for m
      by (subst merkle_loop.simps) simp
    then show ?thesis
      using "1.IH" [OF True] by metis
  qed (simp add: merkle_loop_end)
qed

lemma merkle_duplicate:
  assumes "length u = 8" "list_all d64_way ways" "list_all (\<lambda>h. length h = 32) xs" "odd (length xs)" "length xs > 1"
  shows "ComputeMerkleRoot ways u (xs @ [last xs]) = (fst (ComputeMerkleRoot ways u xs), True)"
proof -
  have d: "list_all (\<lambda>h. length h = 32) (xs @ [last xs])" "merkle_even (xs @ [last xs]) = merkle_even xs"
    using merkle_even_32 [OF assms(3)] assms(4) by (auto simp: merkle_even_def)
  have "xs \<noteq> []"
    using assms(5) by auto
  then have "merkle_loop ways u False (xs @ [last xs]) = merkle_loop ways u True (map hash256 (pair_up (merkle_even xs)))"
    using merkle_loop_step [OF assms(1,2) d(1), of False] assms(5) equal_pair_last [OF assms(4)] unfolding d(2) by auto
  moreover have "merkle_loop ways u False xs = merkle_loop ways u (equal_pair xs) (map hash256 (pair_up (merkle_even xs)))"
    using merkle_loop_step [OF assms(1-3,5), of False] by simp
  ultimately show ?thesis
    using merkle_loop_mutated [of True ways u] merkle_loop_unmarked [of ways u True _ "equal_pair xs"]
    unfolding ComputeMerkleRoot_def by (simp add: split_beta)
qed

lemma merkle_root_binds:
  assumes "length u = 8" "list_all d64_way ways"
    and "list_all (\<lambda>h. length h = 32) xs" "list_all (\<lambda>h. length h = 32) ys" "xs \<noteq> []" "ys \<noteq> []"
    and "merkle_depth (length xs) = merkle_depth (length ys)"
    and "ComputeMerkleRoot ways u xs = (r, False)" "ComputeMerkleRoot ways u ys = (r, False)"
  shows "xs = ys \<or> (\<exists>a\<in>merkle_inputs xs. \<exists>b\<in>merkle_inputs ys. a \<noteq> b \<and> hash256 a = hash256 b)"
proof -
  have l: "merkle_loop ways u False hs = (False, [r])" if "hs \<noteq> []" "ComputeMerkleRoot ways u hs = (r, False)" for hs
    using that(2) merkle_loop_single [OF that(1), of ways u False] unfolding ComputeMerkleRoot_def
    by (auto simp: length_Suc_conv split: prod.splits)
  show ?thesis
    using merkle_binding [OF assms(1-4,7) l [OF assms(5,8)] l [OF assms(6,9)]] by auto
qed

text \<open>One level up, and what a level keeps of a list without the mark.\<close>

definition merkle_up :: "uint256 list \<Rightarrow> uint256 list" where
  "merkle_up hs = map hash256 (pair_up (merkle_even hs))"

lemma merkle_up_keeps:
  assumes "length u = 8" "list_all d64_way ways" "list_all (\<lambda>h. length h = 32) hs" "length hs > 1" "ComputeMerkleRoot ways u hs = (r, False)"
  shows "list_all (\<lambda>h. length h = 32) (merkle_up hs)" "merkle_up hs \<noteq> []" "ComputeMerkleRoot ways u (merkle_up hs) = (r, False)"
    "merkle_inputs (merkle_up hs) \<subseteq> merkle_inputs hs" "merkle_depth (length hs) = Suc (merkle_depth (length (merkle_up hs)))"
proof -
  show "list_all (\<lambda>h. length h = 32) (merkle_up hs)"
    unfolding merkle_up_def by (rule hashes_32)
  show "merkle_up hs \<noteq> []"
    using assms(4) by (simp add: merkle_up_def length_merkle_even flip: length_greater_0_conv)
  have step: "merkle_loop ways u False hs = merkle_loop ways u (equal_pair hs) (merkle_up hs)"
    using merkle_loop_step [OF assms(1-4), of False] by (simp add: merkle_up_def)
  then have "\<not> equal_pair hs"
    using assms(5) merkle_loop_mutated [of True ways u "merkle_up hs"] by (auto simp: ComputeMerkleRoot_def split: prod.splits)
  then show "ComputeMerkleRoot ways u (merkle_up hs) = (r, False)"
    using assms(5) step by (simp add: ComputeMerkleRoot_def)
  show "merkle_inputs (merkle_up hs) \<subseteq> merkle_inputs hs"
    using assms(4) unfolding merkle_up_def by (subst merkle_inputs.simps [of hs]) simp
  show "merkle_depth (length hs) = Suc (merkle_depth (length (merkle_up hs)))"
    using assms(4) by (subst merkle_depth.simps) (simp add: merkle_up_def length_merkle_even)
qed

lemma merkle_ancestors:
  assumes "length u = 8" "list_all d64_way ways"
  shows "list_all (\<lambda>h. length h = 32) hs \<Longrightarrow> hs \<noteq> [] \<Longrightarrow> ComputeMerkleRoot ways u hs = (r, False) \<Longrightarrow> n \<le> merkle_depth (length hs) \<Longrightarrow>
    list_all (\<lambda>h. length h = 32) ((merkle_up ^^ n) hs) \<and> (merkle_up ^^ n) hs \<noteq> [] \<and>
    ComputeMerkleRoot ways u ((merkle_up ^^ n) hs) = (r, False) \<and> merkle_inputs ((merkle_up ^^ n) hs) \<subseteq> merkle_inputs hs \<and>
    merkle_depth (length ((merkle_up ^^ n) hs)) = merkle_depth (length hs) - n"
proof (induction n arbitrary: hs)
  case (Suc n)
  then have "length hs > 1"
    using merkle_depth.simps [of "length hs"] by (simp split: if_splits)
  note keeps = merkle_up_keeps [OF assms Suc.prems(1) this Suc.prems(3)]
  show ?case
    using Suc.IH [OF keeps(1-3)] Suc.prems(4) keeps(4,5) unfolding funpow_Suc_right o_apply by auto
qed simp

text \<open>
  C7: a Merkle root computed without the mutation mark fixes the list of leaves up to the number of levels. If two non-empty lists
  get the same root and neither is marked, then the one whose tree has no more levels is the level of the other's tree at the same distance from the root, and so the same list where
  the trees have equally many levels, unless the two computations themselves hash two different 64-byte inputs to the same value. Appending a copy of the last leaf
  to a list of odd length, which does leave the root unchanged, is always marked.
\<close>

theorem merkle_root_binding:
  assumes "length u = 8" "list_all d64_way ways"
    and "list_all (\<lambda>h. length h = 32) xs" "list_all (\<lambda>h. length h = 32) ys" "xs \<noteq> []" "ys \<noteq> []"
    and "merkle_depth (length xs) \<le> merkle_depth (length ys)"
    and "ComputeMerkleRoot ways u xs = (r, False)" "ComputeMerkleRoot ways u ys = (r, False)"
  shows "(xs = (merkle_up ^^ (merkle_depth (length ys) - merkle_depth (length xs))) ys \<or>
      (\<exists>a\<in>merkle_inputs xs. \<exists>b\<in>merkle_inputs ys. a \<noteq> b \<and> hash256 a = hash256 b)) \<and>
    (odd (length xs) \<and> length xs > 1 \<longrightarrow> ComputeMerkleRoot ways u (xs @ [last xs]) = (r, True)) \<and>
    (odd (length ys) \<and> length ys > 1 \<longrightarrow> ComputeMerkleRoot ways u (ys @ [last ys]) = (r, True))"
proof -
  let ?zs = "(merkle_up ^^ (merkle_depth (length ys) - merkle_depth (length xs))) ys"
  have zs: "list_all (\<lambda>h. length h = 32) ?zs" "?zs \<noteq> []" "ComputeMerkleRoot ways u ?zs = (r, False)" "merkle_inputs ?zs \<subseteq> merkle_inputs ys"
      "merkle_depth (length xs) = merkle_depth (length ?zs)"
    using merkle_ancestors [OF assms(1,2,4,6,9), of "merkle_depth (length ys) - merkle_depth (length xs)"] assms(7) by auto
  show ?thesis
    using merkle_root_binds [OF assms(1-3) zs(1) assms(5) zs(2,5) assms(8) zs(3)] zs(4)
      merkle_duplicate [OF assms(1-3)] merkle_duplicate [OF assms(1,2,4)] assms(8,9) by auto
qed

lemma root_of_two:
  assumes "length a = 32" "length b = 32" "a \<noteq> b"
  shows "ComputeMerkleRoot [] (replicate 8 0) [a, b] = (hash256 (a @ b), False)"
  using merkle_loop_step [of "replicate 8 0" "[]" "[a, b]" False] assms
  by (simp add: ComputeMerkleRoot_def merkle_loop_end merkle_even_def)

theorem merkle_root_binding_witness:
  "let ys = [replicate 32 1, replicate 32 2]; xs = [hash256 (concat ys)]
   in ComputeMerkleRoot [] (replicate 8 0) xs = (hash256 (concat ys), False) \<and> ComputeMerkleRoot [] (replicate 8 0) ys = (hash256 (concat ys), False) \<and>
      (xs = (merkle_up ^^ 1) ys \<or> (\<exists>a\<in>merkle_inputs xs. \<exists>b\<in>merkle_inputs ys. a \<noteq> b \<and> hash256 a = hash256 b))"
proof -
  let ?ys = "[replicate 32 1, replicate 32 2] :: uint256 list"
  let ?xs = "[hash256 (concat ?ys)]"
  have ys: "ComputeMerkleRoot [] (replicate 8 0) ?ys = (hash256 (concat ?ys), False)"
    using root_of_two [of "replicate 32 1" "replicate 32 2"] by simp
  have xs: "ComputeMerkleRoot [] (replicate 8 0) ?xs = (hash256 (concat ?ys), False)"
    by (simp add: ComputeMerkleRoot_def merkle_loop_end)
  have d: "merkle_depth (length ?xs) = 0" "merkle_depth (length ?ys) = 1"
    by (simp_all add: merkle_depth.simps)
  show ?thesis
    using merkle_root_binding [OF _ _ _ _ _ _ _ xs ys] xs ys d by (simp add: Let_def)
qed

end
