(* ===== verification/Merkleblock.thy ===== *)
theory Merkleblock
  imports Merkle
begin

section \<open>Partial Merkle trees (merkleblock.h, merkleblock.cpp)\<close>

text \<open>
  A partial Merkle tree sends some transaction ids of a block with the hashes that lead to its root. The constructor
  walks the tree depth first and stores a flag bit per node and a hash per node it does not descend into;
  \<open>ExtractMatches\<close> consumes them in the same order and returns the root. \<open>Hash\<close> of two ranges is the double
  hash of their concatenation, as \<open>Hash\<close> shows. Positions and widths stay far below \<open>2 ^ 32\<close> and are naturals.
\<close>

unbundle bit_operations_syntax

subsection \<open>Bits and bytes\<close>

definition BitsToBytes :: "bool list \<Rightarrow> bytes" where
  "BitsToBytes bits =
     fold (\<lambda>p ret. ret[p div 8 := ret ! (p div 8) OR push_bit (p mod 8) (of_bool (bits ! p))]) [0..<length bits]
       (replicate ((length bits + 7) div 8) 0)"

definition BytesToBits :: "bytes \<Rightarrow> bool list" where
  "BytesToBits bs = map (\<lambda>p. bs ! (p div 8) AND push_bit (p mod 8) 1 \<noteq> 0) [0..<length bs * 8]"

subsection \<open>The tree\<close>

record CPartialMerkleTree =
  pmt_nTransactions :: nat
  vBits :: "bool list"
  vHash :: "uint256 list"
  fBad :: bool

definition CalcTreeWidth :: "nat \<Rightarrow> nat \<Rightarrow> nat" where
  "CalcTreeWidth nTransactions height = (nTransactions + 2 ^ height - 1) div 2 ^ height"

fun CalcHash :: "uint256 list \<Rightarrow> nat \<Rightarrow> nat \<Rightarrow> uint256" where
  "CalcHash vTxid 0 pos = vTxid ! pos"
| "CalcHash vTxid (Suc height) pos =
     (let left = CalcHash vTxid height (pos * 2);
          right = (if pos * 2 + 1 < CalcTreeWidth (length vTxid) height then CalcHash vTxid height (pos * 2 + 1) else left)
      in hash256 (left @ right))"

declare CalcHash.simps(2) [simp del]

text \<open>The loop over the leaves below a node.\<close>

definition fParentOfMatch :: "bool list \<Rightarrow> nat \<Rightarrow> nat \<Rightarrow> nat \<Rightarrow> bool" where
  "fParentOfMatch vMatch n height pos \<longleftrightarrow> list_ex (\<lambda>p. vMatch ! p) [pos * 2 ^ height..<min ((pos + 1) * 2 ^ height) n]"

text \<open>The bits and hashes that a call appends.\<close>

fun TraverseAndBuild :: "uint256 list \<Rightarrow> bool list \<Rightarrow> nat \<Rightarrow> nat \<Rightarrow> bool list \<times> uint256 list" where
  "TraverseAndBuild vTxid vMatch height pos =
     (let f = fParentOfMatch vMatch (length vTxid) height pos
      in if height = 0 \<or> \<not> f then ([f], [CalcHash vTxid height pos])
         else (case TraverseAndBuild vTxid vMatch (height - 1) (pos * 2) of (bits, hashes) \<Rightarrow>
           if pos * 2 + 1 < CalcTreeWidth (length vTxid) (height - 1)
           then (case TraverseAndBuild vTxid vMatch (height - 1) (pos * 2 + 1) of
                   (bits', hashes') \<Rightarrow> (f # bits @ bits', hashes @ hashes'))
           else (f # bits, hashes)))"

declare TraverseAndBuild.simps [simp del]

lemma width_gt:
  assumes "1 < CalcTreeWidth n h"
  shows "2 ^ h < n"
proof -
  have "2 \<le> (n + 2 ^ h - 1) div 2 ^ h"
    using assms unfolding CalcTreeWidth_def by linarith
  then have "2 * 2 ^ h \<le> n + 2 ^ h - 1"
    by (subst (asm) less_eq_div_iff_mult_less_eq) simp_all
  moreover have "(0 :: nat) < 2 ^ h"
    by simp
  ultimately show ?thesis
    by linarith
qed

function tree_height :: "nat \<Rightarrow> nat \<Rightarrow> nat" where
  "tree_height n h = (if CalcTreeWidth n h > 1 then tree_height n (h + 1) else h)"
  by pat_completeness auto
termination
proof (relation "measure (\<lambda>(n, h). n - h)")
  fix n h :: nat
  assume "CalcTreeWidth n h > 1"
  then have "2 ^ h < n"
    by (rule width_gt)
  then have "h < n"
    using less_exp [of h] by linarith
  then show "((n, h + 1), n, h) \<in> measure (\<lambda>(n, h). n - h)"
    by simp
qed simp

declare tree_height.simps [simp del]

text \<open>With no transaction the first call reaches the assertion of \<open>CalcHash\<close>.\<close>

definition pmt_build :: "uint256 list \<Rightarrow> bool list \<Rightarrow> CPartialMerkleTree option" where
  "pmt_build vTxid vMatch =
     (if vTxid = [] then None
      else case TraverseAndBuild vTxid vMatch (tree_height (length vTxid) 0) 0 of
        (bits, hashes) \<Rightarrow> Some \<lparr>pmt_nTransactions = length vTxid, vBits = bits, vHash = hashes, fBad = False\<rparr>)"

definition pmt_empty :: CPartialMerkleTree where
  "pmt_empty = \<lparr>pmt_nTransactions = 0, vBits = [], vHash = [], fBad = True\<rparr>"

text \<open>The reference arguments of the extraction and the flag it sets.\<close>

record extraction =
  nBitsUsed :: nat
  nHashUsed :: nat
  ex_vMatch :: "uint256 list"
  ex_vnIndex :: "nat list"
  ex_bad :: bool

fun TraverseAndExtract :: "CPartialMerkleTree \<Rightarrow> nat \<Rightarrow> nat \<Rightarrow> extraction \<Rightarrow> uint256 \<times> extraction" where
  "TraverseAndExtract t height pos e =
     (if nBitsUsed e \<ge> length (vBits t) then (uint256_null, e\<lparr>ex_bad := True\<rparr>)
      else let f = vBits t ! nBitsUsed e; e = e\<lparr>nBitsUsed := nBitsUsed e + 1\<rparr>
       in if height = 0 \<or> \<not> f then
            (if nHashUsed e \<ge> length (vHash t) then (uint256_null, e\<lparr>ex_bad := True\<rparr>)
             else let hash = vHash t ! nHashUsed e; e = e\<lparr>nHashUsed := nHashUsed e + 1\<rparr>
              in (hash, if height = 0 \<and> f
                        then e\<lparr>ex_vMatch := ex_vMatch e @ [hash], ex_vnIndex := ex_vnIndex e @ [pos]\<rparr> else e))
          else (case TraverseAndExtract t (height - 1) (pos * 2) e of (left, e) \<Rightarrow>
            if pos * 2 + 1 < CalcTreeWidth (pmt_nTransactions t) (height - 1)
            then (case TraverseAndExtract t (height - 1) (pos * 2 + 1) e of (right, e) \<Rightarrow>
                    (hash256 (left @ right), if right = left then e\<lparr>ex_bad := True\<rparr> else e))
            else (hash256 (left @ left), e)))"

declare TraverseAndExtract.simps [simp del]

definition MaxBlockSize :: "bool \<Rightarrow> nat" where
  "MaxBlockSize fDIP0001Active = (if fDIP0001Active then 2000000 else 1000000)"

text \<open>The call clears the list of matches, not the list of indices, and leaves its mark in the object.\<close>

definition extraction_start :: "bool \<Rightarrow> nat list \<Rightarrow> extraction" where
  "extraction_start bad vnIndex = \<lparr>nBitsUsed = 0, nHashUsed = 0, ex_vMatch = [], ex_vnIndex = vnIndex, ex_bad = bad\<rparr>"

definition ExtractMatches :: "CPartialMerkleTree \<Rightarrow> nat list \<Rightarrow> uint256 \<times> uint256 list \<times> nat list \<times> CPartialMerkleTree" where
  "ExtractMatches t vnIndex =
     (if pmt_nTransactions t = 0 \<or> pmt_nTransactions t > MaxBlockSize True div 60 \<or>
         length (vHash t) > pmt_nTransactions t \<or> length (vBits t) < length (vHash t)
      then (uint256_null, [], vnIndex, t)
      else (case TraverseAndExtract t (tree_height (pmt_nTransactions t) 0) 0 (extraction_start (fBad t) vnIndex) of (root, e) \<Rightarrow>
        (if ex_bad e \<or> (nBitsUsed e + 7) div 8 \<noteq> (length (vBits t) + 7) div 8 \<or> nHashUsed e \<noteq> length (vHash t)
         then uint256_null else root, ex_vMatch e, ex_vnIndex e, t\<lparr>fBad := ex_bad e\<rparr>)))"

definition pmt_Serialize :: "CPartialMerkleTree \<Rightarrow> bytes" where
  "pmt_Serialize t =
     ser_writedata32 (of_nat (pmt_nTransactions t)) @ ser_vector ser_uint256 (vHash t) @ ser_bytes (BitsToBytes (vBits t))"

definition pmt_Unserialize :: "CPartialMerkleTree reader" where
  "pmt_Unserialize s =
     do { (n, s) \<leftarrow> ser_readdata32 s;
          (hashes, s) \<leftarrow> unser_vector unser_uint256 s;
          (bs, s) \<leftarrow> unser_bytes s;
          Some (\<lparr>pmt_nTransactions = unat n, vBits = BytesToBits bs, vHash = hashes, fBad = False\<rparr>, s) }"

subsection \<open>The levels of the tree\<close>

lemma length_merkle_up [simp]: "length (merkle_up hs) = (length hs + 1) div 2"
  by (simp add: merkle_up_def length_merkle_even)

lemma nth_pair_up: "2 * i + 1 < length hs \<Longrightarrow> pair_up hs ! i = hs ! (2 * i) @ hs ! (2 * i + 1)"
proof (induction hs arbitrary: i rule: pair_up.induct)
  case (1 a b hs)
  then show ?case
    by (cases i) simp_all
qed simp_all

lemma nth_merkle_up:
  assumes "2 * i < length hs"
  shows "merkle_up hs ! i = hash256 (hs ! (2 * i) @ (if 2 * i + 1 < length hs then hs ! (2 * i + 1) else hs ! (2 * i)))"
proof -
  have l: "2 * i + 1 < length (merkle_even hs)"
    using assms unfolding merkle_even_def by (auto elim!: evenE)
  have ne: "hs \<noteq> []"
    using assms by auto
  have e: "merkle_even hs ! (2 * i) = hs ! (2 * i)"
    "merkle_even hs ! (2 * i + 1) = (if 2 * i + 1 < length hs then hs ! (2 * i + 1) else hs ! (2 * i))"
    using assms ne by (auto simp: merkle_even_def nth_append last_conv_nth less_Suc_eq elim!: oddE)
  have "i < length (pair_up (merkle_even hs))"
    using l by simp
  then show ?thesis
    unfolding merkle_up_def using nth_pair_up [OF l] e by simp
qed

lemma ceil_half: "((n + m - 1) div m + 1) div 2 = (n + 2 * m - 1) div (2 * m)" if "0 < m" for n m :: nat
proof -
  have "n + 2 * m - 1 = (n + m - 1) + m"
    using that by simp
  then have "(n + 2 * m - 1) div m = (n + m - 1) div m + 1"
    using that by (simp only: div_add_self2)
  then show ?thesis
    by (metis div_mult2_eq mult.commute)
qed

lemma length_levels: "0 < n \<Longrightarrow> length hs = n \<Longrightarrow> length ((merkle_up ^^ h) hs) = CalcTreeWidth n h"
proof (induction h)
  case (Suc h)
  then show ?case
    using ceil_half [of "2 ^ h" n] by (simp add: CalcTreeWidth_def)
qed (simp add: CalcTreeWidth_def)

lemma CalcHash_level:
  assumes "vTxid \<noteq> []"
  shows "pos < CalcTreeWidth (length vTxid) h \<Longrightarrow> CalcHash vTxid h pos = (merkle_up ^^ h) vTxid ! pos"
proof (induction h arbitrary: pos)
  case (Suc h)
  let ?l = "(merkle_up ^^ h) vTxid"
  have len: "length ?l = CalcTreeWidth (length vTxid) h" "length (merkle_up ?l) = CalcTreeWidth (length vTxid) (Suc h)"
    using length_levels [of "length vTxid" vTxid h] length_levels [of "length vTxid" vTxid "Suc h"] assms by simp_all
  then have "2 * pos < length ?l"
    using Suc.prems by (auto simp: less_Suc_eq_le)
  then show ?case
    using nth_merkle_up [of pos ?l] Suc.IH len(1) by (simp add: CalcHash.simps(2) Let_def mult.commute)
qed simp

lemma width_le_iff: "CalcTreeWidth n h \<le> k \<longleftrightarrow> n \<le> k * 2 ^ h"
proof -
  have "CalcTreeWidth n h \<le> k \<longleftrightarrow> (n + 2 ^ h - 1) div 2 ^ h < k + 1"
    by (simp add: CalcTreeWidth_def less_Suc_eq_le)
  also have "\<dots> \<longleftrightarrow> n + 2 ^ h - 1 < (k + 1) * 2 ^ h"
    by (rule div_less_iff_less_mult) simp
  also have "\<dots> \<longleftrightarrow> n \<le> k * 2 ^ h"
    using zero_less_power [of "2 :: nat" h] unfolding distrib_right mult_1_left by linarith
  finally show ?thesis .
qed

lemma width_child: "pos < CalcTreeWidth n (Suc h) \<Longrightarrow> 2 * pos < CalcTreeWidth n h"
  using width_le_iff [of n "Suc h" pos] width_le_iff [of n h "2 * pos"] by (simp add: not_le [symmetric] mult.assoc mult.left_commute)

subsection \<open>Extracting from a tree that was built\<close>

definition matches_below :: "bool list \<Rightarrow> nat \<Rightarrow> nat \<Rightarrow> nat \<Rightarrow> nat list" where
  "matches_below vMatch n h pos = filter (\<lambda>p. vMatch ! p) [pos * 2 ^ h..<min ((pos + 1) * 2 ^ h) n]"

lemma fParentOfMatch_iff: "fParentOfMatch vMatch n h pos \<longleftrightarrow> matches_below vMatch n h pos \<noteq> []"
  unfolding fParentOfMatch_def matches_below_def by (auto simp: list_ex_iff filter_empty_conv)

lemma upt_split_min: "a \<le> b \<Longrightarrow> b \<le> c \<Longrightarrow> [a..<min c n] = [a..<min b n] @ [b..<min c n]"
proof (cases "n \<le> b")
  case False
  assume "a \<le> b" "b \<le> c"
  then have "b \<le> min c n" "min b n = b"
    using False by simp_all
  then show ?thesis
    using upt_add_eq_append [OF \<open>a \<le> b\<close>, of "min c n - b"] by simp
qed simp

lemma matches_split: "matches_below vMatch n (Suc h) pos = matches_below vMatch n h (pos * 2) @ matches_below vMatch n h (pos * 2 + 1)"
proof -
  have "[pos * 2 ^ Suc h..<min ((pos + 1) * 2 ^ Suc h) n] =
      [pos * 2 ^ Suc h..<min ((pos * 2 + 1) * 2 ^ h) n] @ [(pos * 2 + 1) * 2 ^ h..<min ((pos + 1) * 2 ^ Suc h) n]"
    by (rule upt_split_min) simp_all
  then show ?thesis
    unfolding matches_below_def by (simp add: algebra_simps)
qed

lemma matches_beyond: "CalcTreeWidth n h \<le> pos \<Longrightarrow> matches_below vMatch n h pos = []"
  unfolding width_le_iff matches_below_def by simp

definition siblings_differ :: "uint256 list \<Rightarrow> nat \<Rightarrow> bool" where
  "siblings_differ hs H \<longleftrightarrow>
     (\<forall>h<H. \<forall>i. 2 * i + 1 < length ((merkle_up ^^ h) hs) \<longrightarrow> (merkle_up ^^ h) hs ! (2 * i) \<noteq> (merkle_up ^^ h) hs ! (2 * i + 1))"

lemma drop_at: "drop i xs = x # ys \<Longrightarrow> i < length xs \<and> xs ! i = x \<and> drop (Suc i) xs = ys"
  by (metis drop_all linorder_not_less list.distinct(1) list.inject Cons_nth_drop_Suc)

lemma drop_more: "drop i xs = ys @ zs \<Longrightarrow> drop (i + length ys) xs = zs"
  by (metis add.commute append_eq_conv_conj drop_drop)

lemma calc_siblings:
  assumes "vTxid \<noteq> []" "siblings_differ vTxid H" "h < H" "pos * 2 + 1 < CalcTreeWidth (length vTxid) h"
  shows "CalcHash vTxid h (pos * 2 + 1) \<noteq> CalcHash vTxid h (pos * 2)"
proof -
  have "2 * pos + 1 < length ((merkle_up ^^ h) vTxid)"
    using assms(1,4) length_levels [of "length vTxid" vTxid h] by (simp add: mult.commute)
  then have "(merkle_up ^^ h) vTxid ! (2 * pos) \<noteq> (merkle_up ^^ h) vTxid ! (2 * pos + 1)"
    using assms(2,3) unfolding siblings_differ_def by blast
  then show ?thesis
    using CalcHash_level [OF assms(1,4)] CalcHash_level [OF assms(1), of "pos * 2" h] assms(4) by (simp add: mult.commute)
qed

lemma extract_build:
  assumes "vTxid \<noteq> []" "siblings_differ vTxid H" "pmt_nTransactions t = length vTxid"
  shows "TraverseAndBuild vTxid vMatch h pos = (B, Hs) \<Longrightarrow> pos < CalcTreeWidth (length vTxid) h \<Longrightarrow> h \<le> H \<Longrightarrow>
    drop (nBitsUsed e) (vBits t) = B @ rb \<Longrightarrow> drop (nHashUsed e) (vHash t) = Hs @ rh \<Longrightarrow>
    TraverseAndExtract t h pos e = (CalcHash vTxid h pos,
      e\<lparr>nBitsUsed := nBitsUsed e + length B, nHashUsed := nHashUsed e + length Hs,
        ex_vMatch := ex_vMatch e @ map ((!) vTxid) (matches_below vMatch (length vTxid) h pos),
        ex_vnIndex := ex_vnIndex e @ matches_below vMatch (length vTxid) h pos\<rparr>)"
proof (induction h arbitrary: pos B Hs e rb rh)
  case 0
  have B: "B = [vMatch ! pos]" "Hs = [vTxid ! pos]" "matches_below vMatch (length vTxid) 0 pos = (if vMatch ! pos then [pos] else [])"
    using "0.prems"(1,2) by (auto simp: TraverseAndBuild.simps fParentOfMatch_def matches_below_def CalcTreeWidth_def Let_def)
  show ?case
    using drop_at [OF "0.prems"(4) [unfolded B append_Cons append_Nil]] drop_at [OF "0.prems"(5) [unfolded B append_Cons append_Nil]]
    by (simp add: TraverseAndExtract.simps [of t 0] B Let_def)
next
  case (Suc h)
  let ?n = "length vTxid"
  let ?m = "matches_below vMatch ?n"
  have f: "fParentOfMatch vMatch ?n (Suc h) pos \<longleftrightarrow> ?m (Suc h) pos \<noteq> []"
    by (rule fParentOfMatch_iff)
  show ?case
  proof (cases "?m (Suc h) pos = []")
    case True
    then have B: "B = [False]" "Hs = [CalcHash vTxid (Suc h) pos]"
      using Suc.prems(1) f by (auto simp: TraverseAndBuild.simps [of vTxid vMatch "Suc h"] Let_def)
    show ?thesis
      using drop_at [OF Suc.prems(4) [unfolded B append_Cons append_Nil]] drop_at [OF Suc.prems(5) [unfolded B append_Cons append_Nil]]
      by (simp add: TraverseAndExtract.simps [of t "Suc h"] B True Let_def)
  next
    case False
    obtain B1 H1 where 1: "TraverseAndBuild vTxid vMatch h (pos * 2) = (B1, H1)"
      by fastforce
    have w1: "pos * 2 < CalcTreeWidth ?n h"
      using width_child [OF Suc.prems(2)] by (simp add: mult.commute)
    show ?thesis
    proof (cases "pos * 2 + 1 < CalcTreeWidth ?n h")
      case w2: True
      obtain B2 H2 where 2: "TraverseAndBuild vTxid vMatch h (pos * 2 + 1) = (B2, H2)"
        by fastforce
      have B: "B = True # B1 @ B2" "Hs = H1 @ H2"
        using Suc.prems(1) False f 1 2 w2 by (auto simp: TraverseAndBuild.simps [of vTxid vMatch "Suc h"] Let_def)
      note d = drop_at [OF Suc.prems(4) [unfolded B append_Cons append_assoc]]
      define e1 where "e1 = e\<lparr>nBitsUsed := nBitsUsed e + 1\<rparr>"
      have e1: "drop (nBitsUsed e1) (vBits t) = B1 @ B2 @ rb" "drop (nHashUsed e1) (vHash t) = H1 @ H2 @ rh"
        using d Suc.prems(5) unfolding e1_def B by simp_all
      define e2 where "e2 = e1\<lparr>nBitsUsed := nBitsUsed e1 + length B1, nHashUsed := nHashUsed e1 + length H1,
        ex_vMatch := ex_vMatch e1 @ map ((!) vTxid) (?m h (pos * 2)), ex_vnIndex := ex_vnIndex e1 @ ?m h (pos * 2)\<rparr>"
      have l: "TraverseAndExtract t h (pos * 2) e1 = (CalcHash vTxid h (pos * 2), e2)"
        unfolding e2_def using Suc.IH [OF 1 w1 _ e1] Suc.prems(3) by simp
      have e2: "drop (nBitsUsed e2) (vBits t) = B2 @ rb" "drop (nHashUsed e2) (vHash t) = H2 @ rh"
        unfolding e2_def using drop_more [OF e1(1)] drop_more [OF e1(2)] by simp_all
      note r = Suc.IH [OF 2 w2 _ e2]
      have "CalcHash vTxid h (pos * 2 + 1) \<noteq> CalcHash vTxid h (pos * 2)"
        using calc_siblings [OF assms(1,2)] w2 Suc.prems(3) by simp
      then show ?thesis
        using d r Suc.prems(3) l w2 assms(3) unfolding e2_def e1_def
        by (simp add: TraverseAndExtract.simps [of t "Suc h"] B Let_def matches_split [of _ _ _ pos] CalcHash.simps(2) add.assoc)
    next
      case w2: False
      have B: "B = True # B1" "Hs = H1"
        using Suc.prems(1) False f 1 w2 by (auto simp: TraverseAndBuild.simps [of vTxid vMatch "Suc h"] Let_def)
      note d = drop_at [OF Suc.prems(4) [unfolded B append_Cons]]
      define e1 where "e1 = e\<lparr>nBitsUsed := nBitsUsed e + 1\<rparr>"
      have e1: "drop (nBitsUsed e1) (vBits t) = B1 @ rb" "drop (nHashUsed e1) (vHash t) = H1 @ rh"
        using d Suc.prems(5) unfolding e1_def B by simp_all
      have "?m h (pos * 2 + 1) = []"
        using w2 by (intro matches_beyond) simp
      then show ?thesis
        using d Suc.IH [OF 1 w1 _ e1] Suc.prems(3) w2 assms(3) unfolding e1_def
        by (simp add: TraverseAndExtract.simps [of t "Suc h"] B Let_def matches_split [of _ _ _ pos] CalcHash.simps(2))
    qed
  qed
qed

lemma build_sizes:
  "TraverseAndBuild vTxid vMatch h pos = (B, Hs) \<Longrightarrow> pos < CalcTreeWidth (length vTxid) h \<Longrightarrow>
    length Hs \<le> length B \<and> length Hs + pos * 2 ^ h \<le> min ((pos + 1) * 2 ^ h) (length vTxid) \<and> length B < 2 * 2 ^ h"
proof (induction h arbitrary: pos B Hs)
  case 0
  then show ?case
    by (auto simp: TraverseAndBuild.simps Let_def CalcTreeWidth_def)
next
  case (Suc h)
  let ?n = "length vTxid"
  obtain B1 H1 B2 H2 where 1: "TraverseAndBuild vTxid vMatch h (pos * 2) = (B1, H1)" and
    2: "TraverseAndBuild vTxid vMatch h (pos * 2 + 1) = (B2, H2)"
    by fastforce
  have n: "pos * 2 ^ Suc h < ?n"
    using Suc.prems(2) by (simp add: width_le_iff flip: not_le)
  define q :: nat where "q = 2 ^ h"
  have p: "0 < q"
    by (simp add: q_def)
  have w1: "pos * 2 < CalcTreeWidth ?n h"
    using width_child [OF Suc.prems(2)] by (simp add: mult.commute)
  note IH = Suc.IH [OF 1 w1] Suc.IH [OF 2]
  consider (leaf) "length B = 1" "length Hs = 1"
    | (both) "pos * 2 + 1 < CalcTreeWidth ?n h" "length B = Suc (length B1 + length B2)" "length Hs = length H1 + length H2"
    | (one) "length B = Suc (length B1)" "length Hs = length H1"
    using Suc.prems(1) 1 2 by (auto simp: TraverseAndBuild.simps [of vTxid vMatch "Suc h"] Let_def split: if_splits)
  then show ?case
  proof cases
    case leaf
    then show ?thesis
      using n p unfolding power_Suc q_def [symmetric] by (simp add: algebra_simps)
  next
    case both
    then show ?thesis
      using IH p unfolding power_Suc q_def [symmetric] by (auto simp: algebra_simps)
  next
    case one
    then show ?thesis
      using IH(1) p unfolding power_Suc q_def [symmetric] by (auto simp: algebra_simps)
  qed
qed

lemma BytesToBits_BitsToBytes:
  "\<exists>k. BytesToBits (BitsToBytes bits) = bits @ replicate k False \<and> (length bits + k + 7) div 8 = (length bits + 7) div 8"
proof -
  let ?n = "length bits" and ?m = "(length bits + 7) div 8 * 8"
  have w: "BitsToBytes bits = WriteFixedBitSet bits ?n"
    by (simp add: BitsToBytes_def WriteFixedBitSet_def)
  have l: "length (BitsToBytes bits) = (?n + 7) div 8"
    by (simp add: w length_WriteFixedBitSet GetSizeOfFixedBitSet_def)
  have m: "?n \<le> ?m"
    by simp
  have "BytesToBits (BitsToBytes bits) = bits @ replicate (?m - ?n) False"
  proof (rule nth_equalityI)
    show "length (BytesToBits (BitsToBytes bits)) = length (bits @ replicate (?m - ?n) False)"
      using m by (simp add: BytesToBits_def l)
    fix p
    assume "p < length (BytesToBits (BitsToBytes bits))"
    then have p: "p < ?m"
      by (simp add: BytesToBits_def l)
    then have "p div 8 < (?n + 7) div 8"
      by (simp add: div_less_iff_less_mult)
    then have "BytesToBits (BitsToBytes bits) ! p \<longleftrightarrow> p < ?n \<and> bits ! p"
      using bit_WriteFixedBitSet [OF refl, of "p div 8" bits "p mod 8"] p
      unfolding BytesToBits_def and_push_bit_1 by (simp add: l flip: w)
    then show "BytesToBits (BitsToBytes bits) ! p = (bits @ replicate (?m - ?n) False) ! p"
      using p by (auto simp: nth_append)
  qed
  moreover have "(?n + (?m - ?n) + 7) div 8 = (?n + 7) div 8"
    using m by simp
  ultimately show ?thesis
    by blast
qed

subsection \<open>The root\<close>

lemma all_nat_Suc: "(\<forall>i. P i) \<longleftrightarrow> P 0 \<and> (\<forall>i. P (Suc i))"
  by (metis not0_implies_Suc)

lemma equal_pair_iff: "\<not> equal_pair hs \<longleftrightarrow> (\<forall>i. 2 * i + 1 < length hs \<longrightarrow> hs ! (2 * i) \<noteq> hs ! (2 * i + 1))"
proof (induction hs rule: equal_pair.induct)
  case (1 a b hs)
  have "(\<forall>i. 2 * i + 1 < length (a # b # hs) \<longrightarrow> (a # b # hs) ! (2 * i) \<noteq> (a # b # hs) ! (2 * i + 1)) \<longleftrightarrow>
      a \<noteq> b \<and> (\<forall>i. 2 * i + 1 < length hs \<longrightarrow> hs ! (2 * i) \<noteq> hs ! (2 * i + 1))" (is "(\<forall>i. ?P i) \<longleftrightarrow> _")
    using all_nat_Suc [of ?P] by simp
  then show ?case
    using 1 by simp
qed simp_all

lemma levels_32: "list_all (\<lambda>h. length h = 32) hs \<Longrightarrow> list_all (\<lambda>h. length h = 32) ((merkle_up ^^ k) hs)"
  by (cases k) (simp_all add: merkle_up_def hashes_32)

lemma tree_height_ge: "k \<le> tree_height n k"
proof (induction n k rule: tree_height.induct)
  case (1 n k)
  then show ?case
    by (subst tree_height.simps) auto
qed

lemma ex_from: "k < n \<Longrightarrow> (\<exists>h. k \<le> h \<and> h < n \<and> E h) \<longleftrightarrow> E k \<or> (\<exists>h. k + 1 \<le> h \<and> h < n \<and> E h)" for k n :: nat
  by (metis Suc_eq_plus1 Suc_leD Suc_leI le_eq_less_or_eq)

lemma merkle_loop_levels:
  assumes "length u = 8" "list_all d64_way ways" "list_all (\<lambda>h. length h = 32) hs" "hs \<noteq> []"
  shows "merkle_loop ways u m ((merkle_up ^^ k) hs) =
    (m \<or> (\<exists>h. k \<le> h \<and> h < tree_height (length hs) k \<and> equal_pair ((merkle_up ^^ h) hs)), (merkle_up ^^ tree_height (length hs) k) hs)"
proof (induction "length hs" k arbitrary: m rule: tree_height.induct)
  case (1 k)
  have l: "length ((merkle_up ^^ k) hs) = CalcTreeWidth (length hs) k"
    using assms(4) by (intro length_levels) simp_all
  show ?case
  proof (cases "CalcTreeWidth (length hs) k > 1")
    case True
    have t: "tree_height (length hs) k = tree_height (length hs) (k + 1)"
      using True by (subst tree_height.simps) simp
    have "merkle_loop ways u m ((merkle_up ^^ k) hs) = merkle_loop ways u (m \<or> equal_pair ((merkle_up ^^ k) hs)) ((merkle_up ^^ (k + 1)) hs)"
      using merkle_loop_step [OF assms(1,2) levels_32 [OF assms(3)], of k m] True l by (simp add: merkle_up_def)
    also note "1.hyps" [OF True]
    finally show ?thesis
      using ex_from [of k "tree_height (length hs) (k + 1)" "\<lambda>h. equal_pair ((merkle_up ^^ h) hs)"] tree_height_ge [of "k + 1" "length hs"]
      unfolding t by simp
  next
    case False
    then have "tree_height (length hs) k = k"
      by (subst tree_height.simps) simp
    then show ?thesis
      using False l by (auto simp: merkle_loop_end)
  qed
qed

lemma tree_height_end: "CalcTreeWidth n (tree_height n k) \<le> 1"
proof (induction n k rule: tree_height.induct)
  case (1 n k)
  then show ?case
    by (subst tree_height.simps) auto
qed

lemma tree_height_bound: "2 ^ k < 2 * n \<Longrightarrow> 2 ^ tree_height n k < 2 * n"
proof (induction n k rule: tree_height.induct)
  case (1 n k)
  then show ?case
    using width_gt [of n k] by (subst tree_height.simps) auto
qed

lemma ComputeMerkleRoot_levels:
  assumes "length u = 8" "list_all d64_way ways" "list_all (\<lambda>h. length h = 32) vTxid" "vTxid \<noteq> []"
    and "ComputeMerkleRoot ways u vTxid = (root, False)"
  shows "root = CalcHash vTxid (tree_height (length vTxid) 0) 0" "siblings_differ vTxid (tree_height (length vTxid) 0)"
proof -
  let ?H = "tree_height (length vTxid) 0"
  have "0 < CalcTreeWidth (length vTxid) ?H"
    using width_le_iff [of "length vTxid" ?H 0] assms(4) by simp
  moreover have "length ((merkle_up ^^ ?H) vTxid) = CalcTreeWidth (length vTxid) ?H"
    using assms(4) by (intro length_levels) simp_all
  moreover note merkle_loop_levels [OF assms(1-4), of False 0]
  ultimately show "root = CalcHash vTxid ?H 0" "siblings_differ vTxid ?H"
    using assms(5) CalcHash_level [OF assms(4), of 0 ?H]
    unfolding ComputeMerkleRoot_def siblings_differ_def equal_pair_iff [symmetric] by auto
qed

lemma CalcHash_32:
  assumes "vTxid \<noteq> []" "list_all (\<lambda>h. length h = 32) vTxid" "pos < CalcTreeWidth (length vTxid) h"
  shows "length (CalcHash vTxid h pos) = 32"
  using CalcHash_level [OF assms(1,3)] levels_32 [OF assms(2), of h] assms(1,3) length_levels [of "length vTxid" vTxid h]
  by (simp add: list_all_length)

lemma build_32:
  assumes "vTxid \<noteq> []" "list_all (\<lambda>h. length h = 32) vTxid"
  shows "TraverseAndBuild vTxid vMatch h pos = (B, Hs) \<Longrightarrow> pos < CalcTreeWidth (length vTxid) h \<Longrightarrow> list_all (\<lambda>h. length h = 32) Hs"
proof (induction h arbitrary: pos B Hs)
  case 0
  then show ?case
    using CalcHash_32 [OF assms 0(2)] by (auto simp: TraverseAndBuild.simps Let_def)
next
  case (Suc h)
  obtain B1 H1 B2 H2 where 1: "TraverseAndBuild vTxid vMatch h (pos * 2) = (B1, H1)" and
    2: "TraverseAndBuild vTxid vMatch h (pos * 2 + 1) = (B2, H2)"
    by fastforce
  have w1: "pos * 2 < CalcTreeWidth (length vTxid) h"
    using width_child [OF Suc.prems(2)] by (simp add: mult.commute)
  show ?case
    using Suc.prems(1) Suc.IH [OF 1 w1] Suc.IH [OF 2] 1 2 CalcHash_32 [OF assms Suc.prems(2)]
    by (auto simp: TraverseAndBuild.simps [of vTxid vMatch "Suc h"] Let_def split: if_splits)
qed

lemma pmt_wire:
  assumes "list_all (\<lambda>h. length h = 32) (vHash t)" "pmt_nTransactions t < 2 ^ 32" "length (vHash t) \<le> 0x02000000" "length (vBits t) \<le> 0x02000000"
  shows "pmt_Unserialize (pmt_Serialize t @ s) = Some (t\<lparr>vBits := BytesToBits (BitsToBytes (vBits t)), fBad := False\<rparr>, s)"
proof -
  have "length (BitsToBytes (vBits t)) \<le> 0x02000000"
    using assms(4) by (simp add: BitsToBytes_def length_bitset_fold)
  then show ?thesis
    using assms by (simp add: pmt_Unserialize_def pmt_Serialize_def u32.unser_ser uint256.unser_vector_ser byte_vector.unser_ser
        unsigned_of_nat take_bit_eq_mod)
qed

text \<open>
  C35: a partial tree does its job: built for the transactions of a block whose Merkle root is not marked as mutated, sent over the
  wire and read back, it is accepted; the root that comes out is the Merkle root of the block, and the matches that come out are exactly
  the selected transaction ids, in order, each with its index in the block.
\<close>

theorem pmt_roundtrip:
  assumes "length u = 8" "list_all d64_way ways" "list_all (\<lambda>h. length h = 32) vTxid" "vTxid \<noteq> []" "length vTxid \<le> 33333"
    and "ComputeMerkleRoot ways u vTxid = (root, False)"
  shows "\<exists>t t'. pmt_build vTxid vMatch = Some t \<and> pmt_Unserialize (pmt_Serialize t @ s) = Some (t', s) \<and>
    ExtractMatches t' [] = (root, map ((!) vTxid) (filter ((!) vMatch) [0..<length vTxid]), filter ((!) vMatch) [0..<length vTxid], t')"
proof -
  let ?n = "length vTxid" and ?H = "tree_height (length vTxid) 0"
  obtain B Hs where b: "TraverseAndBuild vTxid vMatch ?H 0 = (B, Hs)"
    by fastforce
  have w: "0 < CalcTreeWidth ?n ?H"
    using width_le_iff [of ?n ?H 0] assms(4) by simp
  have "2 ^ 0 < 2 * ?n"
    using assms(4) by (cases vTxid) simp_all
  then have n: "?n \<le> 2 ^ ?H" "2 ^ ?H < 2 * ?n"
    using tree_height_end [of ?n 0] width_le_iff [of ?n ?H 1] tree_height_bound [of 0 ?n] assms(4) by auto
  have sz: "length Hs \<le> length B" "length Hs \<le> ?n" "length B < 4 * ?n"
    using build_sizes [OF b w] n by auto
  obtain k where k: "BytesToBits (BitsToBytes B) = B @ replicate k False" "(length B + k + 7) div 8 = (length B + 7) div 8"
    using BytesToBits_BitsToBytes by blast
  let ?t = "\<lparr>pmt_nTransactions = ?n, vBits = B @ replicate k False, vHash = Hs, fBad = False\<rparr>"
  have "pmt_Unserialize (pmt_Serialize (?t\<lparr>vBits := B\<rparr>) @ s) = Some (?t, s)"
    using pmt_wire [of "?t\<lparr>vBits := B\<rparr>" s] build_32 [OF assms(4,3) b w] assms(5) sz k
    by simp
  moreover have "pmt_build vTxid vMatch = Some (?t\<lparr>vBits := B\<rparr>)"
    using assms(4) by (simp add: pmt_build_def b)
  moreover have "matches_below vMatch ?n ?H 0 = filter ((!) vMatch) [0..<?n]"
    using n(1) by (simp add: matches_below_def min_def)
  then have "TraverseAndExtract ?t ?H 0 (extraction_start False []) =
      (root, \<lparr>nBitsUsed = length B, nHashUsed = length Hs, ex_vMatch = map ((!) vTxid) (filter ((!) vMatch) [0..<?n]),
        ex_vnIndex = filter ((!) vMatch) [0..<?n], ex_bad = False\<rparr>)"
    using extract_build [OF assms(4) ComputeMerkleRoot_levels(2) [OF assms(1-4,6)], of ?t, OF _ b w, of "extraction_start False []" "replicate k False" "[]"]
      ComputeMerkleRoot_levels(1) [OF assms(1-4,6)]
    by (simp add: extraction_start_def)
  then have "ExtractMatches ?t [] = (root, map ((!) vTxid) (filter ((!) vMatch) [0..<?n]), filter ((!) vMatch) [0..<?n], ?t)"
    using assms(4,5) sz k by (simp add: ExtractMatches_def MaxBlockSize_def)
  ultimately show ?thesis
    by blast
qed

theorem pmt_roundtrip_witness:
  "\<exists>t t'. pmt_build [replicate 32 1, replicate 32 2] [False, True] = Some t \<and> pmt_Unserialize (pmt_Serialize t @ [9]) = Some (t', [9]) \<and>
    ExtractMatches t' [] = (hash256 (replicate 32 1 @ replicate 32 2), [replicate 32 2], [1], t')"
proof -
  have r: "ComputeMerkleRoot [] (replicate 8 0) [replicate 32 1, replicate 32 2] = (hash256 (replicate 32 1 @ replicate 32 2), False)"
    by (rule root_of_two) simp_all
  show ?thesis
    using pmt_roundtrip [OF _ _ _ _ _ r, of "[False, True]" "[9]"] by simp
qed

subsection \<open>What a tree that is accepted proves\<close>

text \<open>The inputs hashed while a root is computed, and while matches are extracted.\<close>

fun calc_inputs :: "uint256 list \<Rightarrow> nat \<Rightarrow> nat \<Rightarrow> bytes set" where
  "calc_inputs vTxid 0 pos = {}"
| "calc_inputs vTxid (Suc h) pos =
     (if pos * 2 + 1 < CalcTreeWidth (length vTxid) h
      then insert (CalcHash vTxid h (pos * 2) @ CalcHash vTxid h (pos * 2 + 1)) (calc_inputs vTxid h (pos * 2) \<union> calc_inputs vTxid h (pos * 2 + 1))
      else insert (CalcHash vTxid h (pos * 2) @ CalcHash vTxid h (pos * 2)) (calc_inputs vTxid h (pos * 2)))"

fun extract_inputs :: "CPartialMerkleTree \<Rightarrow> nat \<Rightarrow> nat \<Rightarrow> extraction \<Rightarrow> bytes set" where
  "extract_inputs t 0 pos e = {}"
| "extract_inputs t (Suc h) pos e =
     (if nBitsUsed e < length (vBits t) \<and> vBits t ! nBitsUsed e
      then (let e = e\<lparr>nBitsUsed := nBitsUsed e + 1\<rparr>
            in case TraverseAndExtract t h (pos * 2) e of (left, e1) \<Rightarrow>
                 if pos * 2 + 1 < CalcTreeWidth (pmt_nTransactions t) h
                 then insert (left @ fst (TraverseAndExtract t h (pos * 2 + 1) e1))
                        (extract_inputs t h (pos * 2) e \<union> extract_inputs t h (pos * 2 + 1) e1)
                 else insert (left @ left) (extract_inputs t h (pos * 2) e))
      else {})"

definition collide :: "bytes set \<Rightarrow> bytes set \<Rightarrow> bool" where
  "collide A B \<longleftrightarrow> (\<exists>a\<in>A. \<exists>b\<in>B. a \<noteq> b \<and> hash256 a = hash256 b)"

lemma collide_mono: "collide A B \<Longrightarrow> A \<subseteq> A' \<Longrightarrow> B \<subseteq> B' \<Longrightarrow> collide A' B'"
  unfolding collide_def by blast

lemma length_uint256_null [simp]: "length uint256_null = 32"
  by (simp add: uint256_null_def)

lemma extract_32:
  "list_all (\<lambda>h. length h = 32) (vHash t) \<Longrightarrow> length (fst (TraverseAndExtract t h pos e)) = 32"
  by (cases h) (auto simp: TraverseAndExtract.simps [of t _ pos] Let_def list_all_length split: prod.split)

lemma extract_bad: "ex_bad e \<Longrightarrow> ex_bad (snd (TraverseAndExtract t h pos e))"
proof (induction h arbitrary: pos e)
  case 0
  then show ?case
    by (simp add: TraverseAndExtract.simps [of t 0] Let_def)
next
  case (Suc h)
  show ?case
    using Suc.IH [of "e\<lparr>nBitsUsed := nBitsUsed e + 1\<rparr>" "pos * 2"] Suc.IH [of "snd (TraverseAndExtract t h (pos * 2) (e\<lparr>nBitsUsed := nBitsUsed e + 1\<rparr>))" "pos * 2 + 1"] Suc.prems
    by (auto simp: TraverseAndExtract.simps [of t "Suc h"] Let_def split: prod.split)
qed

text \<open>The matches added between two states of an extraction, all of them leaves of the block.\<close>

definition adds_leaves :: "uint256 list \<Rightarrow> extraction \<Rightarrow> extraction \<Rightarrow> bool" where
  "adds_leaves vTxid e e' \<longleftrightarrow> (\<exists>is. ex_vMatch e' = ex_vMatch e @ map ((!) vTxid) is \<and> ex_vnIndex e' = ex_vnIndex e @ is \<and> (\<forall>i\<in>set is. i < length vTxid))"

lemma adds_leaves_trans:
  assumes "adds_leaves vTxid e1 e2" "adds_leaves vTxid e2 e3"
  shows "adds_leaves vTxid e1 e3"
proof -
  obtain xs where xs: "ex_vMatch e2 = ex_vMatch e1 @ map ((!) vTxid) xs" "ex_vnIndex e2 = ex_vnIndex e1 @ xs" "\<forall>i\<in>set xs. i < length vTxid"
    using assms(1) unfolding adds_leaves_def by blast
  obtain ys where ys: "ex_vMatch e3 = ex_vMatch e2 @ map ((!) vTxid) ys" "ex_vnIndex e3 = ex_vnIndex e2 @ ys" "\<forall>i\<in>set ys. i < length vTxid"
    using assms(2) unfolding adds_leaves_def by blast
  show ?thesis
    unfolding adds_leaves_def by (rule exI [of _ "xs @ ys"]) (use xs ys in auto)
qed

lemma extract_sound:
  assumes "vTxid \<noteq> []" "list_all (\<lambda>h. length h = 32) vTxid" "list_all (\<lambda>h. length h = 32) (vHash t)" "pmt_nTransactions t = length vTxid"
  shows "TraverseAndExtract t h pos e = (CalcHash vTxid h pos, e') \<Longrightarrow> \<not> ex_bad e' \<Longrightarrow> pos < CalcTreeWidth (length vTxid) h \<Longrightarrow>
    adds_leaves vTxid e e' \<or> collide (calc_inputs vTxid h pos) (extract_inputs t h pos e)"
proof (induction h arbitrary: pos e e')
  case 0
  then show ?case
    by (auto simp: TraverseAndExtract.simps [of t 0] Let_def CalcTreeWidth_def adds_leaves_def split: if_splits)
next
  case (Suc h)
  let ?n = "length vTxid"
  define e0 where "e0 = e\<lparr>nBitsUsed := nBitsUsed e + 1\<rparr>"
  have bits: "nBitsUsed e < length (vBits t)"
  proof (rule ccontr)
    assume "\<not> nBitsUsed e < length (vBits t)"
    then show False
      using Suc.prems(1,2) by (auto simp: TraverseAndExtract.simps [of t "Suc h"])
  qed
  show ?case
  proof (cases "vBits t ! nBitsUsed e")
    case False
    then have "adds_leaves vTxid e e'"
      using Suc.prems(1,2) bits
      by (auto simp: TraverseAndExtract.simps [of t "Suc h"] Let_def adds_leaves_def split: if_splits intro!: exI [of _ "[]"])
    then show ?thesis ..
  next
    case True
    have w1: "pos * 2 < CalcTreeWidth ?n h"
      using width_child [OF Suc.prems(3)] by (simp add: mult.commute)
    obtain left e1 where l: "TraverseAndExtract t h (pos * 2) e0 = (left, e1)"
      by fastforce
    have le: "length left = 32" "length (CalcHash vTxid h (pos * 2)) = 32"
      using extract_32 [OF assms(3), of h "pos * 2" e0] l CalcHash_32 [OF assms(1,2) w1] by simp_all
    have e0: "adds_leaves vTxid e e0"
      unfolding adds_leaves_def e0_def by simp
    show ?thesis
    proof (cases "pos * 2 + 1 < CalcTreeWidth ?n h")
      case w2: True
      obtain right e2 where r: "TraverseAndExtract t h (pos * 2 + 1) e1 = (right, e2)"
        by fastforce
      have ri: "length right = 32" "length (CalcHash vTxid h (pos * 2 + 1)) = 32"
        using extract_32 [OF assms(3), of h "pos * 2 + 1" e1] r CalcHash_32 [OF assms(1,2) w2] by simp_all
      have h: "hash256 (left @ right) = hash256 (CalcHash vTxid h (pos * 2) @ CalcHash vTxid h (pos * 2 + 1))" "e' = e2"
        using Suc.prems(1,2) bits True w2 l r assms(4) unfolding e0_def
        by (auto simp: TraverseAndExtract.simps [of t "Suc h"] Let_def CalcHash.simps(2) split: if_splits)
      have b: "\<not> ex_bad e2" "\<not> ex_bad e1"
        using Suc.prems(2) h(2) extract_bad [of e1 t h "pos * 2 + 1"] r by auto
      have inp: "extract_inputs t (Suc h) pos e = insert (left @ right) (extract_inputs t h (pos * 2) e0 \<union> extract_inputs t h (pos * 2 + 1) e1)"
        using bits True w2 l r assms(4) unfolding e0_def by (simp add: Let_def)
      show ?thesis
      proof (cases "left @ right = CalcHash vTxid h (pos * 2) @ CalcHash vTxid h (pos * 2 + 1)")
        case True
        then have eq: "left = CalcHash vTxid h (pos * 2)" "right = CalcHash vTxid h (pos * 2 + 1)"
          using le by simp_all
        have sub: "calc_inputs vTxid h (pos * 2) \<subseteq> calc_inputs vTxid (Suc h) pos" "calc_inputs vTxid h (pos * 2 + 1) \<subseteq> calc_inputs vTxid (Suc h) pos"
          "extract_inputs t h (pos * 2) e0 \<subseteq> extract_inputs t (Suc h) pos e" "extract_inputs t h (pos * 2 + 1) e1 \<subseteq> extract_inputs t (Suc h) pos e"
          unfolding inp using w2 by auto
        show ?thesis
          using Suc.IH [OF l [unfolded eq] b(2) w1] Suc.IH [OF r [unfolded eq] b(1) w2] collide_mono [OF _ sub(1,3)] collide_mono [OF _ sub(2,4)]
            adds_leaves_trans [OF adds_leaves_trans [OF e0]] h(2)
          by blast
      next
        case False
        then have "collide (calc_inputs vTxid (Suc h) pos) (extract_inputs t (Suc h) pos e)"
          using h(1) w2 unfolding collide_def inp by (auto intro!: bexI)
        then show ?thesis ..
      qed
    next
      case w2: False
      have h: "hash256 (left @ left) = hash256 (CalcHash vTxid h (pos * 2) @ CalcHash vTxid h (pos * 2))" "e' = e1"
        using Suc.prems(1,2) bits True w2 l assms(4) unfolding e0_def
        by (auto simp: TraverseAndExtract.simps [of t "Suc h"] Let_def CalcHash.simps(2) split: if_splits)
      have inp: "extract_inputs t (Suc h) pos e = insert (left @ left) (extract_inputs t h (pos * 2) e0)"
        using bits True w2 l assms(4) unfolding e0_def by (simp add: Let_def)
      show ?thesis
      proof (cases "left = CalcHash vTxid h (pos * 2)")
        case True
        have sub: "calc_inputs vTxid h (pos * 2) \<subseteq> calc_inputs vTxid (Suc h) pos" "extract_inputs t h (pos * 2) e0 \<subseteq> extract_inputs t (Suc h) pos e"
          unfolding inp using w2 by auto
        show ?thesis
          using Suc.IH [OF l [unfolded True]] Suc.prems(2) w1 collide_mono [OF _ sub] adds_leaves_trans [OF e0] h(2) by blast
      next
        case False
        then have "collide (calc_inputs vTxid (Suc h) pos) (extract_inputs t (Suc h) pos e)"
          using h(1) w2 le unfolding collide_def inp by (auto intro!: bexI)
        then show ?thesis ..
      qed
    qed
  qed
qed

lemma tree_height_1: "tree_height (Suc 0) 0 = 0"
  by (subst tree_height.simps) (simp add: CalcTreeWidth_def)

lemma tree_height_2: "tree_height 2 0 = 1"
  by (subst tree_height.simps, simp add: CalcTreeWidth_def, subst tree_height.simps, simp add: CalcTreeWidth_def)

text \<open>A tree for one transaction is accepted with any hash as its root.\<close>

lemma extract_one:
  "ExtractMatches \<lparr>pmt_nTransactions = 1, vBits = [True], vHash = [h], fBad = False\<rparr> [] =
    (h, [h], [0], \<lparr>pmt_nTransactions = 1, vBits = [True], vHash = [h], fBad = False\<rparr>)"
  unfolding ExtractMatches_def
  by (simp add: tree_height_1 MaxBlockSize_def TraverseAndExtract.simps extraction_start_def Let_def)

text \<open>
  C8: a partial tree that claims the right number of transactions cannot lie. Whatever bits and hashes a peer sends, if the tree claims as many transactions as the block
  has and the extraction returns the Merkle root of the block, other than the null hash that stands for failure, then every match it returns is the transaction id of the block at the index it returns, unless the two computations hash two different
  inputs to the same value. The number must be compared by the caller, as \<open>verifytxoutproof\<close> does: a tree that claims a single transaction gets the root itself accepted as a match.
\<close>

theorem pmt_sound:
  assumes "length u = 8" "list_all d64_way ways" "list_all (\<lambda>h. length h = 32) vTxid" "vTxid \<noteq> []"
    and "list_all (\<lambda>h. length h = 32) (vHash t)" "pmt_nTransactions t = length vTxid"
    and "ComputeMerkleRoot ways u vTxid = (root, False)"
    and "ExtractMatches t [] = (root, ms, is, t')"
  shows "(root = uint256_null \<or> (ms = map ((!) vTxid) is \<and> (\<forall>i\<in>set is. i < length vTxid)) \<or>
      collide (calc_inputs vTxid (tree_height (length vTxid) 0) 0) (extract_inputs t (tree_height (length vTxid) 0) 0 (extraction_start (fBad t) []))) \<and>
    fst (ExtractMatches \<lparr>pmt_nTransactions = 1, vBits = [True], vHash = [root], fBad = False\<rparr> []) = root \<and>
    fst (snd (ExtractMatches \<lparr>pmt_nTransactions = 1, vBits = [True], vHash = [root], fBad = False\<rparr> [])) = [root]"
proof (cases "root = uint256_null")
  case False
  let ?H = "tree_height (length vTxid) 0"
  have w: "0 < CalcTreeWidth (length vTxid) ?H"
    using width_le_iff [of "length vTxid" ?H 0] assms(4) by simp
  obtain r e where r: "TraverseAndExtract t ?H 0 (extraction_start (fBad t) []) = (r, e)"
    by fastforce
  have "r = root" "\<not> ex_bad e" "ms = ex_vMatch e" "is = ex_vnIndex e"
    using assms(6,8) False r unfolding ExtractMatches_def by (auto split: if_splits)
  then show ?thesis
    using extract_sound [OF assms(4,3,5,6) r [unfolded \<open>r = root\<close> ComputeMerkleRoot_levels(1) [OF assms(1-4,7)]] _ w] extract_one [of root]
    by (auto simp: adds_leaves_def extraction_start_def)
qed (use extract_one [of root] in simp)

text \<open>The second of two transactions, proved by a peer: the root, the match and the index are those of the block.\<close>

lemma extract_second:
  assumes "a \<noteq> b"
  shows "ExtractMatches \<lparr>pmt_nTransactions = 2, vBits = [True, False, True], vHash = [a, b], fBad = False\<rparr> [] =
      (hash256 (a @ b), [b], [1], \<lparr>pmt_nTransactions = 2, vBits = [True, False, True], vHash = [a, b], fBad = False\<rparr>)"
    "extract_inputs \<lparr>pmt_nTransactions = 2, vBits = [True, False, True], vHash = [a, b], fBad = False\<rparr> 1 0 (extraction_start False []) = {a @ b}"
proof -
  let ?t = "\<lparr>pmt_nTransactions = 2, vBits = [True, False, True], vHash = [a, b], fBad = False\<rparr>"
  have e: "TraverseAndExtract ?t 1 0 (extraction_start False []) =
      (hash256 (a @ b), \<lparr>nBitsUsed = 3, nHashUsed = 2, ex_vMatch = [b], ex_vnIndex = [1], ex_bad = False\<rparr>)"
    using assms by (simp add: TraverseAndExtract.simps extraction_start_def CalcTreeWidth_def Let_def)
  then show "ExtractMatches ?t [] = (hash256 (a @ b), [b], [1], ?t)"
    unfolding ExtractMatches_def by (simp add: tree_height_2 MaxBlockSize_def)
  show "extract_inputs ?t 1 0 (extraction_start False []) = {a @ b}"
    by (simp add: TraverseAndExtract.simps extraction_start_def CalcTreeWidth_def Let_def)
qed

theorem pmt_sound_witness:
  "ExtractMatches \<lparr>pmt_nTransactions = 2, vBits = [True, False, True], vHash = [replicate 32 1, replicate 32 2], fBad = False\<rparr> [] =
    (hash256 (replicate 32 1 @ replicate 32 2), [replicate 32 2], [1],
     \<lparr>pmt_nTransactions = 2, vBits = [True, False, True], vHash = [replicate 32 1, replicate 32 2], fBad = False\<rparr>) \<and>
   (hash256 (replicate 32 1 @ replicate 32 2) = uint256_null \<or> [replicate 32 2] = map ((!) [replicate 32 1, replicate 32 (2 :: u8)]) [1])"
proof -
  let ?a = "replicate 32 1 :: uint256" and ?b = "replicate 32 2 :: uint256"
  let ?t = "\<lparr>pmt_nTransactions = 2, vBits = [True, False, True], vHash = [?a, ?b], fBad = False\<rparr>"
  have ne: "?a \<noteq> ?b"
    by simp
  have r: "ComputeMerkleRoot [] (replicate 8 0) [?a, ?b] = (hash256 (?a @ ?b), False)"
    by (rule root_of_two) simp_all
  have "calc_inputs [?a, ?b] 1 0 = {?a @ ?b}"
    by (simp add: CalcTreeWidth_def)
  then have c: "\<not> collide (calc_inputs [?a, ?b] 1 0) (extract_inputs ?t 1 0 (extraction_start False []))"
    unfolding extract_second(2) [OF ne] collide_def by simp
  have h: "tree_height (length [?a, ?b]) 0 = 1"
    using tree_height_2 by (simp add: numeral_2_eq_2)
  have "hash256 (?a @ ?b) = uint256_null \<or> ([?b] = map ((!) [?a, ?b]) [1] \<and> (\<forall>i\<in>set [1]. i < length [?a, ?b])) \<or>
    collide (calc_inputs [?a, ?b] (tree_height (length [?a, ?b]) 0) 0) (extract_inputs ?t (tree_height (length [?a, ?b]) 0) 0 (extraction_start (fBad ?t) []))"
    by (rule conjunct1, rule pmt_sound [OF _ _ _ _ _ _ r extract_second(1) [OF ne]]) simp_all
  then show ?thesis
    using c extract_second(1) [OF ne] unfolding h by simp
qed

end
