(* ===== verification/Pow.thy ===== *)
theory Pow
  imports Chain
begin

section \<open>Proof of work and difficulty (pow.cpp, consensus/params.h)\<close>

text \<open>
  The retargeting rules and the proof-of-work check. Timestamps, spacings and intervals are the
  \<open>int64_t\<close> values of the source as integers; where the source narrows one (\<open>bnNew *= n\<close> selects the
  \<open>uint32_t\<close> overload, \<open>bnNew /= n\<close> converts to \<open>uint64_t\<close>) the model narrows it.
\<close>

record Params =
  powLimit :: uint256
  fPowAllowMinDifficultyBlocks :: bool
  fPowNoRetargeting :: bool
  nPowTargetSpacing :: int
  nPowTargetTimespan :: int
  nPowKGWHeight :: int
  nPowDGWHeight :: int
  nPPSwitchTime :: u32
  nInitialPPDifficulty :: u32

definition DifficultyAdjustmentInterval :: "Params \<Rightarrow> int" where
  "DifficultyAdjustmentInterval params = nPowTargetTimespan params sdiv nPowTargetSpacing params"

text \<open>\<open>bn *= n\<close> and \<open>bn /= n\<close> for an \<open>int64_t\<close> argument.\<close>

definition mul_i64 :: "base_uint \<Rightarrow> int \<Rightarrow> base_uint" where
  "mul_i64 bn n = uint_mul32 bn (word_of_int n)"

definition div_i64 :: "base_uint \<Rightarrow> int \<Rightarrow> base_uint option" where
  "div_i64 bn n = uint_div bn (uint_of_u64 (word_of_int n))"

definition pow_limit :: "Params \<Rightarrow> base_uint" where
  "pow_limit params = UintToArith256 (powLimit params)"

text \<open>\<open>SetCompact\<close> called without the flag arguments.\<close>

definition bnOfCompact :: "u32 \<Rightarrow> base_uint" where
  "bnOfCompact n = fst (SetCompact n)"

text \<open>The shared last lines of the rules: cap at the limit and encode.\<close>

definition cap_target :: "base_uint \<Rightarrow> base_uint \<Rightarrow> u32 option" where
  "cap_target bnNew bnLimit =
     GetCompact (if CompareTo bnNew bnLimit > 0 then bnLimit else bnNew) False"

subsection \<open>Kimoto gravity well\<close>

text \<open>
  \<open>horizon mass actual target\<close> is the test of lines 53 to 63 on \<open>PastRateAdjustmentRatio\<close> and the event
  horizon deviations. It is computed in \<open>double\<close> with the C library's \<open>pow\<close>, whose rounding is not
  specified, so it is an argument of the model, as is \<open>pastSecondsMin\<close> (a \<open>double\<close> product). The loop
  follows \<open>pprev\<close>: \<open>n\<close> is its fuel.
\<close>

record kgw_state =
  PastBlocksMass :: u64
  PastDifficultyAverage :: base_uint
  PastRateActualSeconds :: int
  PastRateTargetSeconds :: int

definition kgw_average :: "u32 \<Rightarrow> base_uint \<Rightarrow> base_uint \<Rightarrow> base_uint option" where
  "kgw_average i avg prev =
     (if i > 1 then
        (if CompareTo avg prev \<ge> 0
         then map_option (\<lambda>q. uint_add q prev) (uint_div (uint_sub avg prev) (uint_of_u64 (ucast i)))
         else map_option (\<lambda>q. uint_sub prev q) (uint_div (uint_sub prev avg) (uint_of_u64 (ucast i))))
      else Some avg)"

fun kgw_loop :: "(u64 \<Rightarrow> int \<Rightarrow> int \<Rightarrow> bool) \<Rightarrow> block_store \<Rightarrow> Params \<Rightarrow> u64 \<Rightarrow> u64 \<Rightarrow> CBlockIndex \<Rightarrow>
    nat \<Rightarrow> u32 \<Rightarrow> bptr option \<Rightarrow> kgw_state \<Rightarrow> kgw_state option" where
  "kgw_loop horizon st params bmin bmax lastb 0 i r s = None"
| "kgw_loop horizon st params bmin bmax lastb (Suc n) i None s = Some s"
| "kgw_loop horizon st params bmin bmax lastb (Suc n) i (Some p) s =
     (case st p of
        None \<Rightarrow> None
      | Some b \<Rightarrow>
          if \<not> nHeight b > 0 then Some s
          else if bmax > 0 \<and> ucast i > bmax then Some s
          else let mass = PastBlocksMass s + 1
               in case kgw_average i (bnOfCompact (nBits b)) (PastDifficultyAverage s) of
                    None \<Rightarrow> None
                  | Some avg \<Rightarrow>
                      let actual = max 0 (GetBlockTime lastb - GetBlockTime b);
                          target = sint (word_of_int (nPowTargetSpacing params) * mass);
                          s' = \<lparr>PastBlocksMass = mass, PastDifficultyAverage = avg,
                                PastRateActualSeconds = actual, PastRateTargetSeconds = target\<rparr>
                      in if mass \<ge> bmin \<and> horizon mass actual target then Some s'
                         else if pprev b = None then Some s'
                         else kgw_loop horizon st params bmin bmax lastb n (i + 1) (pprev b) s')"

definition KimotoGravityWell ::
  "(u64 \<Rightarrow> int \<Rightarrow> int \<Rightarrow> bool) \<Rightarrow> u64 \<Rightarrow> block_store \<Rightarrow> bptr option \<Rightarrow> Params \<Rightarrow> u32 option" where
  "KimotoGravityWell horizon pastSecondsMin st pindexLast params =
     (let spacing = word_of_int (nPowTargetSpacing params) :: u64;
          pastSecondsMax = word_of_int (nPowTargetTimespan params * 7);
          bmin = pastSecondsMin div spacing;
          bmax = pastSecondsMax div spacing
      in case pindexLast of
           None \<Rightarrow> GetCompact (pow_limit params) False
         | Some p \<Rightarrow>
             (case st p of
                None \<Rightarrow> None
              | Some lastb \<Rightarrow>
                  if nHeight lastb = 0 \<or> (word_of_int (nHeight lastb) :: u64) < bmin
                  then GetCompact (pow_limit params) False
                  else
                    (case kgw_loop horizon st params bmin bmax lastb (nat (nHeight lastb) + 2) 1 (Some p)
                            \<lparr>PastBlocksMass = 0, PastDifficultyAverage = uint_zero,
                             PastRateActualSeconds = 0, PastRateTargetSeconds = 0\<rparr> of
                       None \<Rightarrow> None
                     | Some s \<Rightarrow>
                         (case (if PastRateActualSeconds s \<noteq> 0 \<and> PastRateTargetSeconds s \<noteq> 0
                                then div_i64 (mul_i64 (PastDifficultyAverage s) (PastRateActualSeconds s))
                                       (PastRateTargetSeconds s)
                                else Some (PastDifficultyAverage s)) of
                            None \<Rightarrow> None
                          | Some bnNew \<Rightarrow> cap_target bnNew (pow_limit params)))))"

subsection \<open>Dark gravity wave\<close>

definition nPastBlocks :: nat where
  "nPastBlocks = 24"

text \<open>
  The averaging loop from block \<open>nCountBlocks\<close> on; the result is the average and the block the loop
  ends at.
\<close>

fun dgw_loop :: "block_store \<Rightarrow> nat \<Rightarrow> nat \<Rightarrow> bptr \<Rightarrow> base_uint \<Rightarrow> (base_uint \<times> bptr) option" where
  "dgw_loop st 0 nCountBlocks pindex avg = Some (avg, pindex)"
| "dgw_loop st (Suc n) nCountBlocks pindex avg =
     (case st pindex of
        None \<Rightarrow> None
      | Some b \<Rightarrow>
          let bnTarget = bnOfCompact (nBits b)
          in case (if nCountBlocks = 1 then Some bnTarget
                   else uint_div (uint_add (uint_mul32 avg (of_nat nCountBlocks)) bnTarget)
                          (uint_of_u64 (of_nat (nCountBlocks + 1)))) of
               None \<Rightarrow> None
             | Some avg' \<Rightarrow>
                 if nCountBlocks \<noteq> nPastBlocks then
                   (case pprev b of
                      None \<Rightarrow> None
                    | Some q \<Rightarrow> dgw_loop st n (nCountBlocks + 1) q avg')
                 else dgw_loop st n (nCountBlocks + 1) pindex avg')"

definition clamp_timespan :: "int \<Rightarrow> int \<Rightarrow> int \<Rightarrow> int" where
  "clamp_timespan lo hi t = (let t1 = (if t < lo then lo else t) in if t1 > hi then hi else t1)"

definition DarkGravityWave :: "block_store \<Rightarrow> bptr option \<Rightarrow> Params \<Rightarrow> u32 option" where
  "DarkGravityWave st pindexLast params =
     (case pindexLast of
        None \<Rightarrow> GetCompact (pow_limit params) False
      | Some p \<Rightarrow>
          (case st p of
             None \<Rightarrow> None
           | Some lastb \<Rightarrow>
               if nHeight lastb < int nPastBlocks then GetCompact (pow_limit params) False
               else
                 (case dgw_loop st nPastBlocks 1 p uint_zero of
                    None \<Rightarrow> None
                  | Some (bnPastTargetAvg, pindex) \<Rightarrow>
                      (case st pindex of
                         None \<Rightarrow> None
                       | Some b \<Rightarrow>
                           let nTargetTimespan = int nPastBlocks * nPowTargetSpacing params;
                               nActualTimespan = clamp_timespan (nTargetTimespan sdiv 3) (nTargetTimespan * 3)
                                 (GetBlockTime lastb - GetBlockTime b)
                           in case div_i64 (mul_i64 bnPastTargetAvg nActualTimespan) nTargetTimespan of
                                None \<Rightarrow> None
                              | Some bnNew \<Rightarrow> cap_target bnNew (pow_limit params)))))"

subsection \<open>The Bitcoin rule\<close>

definition CalculateNextWorkRequired :: "CBlockIndex \<Rightarrow> int \<Rightarrow> Params \<Rightarrow> u32 option" where
  "CalculateNextWorkRequired lastb nFirstBlockTime params =
     (if fPowNoRetargeting params then Some (nBits lastb)
      else
        let span = nPowTargetTimespan params;
            nActualTimespan = clamp_timespan (span sdiv 4) (span * 4) (GetBlockTime lastb - nFirstBlockTime)
        in case div_i64 (mul_i64 (bnOfCompact (nBits lastb)) nActualTimespan) span of
             None \<Rightarrow> None
           | Some bnNew \<Rightarrow> cap_target bnNew (pow_limit params))"

fun last_special_loop :: "nat \<Rightarrow> block_store \<Rightarrow> Params \<Rightarrow> u32 \<Rightarrow> bptr \<Rightarrow> u32 option" where
  "last_special_loop 0 st params lim p = None"
| "last_special_loop (Suc n) st params lim p =
     (case st p of
        None \<Rightarrow> None
      | Some b \<Rightarrow>
          (case pprev b of
             Some q \<Rightarrow>
               if nHeight b smod DifficultyAdjustmentInterval params \<noteq> 0 \<and> nBits b = lim
               then last_special_loop n st params lim q
               else Some (nBits b)
           | None \<Rightarrow> Some (nBits b)))"

definition GetNextWorkRequiredBTC :: "block_store \<Rightarrow> bptr \<Rightarrow> CBlockHeader \<Rightarrow> Params \<Rightarrow> u32 option" where
  "GetNextWorkRequiredBTC st p pblock params =
     (case (st p, GetCompact (pow_limit params) False) of
        (Some lastb, Some nProofOfWorkLimit) \<Rightarrow>
          if (nHeight lastb + 1) smod DifficultyAdjustmentInterval params \<noteq> 0 then
            if fPowAllowMinDifficultyBlocks params then
              if uint (hdr_nTime pblock) > GetBlockTime lastb + nPowTargetSpacing params * 2
              then Some nProofOfWorkLimit
              else last_special_loop (nat (nHeight lastb) + 2) st params nProofOfWorkLimit p
            else Some (nBits lastb)
          else
            let nHeightFirst = nHeight lastb - (DifficultyAdjustmentInterval params - 1)
            in if nHeightFirst < 0 then None
               else
                 (case GetAncestor st p nHeightFirst of
                    Some (Some q) \<Rightarrow>
                      (case st q of
                         None \<Rightarrow> None
                       | Some b \<Rightarrow> CalculateNextWorkRequired lastb (GetBlockTime b) params)
                  | _ \<Rightarrow> None)
      | _ \<Rightarrow> None)"

subsection \<open>The ProgPoW rule\<close>

definition GetNextWorkRequiredSCC :: "block_store \<Rightarrow> bptr option \<Rightarrow> Params \<Rightarrow> u32 option" where
  "GetNextWorkRequiredSCC st pindexLast consensus =
     (case Option.bind pindexLast st of
        None \<Rightarrow>
          if fPowNoRetargeting consensus \<or> pindexLast \<noteq> None then None
          else GetCompact (pow_limit consensus) False
      | Some lastb \<Rightarrow>
          if fPowNoRetargeting consensus then Some (nBits lastb)
          else if nHeight lastb = 0 \<or> nHeight lastb < 24 then GetCompact (pow_limit consensus) False
          else
            (case Option.bind (pprev lastb) st of
               None \<Rightarrow> None
             | Some prevb \<Rightarrow>
                 let gap = GetBlockTime lastb - GetBlockTime prevb;
                     nActualSpacing = (if gap < 0 then 1 else gap);
                     spacing = nPowTargetSpacing consensus;
                     nInterval = nPowTargetTimespan consensus sdiv spacing
                 in case div_i64 (mul_i64 (bnOfCompact (nBits lastb))
                                   ((nInterval - 1) * spacing + nActualSpacing + nActualSpacing))
                           ((nInterval + 1) * spacing) of
                      None \<Rightarrow> None
                    | Some bnNew \<Rightarrow>
                        GetCompact
                          (if CompareTo bnNew (uint_of_u64 0) \<le> 0 \<or> CompareTo bnNew (pow_limit consensus) > 0
                           then pow_limit consensus else bnNew) False))"

subsection \<open>The rule in force and the check\<close>

text \<open>\<open>kgw\<close> is the call of \<open>KimotoGravityWell\<close> with its arguments of the model.\<close>

definition GetNextWorkRequired ::
  "(u64 \<Rightarrow> int \<Rightarrow> int \<Rightarrow> bool) \<Rightarrow> u64 \<Rightarrow> block_store \<Rightarrow> bptr \<Rightarrow> CBlockHeader \<Rightarrow> Params \<Rightarrow> u32 option" where
  "GetNextWorkRequired horizon pastSecondsMin st p pblock params =
     (case st p of
        None \<Rightarrow> None
      | Some lastb \<Rightarrow>
          if nHeight lastb + 1 < nPowKGWHeight params then GetNextWorkRequiredBTC st p pblock params
          else if nHeight lastb + 1 < nPowDGWHeight params
          then KimotoGravityWell horizon pastSecondsMin st (Some p) params
          else if IsProgPow (nPPSwitchTime params) (hdr_nTime pblock) then
            (if nTime lastb \<le> nPPSwitchTime params then Some (nInitialPPDifficulty params)
             else GetNextWorkRequiredSCC st (Some p) params)
          else DarkGravityWave st (Some p) params)"

definition CheckProofOfWork :: "uint256 \<Rightarrow> u32 \<Rightarrow> Params \<Rightarrow> bool" where
  "CheckProofOfWork hash nBitsArg params =
     (let (bnTarget, fNegative, fOverflow) = SetCompact nBitsArg
      in if fNegative \<or> EqualTo bnTarget 0 \<or> fOverflow \<or> CompareTo bnTarget (pow_limit params) > 0 then False
         else if CompareTo (UintToArith256 hash) bnTarget > 0 then False
         else True)"

subsection \<open>Arithmetic of the rules\<close>

lemma wf_bnOfCompact [simp]: "wf_uint (bnOfCompact n)"
  unfolding bnOfCompact_def by (cases "SetCompact n") (simp add: SetCompact_value(1))

lemma wf_pow_limit [simp]: "wf_uint (pow_limit params)"
  by (simp add: pow_limit_def)

lemma wf_mul_i64 [simp]: "wf_uint a \<Longrightarrow> wf_uint (mul_i64 a n)"
  by (simp add: mul_i64_def)

lemma unat_word_of_int_small: "0 \<le> n \<Longrightarrow> n < 2 ^ LENGTH('a::len) \<Longrightarrow> unat (word_of_int n :: 'a word) = nat n"
  by (metis nat_uint_eq take_bit_int_eq_self uint_word_of_int_eq)

lemma mul_i64_value:
  assumes "wf_uint a" and "0 \<le> n" and "n < 2 ^ 32"
  shows "uval (mul_i64 a n) = (uval a * nat n) mod 2 ^ 256"
  using uint_ring_facts(4) [OF assms(1,1), of "word_of_int n"] unat_word_of_int_small [of n, where ?'a = 32] assms(2,3)
  by (simp only: mul_i64_def len_of_numeral_defs) simp

lemma div_i64_value:
  assumes "wf_uint a" and "0 < n" and "n < 2 ^ 64"
  shows "\<exists>q. div_i64 a n = Some q \<and> wf_uint q \<and> uval q = uval a div nat n"
proof -
  have n: "unat (word_of_int n :: u64) = nat n"
    using unat_word_of_int_small [of n, where ?'a = 64] assms(2,3) by simp
  have "uval (uint_of_u64 (word_of_int n)) \<noteq> 0" using n assms(2) by (simp add: uval_uint_of_u64)
  then obtain q where q: "div_i64 a n = Some q"
    using uint_div_value(1) [OF assms(1), of "uint_of_u64 (word_of_int n)"] by (auto simp: div_i64_def)
  then show ?thesis
    using uint_div_value(2) [OF assms(1), of "uint_of_u64 (word_of_int n)" q] n
    by (simp add: div_i64_def uval_uint_of_u64)
qed

definition in_range :: "Params \<Rightarrow> u32 \<Rightarrow> bool" where
  "in_range params n \<longleftrightarrow>
     (case SetCompact n of (t, neg, ovf) \<Rightarrow> \<not> neg \<and> \<not> ovf \<and> uval t \<le> uval (pow_limit params))"

lemma cap_target_eq:
  assumes "wf_uint a" and "wf_uint l"
  obtains r where "wf_uint r" and "uval r = min (uval l) (uval a)" and "cap_target a l = GetCompact r False"
proof -
  have "length a = length l" using assms by (simp add: wf_uint_def)
  note c = CompareTo_iff(2) [OF this]
  show ?thesis
    by (rule that [of "if CompareTo a l > 0 then l else a"]) (use assms c in \<open>auto simp: cap_target_def\<close>)
qed

lemma GetCompact_in_range:
  assumes "wf_uint a" and "uval a \<le> uval (pow_limit params)"
  obtains n where "GetCompact a False = Some n" and "in_range params n"
  using compact.enc_le [OF assms] by (auto simp: in_range_def)

lemma cap_target_in_range:
  assumes "wf_uint a"
  obtains n where "cap_target a (pow_limit params) = Some n" and "in_range params n"
proof -
  obtain r where r: "wf_uint r" "uval r = min (uval (pow_limit params)) (uval a)"
      "cap_target a (pow_limit params) = GetCompact r False"
    by (rule cap_target_eq [OF assms wf_pow_limit])
  show ?thesis
    by (rule GetCompact_in_range [OF r(1), of params]) (use r that in auto)
qed

lemma in_range_bnOfCompact: "in_range params n \<Longrightarrow> uval (bnOfCompact n) \<le> uval (pow_limit params)"
  by (auto simp: in_range_def bnOfCompact_def split: prod.splits)

lemma clamp_timespan_bounds: "lo \<le> hi \<Longrightarrow> lo \<le> clamp_timespan lo hi t \<and> clamp_timespan lo hi t \<le> hi"
  by (simp add: clamp_timespan_def Let_def)

subsection \<open>The averaging loop\<close>

text \<open>The targets of an entry and its predecessors, and the running average over them, on naturals.\<close>

fun past_targets :: "block_store \<Rightarrow> nat \<Rightarrow> bptr \<Rightarrow> nat list" where
  "past_targets st 0 p = []"
| "past_targets st (Suc n) p =
     (case st p of None \<Rightarrow> []
      | Some b \<Rightarrow> uval (bnOfCompact (nBits b)) #
          (case pprev b of None \<Rightarrow> [] | Some q \<Rightarrow> past_targets st n q))"

fun dgw_average :: "nat \<Rightarrow> nat \<Rightarrow> nat list \<Rightarrow> nat" where
  "dgw_average k avg [] = avg"
| "dgw_average k avg (t # ts) =
     dgw_average (k + 1) (if k = 1 then t else (avg * k + t) div (k + 1)) ts"

lemma dgw_step_value:
  assumes "wf_uint avg" and "wf_uint t" and "2 \<le> k" and "k \<le> 24"
    and "uval avg \<le> L" and "uval t \<le> L" and "L < 2 ^ 250"
  shows "\<exists>q. uint_div (uint_add (uint_mul32 avg (of_nat k)) t) (uint_of_u64 (of_nat (k + 1))) = Some q \<and>
    wf_uint q \<and> uval q = (uval avg * k + uval t) div (k + 1) \<and> uval q \<le> L"
proof -
  have k: "unat (of_nat k :: u32) = k" "unat (of_nat (k + 1) :: u64) = k + 1"
    using assms(4) by (simp_all only: unat_of_nat len_of_numeral_defs mod_less) simp_all
  have m: "uval avg * k + uval t \<le> L * (k + 1)"
    using add_le_mono [OF mult_le_mono1 [OF assms(5), of k] assms(6)] by (simp only: distrib_left mult_1_right)
  also have "\<dots> \<le> L * 25" using assms(4) by simp
  also have "\<dots> < 2 ^ 256" using assms(7) by simp
  finally have lt: "uval avg * k + uval t < 2 ^ 256" .
  then have "uval avg * k < 2 ^ 256" by linarith
  then have "uval (uint_mul32 avg (of_nat k)) = uval avg * k"
    using uint_ring_facts(4) [OF assms(1,1), of "of_nat k"] k(1) by (simp only: mod_less)
  then have a: "uval (uint_add (uint_mul32 avg (of_nat k)) t) = uval avg * k + uval t"
    using uint_ring_facts(1) [of "uint_mul32 avg (of_nat k)" t] assms(1,2) lt by (simp only: wf_uint_simps mod_less)
  have w: "wf_uint (uint_add (uint_mul32 avg (of_nat k)) t)" using assms(1,2) by simp
  have d: "uval (uint_of_u64 (of_nat (k + 1))) = k + 1" using k(2) by (simp only: uval_uint_of_u64)
  then have "uval (uint_of_u64 (of_nat (k + 1))) \<noteq> 0" by simp
  then obtain q where q: "uint_div (uint_add (uint_mul32 avg (of_nat k)) t) (uint_of_u64 (of_nat (k + 1))) = Some q"
    using uint_div_value(1) [OF w wf_uint_simps(2)] by (metis not_None_eq)
  have "uval q = (uval avg * k + uval t) div (k + 1)" "wf_uint q"
    using uint_div_value(2) [OF w wf_uint_simps(2) q] unfolding a d by simp_all
  moreover have "(uval avg * k + uval t) div (k + 1) \<le> L"
    using div_le_mono [OF m, of "k + 1"] nonzero_mult_div_cancel_right [of "k + 1" L] by (simp only:)
  ultimately show ?thesis using q by simp
qed

lemma dgw_loop_value:
  assumes wf: "wf_store st" and L: "L < 2 ^ 250"
    and tgt: "\<And>p b. st p = Some b \<Longrightarrow> uval (bnOfCompact (nBits b)) \<le> L"
  shows "st p = Some b \<Longrightarrow> int m \<le> nHeight b \<Longrightarrow> m < 24 \<Longrightarrow> wf_uint avg \<Longrightarrow> uval avg \<le> L \<Longrightarrow>
    \<exists>avg' q. dgw_loop st (Suc m) (24 - m) p avg = Some (avg', q) \<and> wf_uint avg' \<and> prev_n st m p = Some q \<and>
      uval avg' = dgw_average (24 - m) (uval avg) (past_targets st (Suc m) p) \<and> uval avg' \<le> L"
proof (induction m arbitrary: p b avg)
  case (0 p b avg)
  have "uval (bnOfCompact (nBits b)) \<le> L" by (rule tgt [OF 0(1)])
  then obtain q where "uint_div (uint_add (uint_mul32 avg (of_nat 24)) (bnOfCompact (nBits b)))
      (uint_of_u64 (of_nat (24 + 1))) = Some q" "wf_uint q"
      "uval q = (uval avg * 24 + uval (bnOfCompact (nBits b))) div (24 + 1)" "uval q \<le> L"
    using dgw_step_value [OF 0(4) wf_bnOfCompact [of "nBits b"] _ _ 0(5) _ L, of 24] by auto
  then show ?case using 0(1) by (simp add: nPastBlocks_def split: option.splits)
next
  case (Suc m p b avg)
  let ?t = "bnOfCompact (nBits b)" and ?k = "24 - Suc m"
  have t: "uval ?t \<le> L" by (rule tgt [OF Suc.prems(1)])
  have "0 < nHeight b" using Suc.prems(2) by simp
  then obtain q e where q: "pprev b = Some q" "st q = Some e" "nHeight b = nHeight e + 1"
    by (rule wf_prev_Some [OF wf Suc.prems(1)])
  have step: "\<exists>a. (if ?k = 1 then Some ?t
      else uint_div (uint_add (uint_mul32 avg (of_nat ?k)) ?t) (uint_of_u64 (of_nat (?k + 1)))) = Some a \<and>
      wf_uint a \<and> uval a \<le> L \<and> uval a = (if ?k = 1 then uval ?t else (uval avg * ?k + uval ?t) div (?k + 1))"
  proof (cases "?k = 1")
    case True
    then show ?thesis using t by simp
  next
    case False
    then have "2 \<le> ?k" "?k \<le> 24" using Suc.prems(3) by simp_all
    from dgw_step_value [OF Suc.prems(4) wf_bnOfCompact this Suc.prems(5) t L] show ?thesis using False by auto
  qed
  then obtain a where a: "(if ?k = 1 then Some ?t
      else uint_div (uint_add (uint_mul32 avg (of_nat ?k)) ?t) (uint_of_u64 (of_nat (?k + 1)))) = Some a"
      "wf_uint a" "uval a \<le> L" "uval a = (if ?k = 1 then uval ?t else (uval avg * ?k + uval ?t) div (?k + 1))"
    by blast
  have kk: "?k + 1 = 24 - m" "?k \<noteq> nPastBlocks" using Suc.prems(3) by (simp_all add: nPastBlocks_def)
  have "int m \<le> nHeight e" "m < 24" using Suc.prems(2,3) q(3) by simp_all
  from Suc.IH [OF q(2) this a(2,3)] obtain avg' r where
    r: "dgw_loop st (Suc m) (24 - m) q a = Some (avg', r)" "wf_uint avg'" "prev_n st m q = Some r"
      "uval avg' = dgw_average (24 - m) (uval a) (past_targets st (Suc m) q)" "uval avg' \<le> L" by blast
  have "dgw_loop st (Suc (Suc m)) ?k p avg = dgw_loop st (Suc m) (?k + 1) q a"
    unfolding dgw_loop.simps(2) [of st "Suc m"] Suc.prems(1) option.case Let_def a(1) using kk(2) q(1) by simp
  then have "dgw_loop st (Suc (Suc m)) ?k p avg = Some (avg', r)" unfolding kk(1) r(1) .
  moreover have "dgw_average ?k (uval avg) (past_targets st (Suc (Suc m)) p) =
      dgw_average (?k + 1) (uval a) (past_targets st (Suc m) q)"
    unfolding past_targets.simps(2) [of st "Suc m"] Suc.prems(1) option.case q(1) dgw_average.simps a(4) ..
  moreover have "prev_n st (Suc m) p = Some r" using r(3) Suc.prems(1) q(1) by simp
  ultimately show ?case using r(2,4,5) unfolding kk(1) by (intro exI [of _ avg'] exI [of _ r]) (simp only: simp_thms)
qed

subsection \<open>Every rule returns a target in range\<close>

lemma sdiv_pos: "0 \<le> a \<Longrightarrow> 0 < b \<Longrightarrow> a sdiv b = a div (b::int)"
  by (simp add: signed_divide_int_def sgn_if)

lemma smod_pos: "0 \<le> a \<Longrightarrow> 0 < b \<Longrightarrow> a smod b = a mod (b::int)"
  by (simp add: signed_modulo_int_def sgn_if)

definition valid_params :: "Params \<Rightarrow> bool" where
  "valid_params params \<longleftrightarrow> 0 < nPowTargetSpacing params \<and> nPowTargetSpacing params \<le> nPowTargetTimespan params \<and>
     nPowTargetTimespan params < 2 ^ 40"

lemma valid_paramsD:
  assumes "valid_params params"
  shows "0 < nPowTargetSpacing params" and "nPowTargetSpacing params < 2 ^ 40" and "0 < nPowTargetTimespan params"
    and "nPowTargetTimespan params < 2 ^ 40"
    and "DifficultyAdjustmentInterval params = nPowTargetTimespan params div nPowTargetSpacing params"
    and "1 \<le> DifficultyAdjustmentInterval params"
proof -
  have v: "0 < nPowTargetSpacing params" "nPowTargetSpacing params \<le> nPowTargetTimespan params"
    "nPowTargetTimespan params < 2 ^ 40" using assms by (simp_all add: valid_params_def)
  show "0 < nPowTargetSpacing params" "nPowTargetSpacing params < 2 ^ 40" "0 < nPowTargetTimespan params"
    "nPowTargetTimespan params < 2 ^ 40" using v by linarith+
  show eq: "DifficultyAdjustmentInterval params = nPowTargetTimespan params div nPowTargetSpacing params"
    using v by (simp add: DifficultyAdjustmentInterval_def sdiv_pos)
  show "1 \<le> DifficultyAdjustmentInterval params"
    unfolding eq using v by (simp add: pos_imp_zdiv_pos_iff int_one_le_iff_zero_less)
qed

lemma div_i64_wf:
  assumes "wf_uint a" and "0 < n" and "n < 2 ^ 64"
  obtains q where "div_i64 a n = Some q" and "wf_uint q"
  using div_i64_value [OF assms] by blast

lemma CalculateNextWorkRequired_in_range:
  assumes "valid_params params" and "in_range params (nBits b)"
  obtains n where "CalculateNextWorkRequired b t params = Some n" and "in_range params n"
proof (cases "fPowNoRetargeting params")
  case True
  then show ?thesis using that assms(2) by (simp add: CalculateNextWorkRequired_def)
next
  case False
  note v = valid_paramsD [OF assms(1)]
  let ?s = "nPowTargetTimespan params"
  let ?a = "mul_i64 (bnOfCompact (nBits b)) (clamp_timespan (?s sdiv 4) (?s * 4) (GetBlockTime b - t))"
  have "?s < 2 ^ 64" using v(4) by simp
  then obtain q where q: "div_i64 ?a ?s = Some q" "wf_uint q"
    using div_i64_wf [OF _ v(3), of ?a] by auto
  show ?thesis
    by (rule cap_target_in_range [OF q(2), of params])
      (use that False q(1) in \<open>simp add: CalculateNextWorkRequired_def Let_def\<close>)
qed

lemma last_special_loop_in_range:
  assumes "wf_store st" and "\<And>p b. st p = Some b \<Longrightarrow> in_range params (nBits b)"
  shows "st p = Some b \<Longrightarrow> nHeight b = int h \<Longrightarrow> h + 1 \<le> n \<Longrightarrow>
    \<exists>m. last_special_loop n st params lim p = Some m \<and> in_range params m"
proof (induction h arbitrary: p b n)
  case (0 p b n)
  have "pprev b = None" using wf_genesis_prev [OF assms(1) 0(1)] 0(2) by simp
  then show ?case using 0(1,3) assms(2) [OF 0(1)] by (cases n) auto
next
  case (Suc h p b n)
  have "0 < nHeight b" using Suc.prems(2) by simp
  then obtain q e where q: "pprev b = Some q" "st q = Some e" "nHeight b = nHeight e + 1"
    by (rule wf_prev_Some [OF assms(1) Suc.prems(1)])
  obtain m where m: "n = Suc m" "h + 1 \<le> m" using Suc.prems(3) by (cases n) auto
  have "nHeight e = int h" using q(3) Suc.prems(2) by simp
  from Suc.IH [OF q(2) this m(2)] show ?case
    using m(1) Suc.prems(1) q(1) assms(2) [OF Suc.prems(1)] by auto
qed

lemma GetNextWorkRequiredBTC_in_range:
  assumes wf: "wf_store st" and p: "st p = Some b" and v: "valid_params params"
    and bits: "\<And>p b. st p = Some b \<Longrightarrow> in_range params (nBits b)"
  obtains n where "GetNextWorkRequiredBTC st p pblock params = Some n" and "in_range params n"
proof -
  note vp = valid_paramsD [OF v]
  note h0 = wf_storeD(3) [OF wf p]
  let ?I = "DifficultyAdjustmentInterval params"
  obtain lim where lim: "GetCompact (pow_limit params) False = Some lim" "in_range params lim"
    by (rule GetCompact_in_range [OF wf_pow_limit order_refl])
  show ?thesis
  proof (cases "(nHeight b + 1) smod ?I = 0")
    case False
    have "\<exists>m. last_special_loop (nat (nHeight b) + 2) st params lim p = Some m \<and> in_range params m"
      by (rule last_special_loop_in_range [OF wf _ p, where h = "nat (nHeight b)"]) (use h0 bits in simp_all)
    then obtain m where "last_special_loop (nat (nHeight b) + 2) st params lim p = Some m" "in_range params m"
      by blast
    then show ?thesis using False p lim bits [OF p]
      by (intro that [of "if fPowAllowMinDifficultyBlocks params then
            if uint (hdr_nTime pblock) > GetBlockTime b + nPowTargetSpacing params * 2 then lim else m
          else nBits b"])
        (simp_all add: GetNextWorkRequiredBTC_def del: last_special_loop.simps)
  next
    case True
    then have "(nHeight b + 1) mod ?I = 0" using smod_pos [of "nHeight b + 1" ?I] h0 vp(6) by simp
    then have "?I \<le> nHeight b + 1" using h0 by (intro zdvd_imp_le) (auto simp: dvd_eq_mod_eq_0)
    then have hf: "0 \<le> nHeight b - (?I - 1)" "nHeight b - (?I - 1) \<le> nHeight b" using vp(6) by simp_all
    obtain q e where q: "GetAncestor st p (nHeight b - (?I - 1)) = Some (Some q)" "st q = Some e"
      by (rule ancestor_at_ex [OF wf p hf])
    obtain n where "CalculateNextWorkRequired b (GetBlockTime e) params = Some n" "in_range params n"
      by (rule CalculateNextWorkRequired_in_range [OF v bits [OF p]])
    then show ?thesis using that True p lim hf(1) q by (simp add: GetNextWorkRequiredBTC_def Let_def)
  qed
qed

lemma dgw_loop_total:
  assumes wf: "wf_store st"
  shows "st p = Some b \<Longrightarrow> int m \<le> nHeight b \<Longrightarrow> m < 24 \<Longrightarrow> wf_uint avg \<Longrightarrow>
    \<exists>avg' q e. dgw_loop st (Suc m) (24 - m) p avg = Some (avg', q) \<and> wf_uint avg' \<and> st q = Some e"
proof (induction m arbitrary: p b avg)
  case (0 p b avg)
  let ?n = "uint_add (uint_mul32 avg (of_nat 24)) (bnOfCompact (nBits b))" and ?d = "uint_of_u64 (of_nat (24 + 1))"
  have "uval ?d \<noteq> 0" by (simp add: uval_uint_of_u64)
  moreover have "wf_uint ?n" using 0(4) by simp
  ultimately obtain a where a: "uint_div ?n ?d = Some a" "wf_uint a"
    using uint_div_total [OF _ wf_uint_simps(2)] by blast
  have "dgw_loop st (Suc 0) (24 - 0) p avg = Some (a, p)"
    using 0(1) a(1) by (simp add: nPastBlocks_def)
  then show ?case using a(2) 0(1) by blast
next
  case (Suc m p b avg)
  let ?k = "24 - Suc m"
  let ?n = "uint_add (uint_mul32 avg (of_nat ?k)) (bnOfCompact (nBits b))" and ?d = "uint_of_u64 (of_nat (?k + 1))"
  have "unat (of_nat (?k + 1) :: u64) = ?k + 1" by (simp only: unat_of_nat len_of_numeral_defs mod_less) simp
  then have "uval ?d \<noteq> 0" unfolding uval_uint_of_u64 by linarith
  moreover have "wf_uint ?n" using Suc.prems(4) by simp
  ultimately obtain a where a: "uint_div ?n ?d = Some a" "wf_uint a"
    using uint_div_total [OF _ wf_uint_simps(2)] by blast
  define x where "x = (if ?k = 1 then bnOfCompact (nBits b) else a)"
  have x: "(if ?k = 1 then Some (bnOfCompact (nBits b)) else uint_div ?n ?d) = Some x" "wf_uint x"
    using a by (simp_all add: x_def)
  have "0 < nHeight b" using Suc.prems(2) by simp
  then obtain q e where q: "pprev b = Some q" "st q = Some e" "nHeight b = nHeight e + 1"
    by (rule wf_prev_Some [OF wf Suc.prems(1)])
  have kk: "?k + 1 = 24 - m" "?k \<noteq> nPastBlocks" using Suc.prems(3) by (simp_all add: nPastBlocks_def)
  have "int m \<le> nHeight e" "m < 24" using Suc.prems(2,3) q(3) by simp_all
  from Suc.IH [OF q(2) this x(2)] have IH: "\<exists>avg' r e. dgw_loop st (Suc m) (24 - m) q x = Some (avg', r) \<and> wf_uint avg' \<and> st r = Some e" .
  have "dgw_loop st (Suc (Suc m)) ?k p avg = dgw_loop st (Suc m) (?k + 1) q x"
    unfolding dgw_loop.simps(2) [of st "Suc m"] Suc.prems(1) option.case Let_def x(1) using kk(2) q(1) by simp
  then show ?case using IH unfolding kk(1) by (simp only:)
qed

lemma DarkGravityWave_in_range:
  assumes wf: "wf_store st" and p: "st p = Some b" and v: "valid_params params"
  obtains n where "DarkGravityWave st (Some p) params = Some n" and "in_range params n"
proof (cases "nHeight b < int nPastBlocks")
  case True
  show ?thesis
    by (rule GetCompact_in_range [OF wf_pow_limit order_refl]) (use that True p in \<open>simp add: DarkGravityWave_def\<close>)
next
  case False
  note vp = valid_paramsD [OF v]
  have "int 23 \<le> nHeight b" using False by (simp add: nPastBlocks_def)
  then have "\<exists>a q e. dgw_loop st (Suc 23) (24 - 23) p uint_zero = Some (a, q) \<and> wf_uint a \<and> st q = Some e"
    by (intro dgw_loop_total [OF wf p]) simp_all
  then obtain a q e where a: "dgw_loop st nPastBlocks 1 p uint_zero = Some (a, q)" "wf_uint a" "st q = Some e"
    by (auto simp add: nPastBlocks_def eval_nat_numeral simp del: dgw_loop.simps)
  let ?T = "int nPastBlocks * nPowTargetSpacing params"
  let ?x = "mul_i64 a (clamp_timespan (?T sdiv 3) (?T * 3) (GetBlockTime b - GetBlockTime e))"
  have "0 < ?T" "?T < 2 ^ 64" using vp(1,2) by (simp_all add: nPastBlocks_def)
  then obtain d where d: "div_i64 ?x ?T = Some d" "wf_uint d"
    using div_i64_wf [of ?x ?T] a(2) by auto
  show ?thesis
    by (rule cap_target_in_range [OF d(2), of params])
      (use that False p a d(1) in \<open>simp add: DarkGravityWave_def Let_def\<close>)
qed

lemma kgw_average_wf:
  assumes "wf_uint avg" and "wf_uint prev"
  obtains a where "kgw_average i avg prev = Some a" and "wf_uint a"
proof (cases "i > 1")
  case False
  then show ?thesis using that assms(1) by (simp add: kgw_average_def)
next
  case True
  let ?d = "uint_of_u64 (ucast i)"
  have "unat i \<noteq> 0" using True by (simp add: word_less_nat_alt)
  then have d: "uval ?d \<noteq> 0" by (simp add: uval_uint_of_u64 unat_ucast_up)
  obtain x where x: "uint_div (uint_sub avg prev) ?d = Some x" "wf_uint x"
    using uint_div_total [OF wf_uint_simps(9) [OF assms] wf_uint_simps(2) d] by blast
  obtain y where y: "uint_div (uint_sub prev avg) ?d = Some y" "wf_uint y"
    using uint_div_total [OF wf_uint_simps(9) [OF assms(2,1)] wf_uint_simps(2) d] by blast
  show ?thesis
    by (rule that [of "if CompareTo avg prev \<ge> 0 then uint_add x prev else uint_sub prev y"])
      (use True x y assms in \<open>simp_all add: kgw_average_def\<close>)
qed

text \<open>What the loop keeps: limbs of the right number, and a target time that is a 64-bit value.\<close>

definition kgw_ok :: "kgw_state \<Rightarrow> bool" where
  "kgw_ok s \<longleftrightarrow> wf_uint (PastDifficultyAverage s) \<and> (\<exists>w :: u64. PastRateTargetSeconds s = sint w)"

lemma kgw_loop_total:
  assumes wf: "wf_store st"
  shows "st p = Some b \<Longrightarrow> nHeight b = int h \<Longrightarrow> h + 1 \<le> n \<Longrightarrow> kgw_ok s \<Longrightarrow>
    \<exists>s'. kgw_loop horizon st params bmin bmax lastb n i (Some p) s = Some s' \<and> kgw_ok s'"
proof (induction h arbitrary: p b n i s)
  case (0 p b n i s)
  then show ?case by (cases n) auto
next
  case (Suc h p b n i s)
  obtain m where m: "n = Suc m" "h + 1 \<le> m" using Suc.prems(3) by (cases n) auto
  have "0 < nHeight b" using Suc.prems(2) by simp
  then obtain q e where q: "pprev b = Some q" "st q = Some e" "nHeight b = nHeight e + 1"
    by (rule wf_prev_Some [OF wf Suc.prems(1)])
  obtain a where a: "kgw_average i (bnOfCompact (nBits b)) (PastDifficultyAverage s) = Some a" "wf_uint a"
    using kgw_average_wf [OF wf_bnOfCompact, of "PastDifficultyAverage s" i "nBits b"] Suc.prems(4) by (auto simp: kgw_ok_def)
  let ?s = "\<lparr>PastBlocksMass = PastBlocksMass s + 1, PastDifficultyAverage = a,
      PastRateActualSeconds = max 0 (GetBlockTime lastb - GetBlockTime b),
      PastRateTargetSeconds = sint (word_of_int (nPowTargetSpacing params) * (PastBlocksMass s + 1))\<rparr>"
  have "nHeight e = int h" using q(3) Suc.prems(2) by simp
  moreover have ok: "kgw_ok ?s" using a(2) by (auto simp: kgw_ok_def)
  ultimately obtain s' where s': "kgw_loop horizon st params bmin bmax lastb m (i + 1) (Some q) ?s = Some s'" "kgw_ok s'"
    using Suc.IH [OF q(2) _ m(2)] by blast
  show ?case
    unfolding m(1) kgw_loop.simps(3) Suc.prems(1) option.case Let_def a(1) q(1) s'(1)
    using Suc.prems(4) ok s'(2) by simp
qed

lemma KimotoGravityWell_in_range:
  assumes wf: "wf_store st" and p: "st p = Some b"
  obtains n where "KimotoGravityWell horizon smin st (Some p) params = Some n" and "in_range params n"
proof -
  obtain lim where lim: "GetCompact (pow_limit params) False = Some lim" "in_range params lim"
    by (rule GetCompact_in_range [OF wf_pow_limit order_refl])
  let ?bmin = "smin div word_of_int (nPowTargetSpacing params)"
  let ?bmax = "word_of_int (nPowTargetTimespan params * 7) div word_of_int (nPowTargetSpacing params) :: u64"
  let ?s0 = "\<lparr>PastBlocksMass = 0, PastDifficultyAverage = uint_zero, PastRateActualSeconds = 0, PastRateTargetSeconds = 0\<rparr>"
  have "kgw_ok ?s0" by (auto simp: kgw_ok_def intro: exI [of _ 0])
  then have "\<exists>s'. kgw_loop horizon st params ?bmin ?bmax b (nat (nHeight b) + 2) 1 (Some p) ?s0 = Some s' \<and> kgw_ok s'"
    by (intro kgw_loop_total [OF wf p, where h = "nat (nHeight b)"]) (use wf_storeD(3) [OF wf p] in simp_all)
  then obtain s where s: "kgw_loop horizon st params ?bmin ?bmax b (nat (nHeight b) + 2) 1 (Some p) ?s0 = Some s"
      "kgw_ok s" by blast
  let ?r = "if PastRateActualSeconds s \<noteq> 0 \<and> PastRateTargetSeconds s \<noteq> 0
    then div_i64 (mul_i64 (PastDifficultyAverage s) (PastRateActualSeconds s)) (PastRateTargetSeconds s)
    else Some (PastDifficultyAverage s)"
  have "\<exists>r. ?r = Some r \<and> wf_uint r"
  proof (cases "PastRateActualSeconds s \<noteq> 0 \<and> PastRateTargetSeconds s \<noteq> 0")
    case True
    obtain w :: u64 where w: "PastRateTargetSeconds s = sint w" using s(2) by (auto simp: kgw_ok_def)
    then have "w \<noteq> 0" using True by auto
    then have "uval (uint_of_u64 (word_of_int (PastRateTargetSeconds s))) \<noteq> 0"
      unfolding w uval_uint_of_u64 by (simp add: unat_eq_zero)
    then show ?thesis
      using uint_div_total [OF wf_mul_i64 wf_uint_simps(2), of "PastDifficultyAverage s"] s(2) True
      by (auto simp: div_i64_def kgw_ok_def)
  next
    case False
    then show ?thesis using s(2) unfolding kgw_ok_def if_not_P [OF False] by blast
  qed
  then obtain r where r: "?r = Some r" "wf_uint r" by blast
  obtain n where n: "cap_target r (pow_limit params) = Some n" "in_range params n"
    by (rule cap_target_in_range [OF r(2)])
  show ?thesis
  proof (cases "nHeight b = 0 \<or> (word_of_int (nHeight b) :: u64) < ?bmin")
    case True
    then show ?thesis using that p lim by (simp add: KimotoGravityWell_def Let_def)
  next
    case False
    have "KimotoGravityWell horizon smin st (Some p) params = Some n"
      unfolding KimotoGravityWell_def Let_def option.case p s(1) r(1) n(1) using False by simp
    then show ?thesis using that n(2) by blast
  qed
qed

lemma GetNextWorkRequiredSCC_in_range:
  assumes wf: "wf_store st" and p: "st p = Some b" and v: "valid_params params" and bits: "in_range params (nBits b)"
  obtains n where "GetNextWorkRequiredSCC st (Some p) params = Some n" and "in_range params n"
proof -
  note vp = valid_paramsD [OF v]
  obtain lim where lim: "GetCompact (pow_limit params) False = Some lim" "in_range params lim"
    by (rule GetCompact_in_range [OF wf_pow_limit order_refl])
  consider "fPowNoRetargeting params" | "\<not> fPowNoRetargeting params" "nHeight b = 0 \<or> nHeight b < 24"
    | "\<not> fPowNoRetargeting params" "\<not> (nHeight b = 0 \<or> nHeight b < 24)" by blast
  then show ?thesis
  proof cases
    case 1
    then show ?thesis using that p bits by (simp add: GetNextWorkRequiredSCC_def)
  next
    case 2
    then show ?thesis using that p lim by (simp add: GetNextWorkRequiredSCC_def)
  next
    case 3
    then have "0 < nHeight b" by simp
    then obtain q e where q: "pprev b = Some q" "st q = Some e" by (rule wf_prev_Some [OF wf p])
    let ?I = "nPowTargetTimespan params sdiv nPowTargetSpacing params"
    let ?g = "GetBlockTime b - GetBlockTime e"
    let ?a = "if ?g < 0 then 1 else ?g"
    let ?x = "mul_i64 (bnOfCompact (nBits b)) ((?I - 1) * nPowTargetSpacing params + ?a + ?a)"
    let ?d = "(?I + 1) * nPowTargetSpacing params"
    have I: "?I = nPowTargetTimespan params div nPowTargetSpacing params"
      using vp(1,3) by (simp add: sdiv_pos)
    have "?I * nPowTargetSpacing params \<le> nPowTargetTimespan params"
      unfolding I using div_mult_mod_eq [of "nPowTargetTimespan params" "nPowTargetSpacing params"]
        pos_mod_sign [OF vp(1), of "nPowTargetTimespan params"] by linarith
    moreover have "0 \<le> ?I" unfolding I using vp(1,3) by (simp add: pos_imp_zdiv_nonneg_iff)
    then have "0 \<le> ?I * nPowTargetSpacing params" using vp(1) by simp
    ultimately have "0 < ?d" "?d < 2 ^ 64" using vp(1,2,4) by (simp_all add: distrib_right add_nonneg_pos)
    then obtain r where r: "div_i64 ?x ?d = Some r" "wf_uint r"
      using div_i64_wf [of ?x ?d] by auto
    have len: "length r = length (pow_limit params)" using r(2) wf_pow_limit by (simp add: wf_uint_def)
    let ?t = "if CompareTo r (uint_of_u64 0) \<le> 0 \<or> CompareTo r (pow_limit params) > 0 then pow_limit params else r"
    have "wf_uint ?t" "uval ?t \<le> uval (pow_limit params)"
      using r(2) CompareTo_iff(2) [OF len] by auto
    then obtain n where n: "GetCompact ?t False = Some n" "in_range params n" by (rule GetCompact_in_range)
    show ?thesis
      by (rule that [OF _ n(2)]) (use 3 p q r(1) n(1) in \<open>simp add: GetNextWorkRequiredSCC_def Let_def\<close>)
  qed
qed

lemma GetNextWorkRequired_cases_in_range:
  assumes "wf_store st" and "st p = Some b" and "valid_params params"
    and "\<And>p b. st p = Some b \<Longrightarrow> in_range params (nBits b)" and "in_range params (nInitialPPDifficulty params)"
  shows "\<exists>n. GetNextWorkRequired horizon smin st p pblock params = Some n \<and> in_range params n"
proof -
  obtain n1 where n1: "GetNextWorkRequiredBTC st p pblock params = Some n1" "in_range params n1"
    by (rule GetNextWorkRequiredBTC_in_range [OF assms(1-4)])
  obtain n2 where n2: "KimotoGravityWell horizon smin st (Some p) params = Some n2" "in_range params n2"
    by (rule KimotoGravityWell_in_range [OF assms(1,2)])
  obtain n3 where n3: "GetNextWorkRequiredSCC st (Some p) params = Some n3" "in_range params n3"
    by (rule GetNextWorkRequiredSCC_in_range [OF assms(1-3) assms(4) [OF assms(2)]])
  obtain n4 where n4: "DarkGravityWave st (Some p) params = Some n4" "in_range params n4"
    by (rule DarkGravityWave_in_range [OF assms(1-3)])
  show ?thesis using n1 n2 n3 n4 assms(2,5) by (simp add: GetNextWorkRequired_def)
qed

subsection \<open>A concrete chain and the main network's parameters\<close>

definition main_params :: Params where
  "main_params =
     \<lparr>powLimit = ArithToUint256 ([0xffffffff, 0xffffffff, 0xffffffff, 0xffffffff, 0xffffffff, 0xffffffff, 0xffffffff, 0xfff]), fPowAllowMinDifficultyBlocks = False, fPowNoRetargeting = False,
      nPowTargetSpacing = 120, nPowTargetTimespan = 86400, nPowKGWHeight = 1, nPowDGWHeight = 2,
      nPPSwitchTime = 1666350000, nInitialPPDifficulty = 0x1b1774cd\<rparr>"

text \<open>A chain of blocks two minutes apart, all with the limit's code; \<open>gap\<close> shifts the last one.\<close>

definition line_block :: "int \<Rightarrow> nat \<Rightarrow> nat \<Rightarrow> CBlockIndex" where
  "line_block gap tip i =
     index_SetNull\<lparr>phashBlock := Some null256, pprev := (if i = 0 then None else Some (i - 1)), nHeight := int i,
       nTime := word_of_int (1700000000 + 120 * int i + (if i = tip then gap else 0)), nBits := 0x1e0fffff\<rparr>"

definition line_store :: "int \<Rightarrow> nat \<Rightarrow> block_store" where
  "line_store gap tip i = (if i \<le> tip then Some (line_block gap tip i) else None)"

lemma line_block_fields [simp]:
  "pprev (line_block gap tip i) = (if i = 0 then None else Some (i - 1))" "pskip (line_block gap tip i) = None"
  "nHeight (line_block gap tip i) = int i" "nBits (line_block gap tip i) = 0x1e0fffff"
  "phashBlock (line_block gap tip i) = Some null256"
  "nTime (line_block gap tip i) = word_of_int (1700000000 + 120 * int i + (if i = tip then gap else 0))"
  by (simp_all add: line_block_def index_SetNull_def)

lemma line_wf: "wf_store (line_store gap tip)"
  by (auto simp: wf_store_def wf_link_def wf_skip_def line_store_def split: if_splits)

lemma line_prev: "k \<le> i \<Longrightarrow> i \<le> tip \<Longrightarrow> prev_n (line_store gap tip) k i = Some (i - k)"
  by (induction k arbitrary: i) (auto simp: line_store_def)

lemma pow_limit_main: "pow_limit main_params = [0xffffffff, 0xffffffff, 0xffffffff, 0xffffffff, 0xffffffff, 0xffffffff, 0xffffffff, 0xfff]"
  by (simp add: pow_limit_def main_params_def UintToArith256_ArithToUint256 wf_uint_def WIDTH_def)

lemma uval_pow_limit_main: "uval (pow_limit main_params) = 2 ^ 236 - 1"
  by (simp add: pow_limit_main)

lemma limit_code: "SetCompact 0x1e0fffff = (bnOfCompact 0x1e0fffff, False, False)"
  and limit_code_value: "uval (bnOfCompact 0x1e0fffff) = 0x0fffff * 2 ^ 216"
proof -
  obtain b neg ovf where e: "SetCompact 0x1e0fffff = (b, neg, ovf)" by (cases "SetCompact 0x1e0fffff")
  have b: "b = bnOfCompact 0x1e0fffff" using e by (simp add: bnOfCompact_def)
  have "\<not> neg" "\<not> ovf" using SetCompact_flags [OF e] by simp_all
  then show "SetCompact 0x1e0fffff = (bnOfCompact 0x1e0fffff, False, False)" using e b by simp
  show "uval (bnOfCompact 0x1e0fffff) = 0x0fffff * 2 ^ 216" using SetCompact_value(2) [OF e] b by simp
qed

lemma line_in_range: "line_store gap tip p = Some b \<Longrightarrow> in_range main_params (nBits b)"
  using limit_code limit_code_value uval_pow_limit_main by (auto simp: line_store_def in_range_def split: if_splits)

lemma valid_main: "valid_params main_params"
  by (simp add: valid_params_def main_params_def)

lemma initial_in_range: "in_range main_params 0x1b1774cd"
proof -
  obtain b neg ovf where e: "SetCompact 0x1b1774cd = (b, neg, ovf)" by (cases "SetCompact 0x1b1774cd")
  have "\<not> neg" "\<not> ovf" using SetCompact_flags [OF e] by simp_all
  moreover have "uval b \<le> 2 ^ 236 - 1" using SetCompact_value(2) [OF e] by simp
  ultimately show ?thesis using e by (simp add: in_range_def uval_pow_limit_main)
qed

subsection \<open>What the difficulty rules guarantee\<close>

text \<open>C1: in a block tree whose codes are in range, \<open>GetNextWorkRequired\<close> returns for every
  entry, whichever rule is in force, without a failed assertion or a division by zero, and the code it
  returns decodes without sign or overflow to a target not above \<open>powLimit\<close>.\<close>

theorem next_work_in_range:
  assumes "wf_store st" and "st p = Some b" and "valid_params params"
    and "\<forall>q e. st q = Some e \<longrightarrow> in_range params (nBits e)" and "in_range params (nInitialPPDifficulty params)"
  shows "\<exists>n. GetNextWorkRequired horizon smin st p pblock params = Some n \<and> in_range params n"
  using assms by (intro GetNextWorkRequired_cases_in_range) auto

theorem next_work_in_range_witness:
  "\<exists>n. GetNextWorkRequired (\<lambda>_ _ _. False) 2160 (line_store 0 30) 30 header_SetNull main_params = Some n \<and>
     in_range main_params n"
proof -
  have "line_store 0 30 30 = Some (line_block 0 30 30)" by (simp add: line_store_def)
  moreover have "nInitialPPDifficulty main_params = 0x1b1774cd" by (simp add: main_params_def)
  ultimately show ?thesis
    using next_work_in_range [OF line_wf _ valid_main, where horizon = "\<lambda>_ _ _. False" and smin = 2160 and pblock = header_SetNull]
      line_in_range initial_in_range by (metis (no_types))
qed

text \<open>C13: \<open>CheckProofOfWork\<close> accepts exactly the hashes that, read as little-endian
  numbers, do not exceed a decoded target that is in range and not zero.\<close>

theorem CheckProofOfWork_iff:
  "CheckProofOfWork hash n params \<longleftrightarrow>
     in_range params n \<and> uval (bnOfCompact n) \<noteq> 0 \<and> uval (UintToArith256 hash) \<le> uval (bnOfCompact n)"
proof -
  obtain t neg ovf where e: "SetCompact n = (t, neg, ovf)" by (cases "SetCompact n")
  have t: "t = bnOfCompact n" "wf_uint t" using e SetCompact_value(1) [OF e] by (simp_all add: bnOfCompact_def)
  have "length t = length (pow_limit params)" "length (UintToArith256 hash) = length t"
    using t(2) wf_pow_limit [of params] wf_UintToArith256 [of hash] by (simp_all add: wf_uint_def)
  note c = CompareTo_iff(2) [OF this(1)] CompareTo_iff(2) [OF this(2)]
  show ?thesis
    using c EqualTo_value [OF t(2), of 0] t(1) e by (auto simp: CheckProofOfWork_def in_range_def not_less)
qed

lemma dgw_scale_bounds:
  fixes avg s L :: nat and t :: int
  assumes "0 < s" and "8 * int s \<le> t" and "t \<le> 72 * int s"
  shows "avg div 3 \<le> avg * nat t div (24 * s)" and "avg * nat t div (24 * s) \<le> 3 * avg"
proof -
  have "avg div 3 = avg * (8 * s) div (3 * (8 * s))" using assms(1) by simp
  also have "3 * (8 * s) = 24 * s" by simp
  also have "avg * (8 * s) div (24 * s) \<le> avg * nat t div (24 * s)"
    by (rule div_le_mono, rule mult_le_mono2) (use assms(2) in linarith)
  finally show "avg div 3 \<le> avg * nat t div (24 * s)" .
  have "avg * nat t div (24 * s) \<le> avg * (72 * s) div (24 * s)"
    by (rule div_le_mono, rule mult_le_mono2) (use assms(3) in linarith)
  also have "avg * (72 * s) = (3 * avg) * (24 * s)" by simp
  also have "(3 * avg) * (24 * s) div (24 * s) = 3 * avg" using assms(1) by simp
  finally show "avg * nat t div (24 * s) \<le> 3 * avg" .
qed

text \<open>C14: on a chain of at least 25 entries with codes in range and a limit that
  leaves room for the products, the 256-bit computation of \<open>DarkGravityWave\<close> does not wrap: its result is
  the code of the running average over 24 targets, scaled by the clamped time span and capped at the
  limit, and the new target is between a third and three times that average.\<close>

theorem DarkGravityWave_reference:
  assumes wf: "wf_store st" and p: "st p = Some b" and h: "24 \<le> nHeight b"
    and bits: "\<forall>q e. st q = Some e \<longrightarrow> in_range params (nBits e)"
    and spacing: "nPowTargetSpacing params = int s" "0 < s" "s < 2 ^ 20"
    and room: "uval (pow_limit params) < 2 ^ 250" "uval (pow_limit params) * (72 * s) < 2 ^ 256"
    and q: "prev_n st 23 p = Some q" "st q = Some e"
  defines "avg \<equiv> dgw_average 1 0 (past_targets st 24 p)"
    and "t \<equiv> clamp_timespan (8 * int s) (72 * int s) (GetBlockTime b - GetBlockTime e)"
  shows "\<exists>r. wf_uint r \<and> DarkGravityWave st (Some p) params = GetCompact r False \<and>
    uval r = min (uval (pow_limit params)) (avg * nat t div (24 * s)) \<and>
    min (uval (pow_limit params)) (avg div 3) \<le> uval r \<and> uval r \<le> 3 * avg"
proof -
  let ?L = "uval (pow_limit params)"
  have tgt: "uval (bnOfCompact (nBits e)) \<le> ?L" if "st x = Some e" for x e
    using bits that in_range_bnOfCompact by blast
  have "int 23 \<le> nHeight b" using h by simp
  from dgw_loop_value [OF wf room(1) tgt p this, where avg = uint_zero]
  have "\<exists>a q. dgw_loop st (Suc 23) (24 - 23) p uint_zero = Some (a, q) \<and> wf_uint a \<and> prev_n st 23 p = Some q \<and>
      uval a = dgw_average (24 - 23) (uval uint_zero) (past_targets st (Suc 23) p) \<and> uval a \<le> ?L" by simp
  moreover have "Suc 23 = nPastBlocks" "24 - 23 = (1::nat)" "Suc 23 = 24" by (simp_all add: nPastBlocks_def)
  ultimately obtain a where a: "dgw_loop st nPastBlocks 1 p uint_zero = Some (a, q)" "wf_uint a" "uval a = avg" "avg \<le> ?L"
    using q(1) unfolding avg_def by (metis option.inject uval_uint_zero)
  have T: "int nPastBlocks * nPowTargetSpacing params = int (24 * s)" by (simp add: nPastBlocks_def spacing(1))
  have T3: "int (24 * s) sdiv 3 = 8 * int s" "int (24 * s) * 3 = 72 * int s" by (simp_all add: sdiv_pos)
  have tb: "8 * int s \<le> t" "t \<le> 72 * int s" using clamp_timespan_bounds [of "8 * int s" "72 * int s"] by (simp_all add: t_def)
  have t32: "0 \<le> t" "t < 2 ^ 32" using tb spacing(3) by simp_all
  have "avg * nat t \<le> ?L * (72 * s)" by (rule mult_le_mono [OF a(4)]) (use tb(2) in linarith)
  also note room(2)
  finally have m: "uval (mul_i64 a t) = avg * nat t" using mul_i64_value [OF a(2) t32] a(3) by (simp only: mod_less)
  have "0 < int (24 * s)" "int (24 * s) < 2 ^ 64" using spacing(2,3) by simp_all
  from div_i64_value [OF wf_mul_i64 [OF a(2), of t] this] obtain d where
    d: "div_i64 (mul_i64 a t) (int (24 * s)) = Some d" "wf_uint d" "uval d = avg * nat t div (24 * s)"
    unfolding m nat_int by blast
  obtain r where r: "wf_uint r" "uval r = min ?L (uval d)" "cap_target d (pow_limit params) = GetCompact r False"
    by (rule cap_target_eq [OF d(2) wf_pow_limit])
  have "DarkGravityWave st (Some p) params = GetCompact r False"
    unfolding DarkGravityWave_def option.case p a(1) prod.case q(2) Let_def T T3 t_def [symmetric] d(1) r(3)
    using h by (simp add: nPastBlocks_def)
  moreover note r(2) [unfolded d(3)] dgw_scale_bounds [OF spacing(2) tb, of avg]
  ultimately show ?thesis using r(1) by (intro exI [of _ r]) auto
qed

theorem DarkGravityWave_reference_witness:
  "\<exists>r. wf_uint r \<and> DarkGravityWave (line_store 0 30) (Some 30) main_params = GetCompact r False \<and>
     uval r \<le> 3 * dgw_average 1 0 (past_targets (line_store 0 30) 24 30)"
proof -
  let ?st = "line_store 0 30"
  have "\<forall>q e. ?st q = Some e \<longrightarrow> in_range main_params (nBits e)" using line_in_range by blast
  moreover have "?st 30 = Some (line_block 0 30 30)" "?st 7 = Some (line_block 0 30 7)" by (simp_all add: line_store_def)
  moreover have "prev_n ?st 23 30 = Some 7" using line_prev [of 23 30 30 0] by simp
  moreover have "nPowTargetSpacing main_params = int 120" by (simp add: main_params_def)
  moreover have "(24::int) \<le> nHeight (line_block 0 30 30)" by simp
  moreover have "uval (pow_limit main_params) < 2 ^ 250" "uval (pow_limit main_params) * (72 * 120) < 2 ^ 256"
    by (simp_all add: uval_pow_limit_main)
  ultimately show ?thesis
    using DarkGravityWave_reference [OF line_wf, of 0 30 30 "line_block 0 30 30" main_params 120 7 "line_block 0 30 7"]
    by auto
qed

text \<open>After a gap of 481150 seconds at the easiest target, the unwrapped formula of
  \<open>GetNextWorkRequiredSCC\<close> is above the limit, but the 256-bit product wraps and the rule demands a target
  more than 20000 times smaller than before.\<close>

theorem SCC_retarget_wraps:
  "\<exists>n. GetNextWorkRequiredSCC (line_store 481030 30) (Some 30) main_params = Some n \<and>
     GetBlockTime (line_block 481030 30 30) - GetBlockTime (line_block 481030 30 29) = 481150 \<and>
     uval (bnOfCompact 0x1e0fffff) * (719 * 120 + 2 * 481150) div (721 * 120) > uval (pow_limit main_params) \<and>
     uval (bnOfCompact n) * 20000 < uval (bnOfCompact 0x1e0fffff)"
proof -
  let ?st = "line_store 481030 30" and ?b = "line_block 481030 30 30" and ?a = "line_block 481030 30 29"
  let ?t = "bnOfCompact 0x1e0fffff" and ?L = "pow_limit main_params"
  have st: "?st 30 = Some ?b" "?st 29 = Some ?a" by (simp_all add: line_store_def)
  have gap: "GetBlockTime ?b - GetBlockTime ?a = 481150" by (simp add: GetBlockTime_def)
  have m: "uval (mul_i64 ?t 1048580) = 0x2ffffc * 2 ^ 216"
    using mul_i64_value [of ?t 1048580] by (simp add: limit_code_value)
  obtain d where d: "div_i64 (mul_i64 ?t 1048580) 86520 = Some d" "wf_uint d" "uval d = 0x2ffffc * 2 ^ 216 div 86520"
    using div_i64_value [of "mul_i64 ?t 1048580" 86520] unfolding m by auto
  have len: "length d = length (uint_of_u64 0)" "length d = length ?L"
    using d(2) wf_pow_limit [of main_params] wf_uint_simps(2) [of 0] by (simp_all only: wf_uint_def)
  have z: "uval (uint_of_u64 0) = 0" by (simp add: uval_uint_of_u64)
  have c: "\<not> (CompareTo d (uint_of_u64 0) \<le> 0 \<or> CompareTo d ?L > 0)"
    unfolding CompareTo_iff(3) [OF len(1)] CompareTo_iff(2) [OF len(2)] d(3) z uval_pow_limit_main by simp
  obtain n u where n: "GetCompact d False = Some n" "SetCompact n = (u, False, False)" "uval u \<le> uval d"
    using compact.enc_le [OF d(2) order_refl] by blast
  have fields: "fPowNoRetargeting main_params = False" "nPowTargetSpacing main_params = 120"
    "nPowTargetTimespan main_params = 86400" by (simp_all add: main_params_def)
  have arith: "(86400::int) sdiv 120 = 720" by (simp add: sdiv_pos)
  have "GetNextWorkRequiredSCC ?st (Some 30) main_params = Some n"
    using gap c d(1) n(1) by (simp add: GetNextWorkRequiredSCC_def st fields arith Let_def)
  moreover have "uval (bnOfCompact n) * 20000 < uval ?t"
    using n(2,3) d(3) by (simp add: bnOfCompact_def limit_code_value [unfolded bnOfCompact_def])
  ultimately show ?thesis using gap by (simp add: limit_code_value uval_pow_limit_main)
qed

end
