(* ===== verification/Versionbits.thy ===== *)
theory Versionbits
  imports Pow "HOL-Library.Monad_Syntax"
begin

section \<open>Deployment of soft forks by version bits (versionbits.h, versionbits.cpp)\<close>

text \<open>
  Each deployment moves through the states of BIP 9, one step per period of blocks. The code computes the state of a period lazily: it walks
  back in steps of a period to one whose state it has in its cache, then forward again. The virtual methods of a
  checker are a record of functions. \<open>None\<close> is a failed assertion or a null pointer that is read. The walks
  carry fuel, the height of their start plus two, which the lemmas show to be enough.
\<close>

unbundle bit_operations_syntax

datatype ThresholdState = DEFINED | STARTED | LOCKED_IN | ACTIVE | FAILED

record BIP9Deployment =
  dep_bit :: nat
  nStartTime :: int
  nTimeout :: int
  nWindowSize :: int
  nThresholdStart :: int
  nThresholdMin :: int
  nFalloffCoeff :: int

record DeploymentParams =
  nRuleChangeActivationThreshold :: int
  nMinerConfirmationWindow :: int
  vDeployments :: "BIP9Deployment list"

record threshold_checker =
  Condition :: "CBlockIndex \<Rightarrow> bool"
  BeginTime :: int
  EndTime :: int
  Period :: int
  Threshold :: "int \<Rightarrow> int"
  MinActivationHeight :: int

type_synonym ThresholdConditionCache = "bptr option \<Rightarrow> ThresholdState option"

definition INT_MAX :: int where
  "INT_MAX = 2147483647"

subsection \<open>The state of a period\<close>

fun start_height_loop :: "nat \<Rightarrow> block_store \<Rightarrow> int \<Rightarrow> ThresholdConditionCache \<Rightarrow> bptr option \<Rightarrow> ThresholdState \<Rightarrow> int \<Rightarrow> int option" where
  "start_height_loop 0 st nPeriod cache pindexPrev state nStartHeight = None"
| "start_height_loop (Suc fuel) st nPeriod cache pindexPrev state nStartHeight =
     (if state \<noteq> STARTED then Some nStartHeight
      else do { p \<leftarrow> pindexPrev;
                b \<leftarrow> st p;
                let nStartHeight = min (nHeight b + 1) nStartHeight;
                pindexPrev \<leftarrow> GetAncestor st p (nHeight b - nPeriod);
                state \<leftarrow> cache pindexPrev;
                start_height_loop fuel st nPeriod cache pindexPrev state nStartHeight })"

definition walk_fuel :: "block_store \<Rightarrow> bptr option \<Rightarrow> nat" where
  "walk_fuel st p = (case Option.bind p st of None \<Rightarrow> 2 | Some b \<Rightarrow> nat (nHeight b) + 2)"

definition calculateStartHeight :: "block_store \<Rightarrow> bptr option \<Rightarrow> ThresholdState \<Rightarrow> int \<Rightarrow> ThresholdConditionCache \<Rightarrow> int option" where
  "calculateStartHeight st pindexPrev state nPeriod cache =
     start_height_loop (walk_fuel st pindexPrev) st nPeriod cache pindexPrev state INT_MAX"

text \<open>The first block of the walk: the parent of the period that \<open>pindexPrev\<close>'s child is in.\<close>

definition period_parent :: "block_store \<Rightarrow> int \<Rightarrow> bptr option \<Rightarrow> bptr option option" where
  "period_parent st nPeriod pindexPrev =
     (case pindexPrev of
        None \<Rightarrow> Some None
      | Some p \<Rightarrow> do { b \<leftarrow> st p; GetAncestor st p (nHeight b - (nHeight b + 1) mod nPeriod) })"

text \<open>The walk backwards. \<open>vToCompute\<close> is a stack, its back at the head.\<close>

fun walk_back :: "nat \<Rightarrow> block_store \<Rightarrow> threshold_checker \<Rightarrow> ThresholdConditionCache \<Rightarrow> bptr option \<Rightarrow> bptr list \<Rightarrow>
    (ThresholdConditionCache \<times> bptr option \<times> bptr list) option" where
  "walk_back 0 st ck cache pindexPrev vToCompute = None"
| "walk_back (Suc fuel) st ck cache pindexPrev vToCompute =
     (if cache pindexPrev \<noteq> None then Some (cache, pindexPrev, vToCompute)
      else case pindexPrev of
        None \<Rightarrow> Some (cache(pindexPrev \<mapsto> DEFINED), pindexPrev, vToCompute)
      | Some p \<Rightarrow>
          do { t \<leftarrow> GetMedianTimePast st p;
               if t < BeginTime ck then Some (cache(pindexPrev \<mapsto> DEFINED), pindexPrev, vToCompute)
               else do { b \<leftarrow> st p;
                         pindexPrev \<leftarrow> GetAncestor st p (nHeight b - Period ck);
                         walk_back fuel st ck cache pindexPrev (p # vToCompute) } })"

text \<open>The loop that counts the blocks of a period that signal, left as soon as there are enough.\<close>

fun count_loop :: "block_store \<Rightarrow> threshold_checker \<Rightarrow> int \<Rightarrow> nat \<Rightarrow> int \<Rightarrow> bptr option \<Rightarrow> int option" where
  "count_loop st ck nThreshold 0 count pindexCount = Some count"
| "count_loop st ck nThreshold (Suc n) count pindexCount =
     do { p \<leftarrow> pindexCount;
          b \<leftarrow> st p;
          let count = (if Condition ck b then count + 1 else count);
          if count \<ge> nThreshold then Some count else count_loop st ck nThreshold n count (pprev b) }"

text \<open>One round of the walk forward: the next state and start height.\<close>

definition next_state :: "block_store \<Rightarrow> threshold_checker \<Rightarrow> ThresholdState \<Rightarrow> int \<Rightarrow> bptr \<Rightarrow> (ThresholdState \<times> int) option" where
  "next_state st ck state nStartHeight p =
     do { b \<leftarrow> st p;
          t \<leftarrow> GetMedianTimePast st p;
          (case state of
             DEFINED \<Rightarrow>
               Some (if t \<ge> EndTime ck then (FAILED, nStartHeight)
                     else if t \<ge> BeginTime ck then (STARTED, nHeight b + 1) else (DEFINED, nStartHeight))
           | STARTED \<Rightarrow>
               if t \<ge> EndTime ck then Some (FAILED, nStartHeight)
               else do { let nAttempt = (nHeight b + 1 - nStartHeight) sdiv Period ck;
                         let nThreshold = Threshold ck nAttempt;
                         count \<leftarrow> count_loop st ck nThreshold (nat (Period ck)) 0 (Some p);
                         if \<not> (nStartHeight > 0 \<and> nStartHeight < INT_MAX) then None
                         else Some (if count \<ge> nThreshold then (LOCKED_IN, nStartHeight)
                                    else if t \<ge> EndTime ck then (FAILED, nStartHeight) else (STARTED, nStartHeight)) }
           | LOCKED_IN \<Rightarrow> Some (if nHeight b + 1 \<ge> MinActivationHeight ck then ACTIVE else LOCKED_IN, nStartHeight)
           | FAILED \<Rightarrow> Some (FAILED, nStartHeight)
           | ACTIVE \<Rightarrow> Some (ACTIVE, nStartHeight)) }"

fun walk_forward :: "block_store \<Rightarrow> threshold_checker \<Rightarrow> ThresholdConditionCache \<Rightarrow> ThresholdState \<Rightarrow> int \<Rightarrow> bptr list \<Rightarrow>
    (ThresholdState \<times> ThresholdConditionCache) option" where
  "walk_forward st ck cache state nStartHeight [] = Some (state, cache)"
| "walk_forward st ck cache state nStartHeight (p # vToCompute) =
     do { (state, nStartHeight) \<leftarrow> next_state st ck state nStartHeight p;
          walk_forward st ck (cache(Some p \<mapsto> state)) state nStartHeight vToCompute }"

definition GetStateFor :: "block_store \<Rightarrow> threshold_checker \<Rightarrow> ThresholdConditionCache \<Rightarrow> bptr option \<Rightarrow>
    (ThresholdState \<times> ThresholdConditionCache) option" where
  "GetStateFor st ck cache pindexPrev =
     do { pindexPrev \<leftarrow> period_parent st (Period ck) pindexPrev;
          (cache, pindexPrev, vToCompute) \<leftarrow> walk_back (walk_fuel st pindexPrev) st ck cache pindexPrev [];
          state \<leftarrow> cache pindexPrev;
          nStartHeight \<leftarrow> calculateStartHeight st pindexPrev state (Period ck) cache;
          walk_forward st ck cache state nStartHeight vToCompute }"

subsection \<open>Since when, and statistics\<close>

fun since_loop :: "nat \<Rightarrow> block_store \<Rightarrow> threshold_checker \<Rightarrow> ThresholdState \<Rightarrow> ThresholdConditionCache \<Rightarrow> bptr \<Rightarrow> bptr option \<Rightarrow>
    (int \<times> ThresholdConditionCache) option" where
  "since_loop 0 st ck initialState cache p previousPeriodParent = None"
| "since_loop (Suc fuel) st ck initialState cache p previousPeriodParent =
     do { b \<leftarrow> st p;
          (case previousPeriodParent of
             None \<Rightarrow> Some (nHeight b + 1, cache)
           | Some q \<Rightarrow>
               do { (state, cache) \<leftarrow> GetStateFor st ck cache (Some q);
                    if state \<noteq> initialState then Some (nHeight b + 1, cache)
                    else do { c \<leftarrow> st q;
                              previousPeriodParent \<leftarrow> GetAncestor st q (nHeight c - Period ck);
                              since_loop fuel st ck initialState cache q previousPeriodParent } }) }"

definition GetStateSinceHeightFor :: "block_store \<Rightarrow> threshold_checker \<Rightarrow> ThresholdConditionCache \<Rightarrow> bptr option \<Rightarrow>
    (int \<times> ThresholdConditionCache) option" where
  "GetStateSinceHeightFor st ck cache pindexPrev =
     do { (initialState, cache) \<leftarrow> GetStateFor st ck cache pindexPrev;
          if initialState = DEFINED then Some (0, cache)
          else do { p \<leftarrow> pindexPrev;
                    pindexPrev \<leftarrow> period_parent st (Period ck) (Some p);
                    p \<leftarrow> pindexPrev;
                    b \<leftarrow> st p;
                    previousPeriodParent \<leftarrow> GetAncestor st p (nHeight b - Period ck);
                    since_loop (walk_fuel st (Some p)) st ck initialState cache p previousPeriodParent } }"

record BIP9Stats =
  stat_period :: int
  stat_threshold :: int
  stat_elapsed :: int
  stat_count :: int
  stat_possible :: bool

fun stat_count_loop :: "nat \<Rightarrow> block_store \<Rightarrow> threshold_checker \<Rightarrow> int \<Rightarrow> int \<Rightarrow> bptr option \<Rightarrow> int option" where
  "stat_count_loop 0 st ck endHeight count currentIndex = None"
| "stat_count_loop (Suc fuel) st ck endHeight count currentIndex =
     do { p \<leftarrow> currentIndex;
          b \<leftarrow> st p;
          if endHeight = nHeight b then Some count
          else stat_count_loop fuel st ck endHeight (if Condition ck b then count + 1 else count) (pprev b) }"

definition GetStateStatisticsFor :: "block_store \<Rightarrow> threshold_checker \<Rightarrow> ThresholdConditionCache \<Rightarrow> bptr option \<Rightarrow>
    (BIP9Stats \<times> ThresholdConditionCache) option" where
  "GetStateStatisticsFor st ck cache pindex =
     (case pindex of
        None \<Rightarrow> Some (\<lparr>stat_period = Period ck, stat_threshold = Threshold ck 0, stat_elapsed = 0, stat_count = 0, stat_possible = False\<rparr>, cache)
      | Some p \<Rightarrow>
          do { b \<leftarrow> st p;
               pindexEndOfPrevPeriod \<leftarrow> period_parent st (Period ck) (Some p);
               e \<leftarrow> pindexEndOfPrevPeriod;
               eb \<leftarrow> st e;
               (state, cache) \<leftarrow> GetStateFor st ck cache (Some e);
               (nAttempt, cache) \<leftarrow>
                 (if state = STARTED
                  then map_option (\<lambda>(nStartHeight, cache). ((nHeight eb + 1 - nStartHeight) sdiv Period ck, cache))
                         (GetStateSinceHeightFor st ck cache (Some e))
                  else Some (0, cache));
               let threshold = Threshold ck nAttempt;
               count \<leftarrow> stat_count_loop (walk_fuel st (Some p)) st ck (nHeight eb) 0 (Some p);
               let elapsed = nHeight b - nHeight eb;
               Some (\<lparr>stat_period = Period ck, stat_threshold = threshold, stat_elapsed = elapsed, stat_count = count,
                      stat_possible = (Period ck - threshold \<ge> elapsed - count)\<rparr>, cache) })"

subsection \<open>Checkers for the deployments of the parameters\<close>

definition VERSIONBITS_TOP_BITS :: u32 where "VERSIONBITS_TOP_BITS = 0x20000000"
definition VERSIONBITS_TOP_MASK :: u32 where "VERSIONBITS_TOP_MASK = 0xE0000000"

definition vb_Mask :: "BIP9Deployment \<Rightarrow> u32" where
  "vb_Mask d = push_bit (dep_bit d) 1"

definition vb_Condition :: "BIP9Deployment \<Rightarrow> CBlockIndex \<Rightarrow> bool" where
  "vb_Condition d b \<longleftrightarrow>
     (let v = word_of_int (nVersion b) :: u32
      in v AND VERSIONBITS_TOP_MASK = VERSIONBITS_TOP_BITS \<and> v AND vb_Mask d \<noteq> 0)"

text \<open>Values of type \<open>int\<close>: what does not fit wraps around, as two's complement has it where the language leaves an overflow undefined.\<close>

definition int32 :: "int \<Rightarrow> int" where
  "int32 x = sint (word_of_int x :: u32)"

definition vb_Period :: "DeploymentParams \<Rightarrow> BIP9Deployment \<Rightarrow> int" where
  "vb_Period params d = int32 (if nWindowSize d \<noteq> 0 then nWindowSize d else nMinerConfirmationWindow params)"

definition vb_Threshold :: "DeploymentParams \<Rightarrow> BIP9Deployment \<Rightarrow> int \<Rightarrow> int" where
  "vb_Threshold params d nAttempt =
     int32 (if nThresholdStart d = 0 then nRuleChangeActivationThreshold params
       else if nThresholdMin d = 0 \<or> nFalloffCoeff d = 0 then nThresholdStart d
       else let nThresholdCalc = nThresholdStart d - (int32 (nAttempt * nAttempt * vb_Period params d) sdiv 100) sdiv nFalloffCoeff d
        in max (nThresholdMin d) nThresholdCalc)"

definition VersionBitsConditionChecker :: "DeploymentParams \<Rightarrow> nat \<Rightarrow> threshold_checker" where
  "VersionBitsConditionChecker params pos =
     (let d = vDeployments params ! pos
      in \<lparr>Condition = vb_Condition d, BeginTime = nStartTime d, EndTime = nTimeout d, Period = vb_Period params d,
          Threshold = vb_Threshold params d, MinActivationHeight = 0\<rparr>)"

type_synonym VersionBitsCache = "nat \<Rightarrow> ThresholdConditionCache"

definition VersionBitsState :: "block_store \<Rightarrow> DeploymentParams \<Rightarrow> bptr option \<Rightarrow> nat \<Rightarrow> VersionBitsCache \<Rightarrow>
    (ThresholdState \<times> VersionBitsCache) option" where
  "VersionBitsState st params pindexPrev pos caches =
     map_option (\<lambda>(s, c). (s, caches(pos := c)))
       (GetStateFor st (VersionBitsConditionChecker params pos) (caches pos) pindexPrev)"

definition VersionBitsStatistics :: "block_store \<Rightarrow> DeploymentParams \<Rightarrow> bptr option \<Rightarrow> nat \<Rightarrow> VersionBitsCache \<Rightarrow>
    (BIP9Stats \<times> VersionBitsCache) option" where
  "VersionBitsStatistics st params pindexPrev pos caches =
     map_option (\<lambda>(s, c). (s, caches(pos := c)))
       (GetStateStatisticsFor st (VersionBitsConditionChecker params pos) (caches pos) pindexPrev)"

definition VersionBitsStateSinceHeight :: "block_store \<Rightarrow> DeploymentParams \<Rightarrow> bptr option \<Rightarrow> nat \<Rightarrow> VersionBitsCache \<Rightarrow>
    (int \<times> VersionBitsCache) option" where
  "VersionBitsStateSinceHeight st params pindexPrev pos caches =
     map_option (\<lambda>(h, c). (h, caches(pos := c)))
       (GetStateSinceHeightFor st (VersionBitsConditionChecker params pos) (caches pos) pindexPrev)"

definition VersionBitsMask :: "DeploymentParams \<Rightarrow> nat \<Rightarrow> u32" where
  "VersionBitsMask params pos = vb_Mask (vDeployments params ! pos)"

definition VersionBitsCache_Clear :: "nat \<Rightarrow> VersionBitsCache \<Rightarrow> VersionBitsCache" where
  "VersionBitsCache_Clear MAX_VERSION_BITS_DEPLOYMENTS caches = (\<lambda>d. if d < MAX_VERSION_BITS_DEPLOYMENTS then Map.empty else caches d)"

fun consistency_loop :: "block_store \<Rightarrow> nat \<Rightarrow> bool \<Rightarrow> nat \<Rightarrow> bptr option \<Rightarrow> bool option" where
  "consistency_loop st k tip_signal 0 walk = Some True"
| "consistency_loop st k tip_signal (Suc n) None = Some True"
| "consistency_loop st k tip_signal (Suc n) (Some p) =
     do { b \<leftarrow> st p;
          if bit (word_of_int (nVersion b) :: u32) k \<noteq> tip_signal then Some False
          else consistency_loop st k tip_signal n (pprev b) }"

definition CheckRecentVersionBitsConsistency :: "block_store \<Rightarrow> DeploymentParams \<Rightarrow> bptr option \<Rightarrow> int \<Rightarrow> nat \<Rightarrow> bool option" where
  "CheckRecentVersionBitsConsistency st params pindexTip lookback bitpos =
     (case pindexTip of
        None \<Rightarrow> Some True
      | Some p \<Rightarrow>
          do { b \<leftarrow> st p;
               let k = dep_bit (vDeployments params ! bitpos);
               consistency_loop st k (bit (word_of_int (nVersion b) :: u32) k) (nat lookback) (Some p) })"

text \<open>The version of a new block, and the checker that looks for bits this node does not know.\<close>

fun version_loop :: "block_store \<Rightarrow> DeploymentParams \<Rightarrow> bptr option \<Rightarrow> nat list \<Rightarrow> VersionBitsCache \<Rightarrow> u32 \<Rightarrow> (u32 \<times> VersionBitsCache) option" where
  "version_loop st params pindexPrev [] caches v = Some (v, caches)"
| "version_loop st params pindexPrev (i # is) caches v =
     do { (state, caches) \<leftarrow> VersionBitsState st params pindexPrev i caches;
          version_loop st params pindexPrev is caches
            (if state = LOCKED_IN \<or> state = STARTED then v OR VersionBitsMask params i else v) }"

definition ComputeBlockVersion :: "block_store \<Rightarrow> DeploymentParams \<Rightarrow> bptr option \<Rightarrow> VersionBitsCache \<Rightarrow> (u32 \<times> VersionBitsCache) option" where
  "ComputeBlockVersion st params pindexPrev caches =
     version_loop st params pindexPrev [0..<length (vDeployments params)] caches VERSIONBITS_TOP_BITS"

subsection \<open>The deployments of the main network\<close>

definition NO_TIMEOUT :: int where
  "NO_TIMEOUT = 9223372036854775807"

definition ALWAYS_ACTIVE :: int where
  "ALWAYS_ACTIVE = - 1"

definition DEPLOYMENT_CSV :: nat where
  "DEPLOYMENT_CSV = 1"

definition main_deployments :: DeploymentParams where
  "main_deployments = \<lparr>nRuleChangeActivationThreshold = 1512, nMinerConfirmationWindow = 2016,
     vDeployments =
      [\<lparr>dep_bit = 28, nStartTime = 1199145601, nTimeout = 1230811200, nWindowSize = 0, nThresholdStart = 0, nThresholdMin = 0, nFalloffCoeff = 0\<rparr>,
       \<lparr>dep_bit = 0, nStartTime = 1486252800, nTimeout = 1517788800, nWindowSize = 0, nThresholdStart = 0, nThresholdMin = 0, nFalloffCoeff = 0\<rparr>,
       \<lparr>dep_bit = 1, nStartTime = 1508025600, nTimeout = 1539561600, nWindowSize = 100, nThresholdStart = 50, nThresholdMin = 0, nFalloffCoeff = 0\<rparr>,
       \<lparr>dep_bit = 2, nStartTime = 1524477600, nTimeout = 1556013600, nWindowSize = 100, nThresholdStart = 50, nThresholdMin = 0, nFalloffCoeff = 0\<rparr>,
       \<lparr>dep_bit = 3, nStartTime = ALWAYS_ACTIVE, nTimeout = NO_TIMEOUT, nWindowSize = 100, nThresholdStart = 50, nThresholdMin = 0, nFalloffCoeff = 0\<rparr>,
       \<lparr>dep_bit = 4, nStartTime = ALWAYS_ACTIVE, nTimeout = NO_TIMEOUT, nWindowSize = 100, nThresholdStart = 50, nThresholdMin = 0, nFalloffCoeff = 0\<rparr>,
       \<lparr>dep_bit = 6, nStartTime = 1625097600, nTimeout = 1656633600, nWindowSize = 4032, nThresholdStart = 3226, nThresholdMin = 2420, nFalloffCoeff = 5\<rparr>,
       \<lparr>dep_bit = 7, nStartTime = 1635724800, nTimeout = NO_TIMEOUT, nWindowSize = 100, nThresholdStart = 80, nThresholdMin = 60, nFalloffCoeff = 5\<rparr>]\<rparr>"

definition main_genesis_time :: int where
  "main_genesis_time = 1601898626"

subsection \<open>The states of BIP 9\<close>

text \<open>
  The reference: the state after each period, computed from the genesis block on without a cache. \<open>parent_of\<close> is the last block of the period
  before; \<open>signals\<close> counts the blocks of the period that ends in a block.
\<close>

definition parent_of :: "block_store \<Rightarrow> threshold_checker \<Rightarrow> bptr \<Rightarrow> bptr option" where
  "parent_of st ck q = (case st q of None \<Rightarrow> None | Some b \<Rightarrow> ancestor_at st q (nHeight b - Period ck))"

fun signals :: "block_store \<Rightarrow> threshold_checker \<Rightarrow> nat \<Rightarrow> bptr option \<Rightarrow> nat" where
  "signals st ck 0 p = 0"
| "signals st ck (Suc n) p =
     (case Option.bind p st of None \<Rightarrow> 0 | Some b \<Rightarrow> (if Condition ck b then 1 else 0) + signals st ck n (pprev b))"

definition bip9_step :: "block_store \<Rightarrow> threshold_checker \<Rightarrow> bptr \<Rightarrow> ThresholdState \<times> int \<Rightarrow> ThresholdState \<times> int" where
  "bip9_step st ck q s =
     (let t = the (GetMedianTimePast st q); h = nHeight (the (st q)) + 1
      in case s of
        (DEFINED, start) \<Rightarrow> if EndTime ck \<le> t then (FAILED, start) else if BeginTime ck \<le> t then (STARTED, h) else (DEFINED, start)
      | (STARTED, start) \<Rightarrow>
          if EndTime ck \<le> t then (FAILED, start)
          else if Threshold ck ((h - start) div Period ck) \<le> int (signals st ck (nat (Period ck)) (Some q)) then (LOCKED_IN, start)
          else (STARTED, start)
      | (LOCKED_IN, start) \<Rightarrow> if MinActivationHeight ck \<le> h then (ACTIVE, start) else (LOCKED_IN, start)
      | (ACTIVE, start) \<Rightarrow> (ACTIVE, start)
      | (FAILED, start) \<Rightarrow> (FAILED, start))"

fun bip9_at :: "block_store \<Rightarrow> threshold_checker \<Rightarrow> nat \<Rightarrow> bptr option \<Rightarrow> ThresholdState \<times> int" where
  "bip9_at st ck (Suc k) (Some q) = bip9_step st ck q (bip9_at st ck k (parent_of st ck q))"
| "bip9_at st ck k p = (DEFINED, INT_MAX)"

definition periods :: "block_store \<Rightarrow> threshold_checker \<Rightarrow> bptr option \<Rightarrow> nat" where
  "periods st ck p = (case Option.bind p st of None \<Rightarrow> 0 | Some b \<Rightarrow> nat ((nHeight b + 1) div Period ck))"

definition boundary :: "block_store \<Rightarrow> threshold_checker \<Rightarrow> bptr option \<Rightarrow> bool" where
  "boundary st ck p \<longleftrightarrow> (case p of None \<Rightarrow> True | Some q \<Rightarrow> (case st q of None \<Rightarrow> False | Some b \<Rightarrow> (nHeight b + 1) mod Period ck = 0))"

definition bip9_state :: "block_store \<Rightarrow> threshold_checker \<Rightarrow> bptr option \<Rightarrow> ThresholdState \<times> int" where
  "bip9_state st ck p = bip9_at st ck (periods st ck p) p"

text \<open>The state for a block whose predecessor is \<open>p\<close>.\<close>

definition deployment_state :: "block_store \<Rightarrow> threshold_checker \<Rightarrow> bptr option \<Rightarrow> ThresholdState" where
  "deployment_state st ck p = fst (bip9_state st ck (the (period_parent st (Period ck) p)))"

text \<open>Block times rise over the median before them, as the header check demands; the heights fit the type.\<close>

definition timely :: "block_store \<Rightarrow> bool" where
  "timely st \<longleftrightarrow> (\<forall>p b q m. st p = Some b \<longrightarrow> pprev b = Some q \<longrightarrow> GetMedianTimePast st q = Some m \<longrightarrow> m < GetBlockTime b)"

definition vb_tree :: "block_store \<Rightarrow> threshold_checker \<Rightarrow> bool" where
  "vb_tree st ck \<longleftrightarrow> wf_store st \<and> timely st \<and> 0 < Period ck \<and> BeginTime ck \<le> EndTime ck \<and>
     (\<forall>p b. st p = Some b \<longrightarrow> nHeight b + 1 < INT_MAX)"

lemma GetAncestor_ancestor_at:
  assumes "wf_store st" "st p = Some b" "h \<le> nHeight b"
  shows "GetAncestor st p h = Some (ancestor_at st p h)"
  using GetAncestor_value [OF assms(1,2), of h] assms by (auto simp: ancestor_at_def)

lemma ancestor_at_Some:
  assumes "wf_store st" "st p = Some b" "ancestor_at st p h = Some q"
  shows "0 \<le> h" "\<exists>c. st q = Some c \<and> nHeight c = h"
proof -
  have h: "0 \<le> h" "h \<le> nHeight b" "prev_n st (nat (nHeight b - h)) p = Some q"
    using assms(2,3) by (auto simp: ancestor_at_def split: if_splits)
  then show "0 \<le> h" "\<exists>c. st q = Some c \<and> nHeight c = h"
    using prev_n_height(2) [OF assms(1,2) h(3)] by auto
qed

lemma boundary_parent:
  assumes "vb_tree st ck" "boundary st ck (Some q)"
  obtains b where "st q = Some b" "GetAncestor st q (nHeight b - Period ck) = Some (parent_of st ck q)"
    "boundary st ck (parent_of st ck q)" "periods st ck (Some q) = Suc (periods st ck (parent_of st ck q))"
    "\<And>a c. parent_of st ck q = Some a \<Longrightarrow> st a = Some c \<Longrightarrow> nHeight c = nHeight b - Period ck"
proof -
  have wf: "wf_store st" and P: "0 < Period ck"
    using assms(1) by (simp_all add: vb_tree_def)
  obtain b where b: "st q = Some b" "(nHeight b + 1) mod Period ck = 0"
    using assms(2) by (auto simp: boundary_def split: option.splits)
  have h: "0 \<le> nHeight b"
    using wf_storeD(3) [OF wf b(1)] .
  have ge: "Period ck \<le> nHeight b + 1"
    using b(2) P h zmod_le_nonneg_dividend [of "nHeight b + 1" "Period ck"] by (metis dvd_imp_le_int mod_0_imp_dvd abs_of_nonneg abs_of_pos add_nonneg_eq_0_iff zero_neq_one zero_le_one add_nonneg_nonneg)
  have div: "(nHeight b - Period ck + 1) div Period ck = (nHeight b + 1) div Period ck - 1"
    using div_add_self2 [of "Period ck" "nHeight b - Period ck + 1"] P by (simp add: algebra_simps)
  have mod: "(nHeight b - Period ck + 1) mod Period ck = 0"
    using b(2) by (metis add.commute add_diff_eq minus_mod_self2)
  have pos: "0 < (nHeight b + 1) div Period ck"
    using ge P by (simp add: pos_imp_zdiv_pos_iff)
  have a: "GetAncestor st q (nHeight b - Period ck) = Some (parent_of st ck q)"
    using GetAncestor_ancestor_at [OF wf b(1), of "nHeight b - Period ck"] P b(1) by (simp add: parent_of_def)
  show thesis
  proof (cases "parent_of st ck q")
    case None
    then have "\<not> 0 \<le> nHeight b - Period ck"
      using ancestor_at_ex [OF wf b(1), of "nHeight b - Period ck"] P b(1) by (auto simp: parent_of_def)
    then have "nHeight b + 1 = Period ck"
      using ge by linarith
    then show thesis
      using that [OF b(1) a] None b(1) P by (simp add: boundary_def periods_def)
  next
    case (Some p)
    then obtain c where c: "st p = Some c" "nHeight c = nHeight b - Period ck"
      using ancestor_at_Some(2) [OF wf b(1)] b(1) by (auto simp: parent_of_def)
    show thesis
    proof (rule that [OF b(1) a])
      show "boundary st ck (parent_of st ck q)" "periods st ck (Some q) = Suc (periods st ck (parent_of st ck q))"
        using Some b(1) c mod div pos by (auto simp: boundary_def periods_def)
    qed (use Some c in auto)
  qed
qed

lemma bip9_state_step:
  assumes "vb_tree st ck" "boundary st ck (Some q)"
  shows "bip9_state st ck (Some q) = bip9_step st ck q (bip9_state st ck (parent_of st ck q))"
  using boundary_parent [OF assms] by (metis bip9_at.simps(1) bip9_state_def)

lemma bip9_state_None [simp]: "bip9_state st ck None = (DEFINED, INT_MAX)"
  by (simp add: bip9_state_def)

subsection \<open>The code computes them\<close>

lemma count_loop_spec:
  assumes "wf_store st"
  shows "(case p of None \<Rightarrow> n = 0 | Some q \<Rightarrow> \<exists>b. st q = Some b \<and> int n \<le> nHeight b + 1) \<Longrightarrow>
    \<exists>r. count_loop st ck thr n c p = Some r \<and> (n \<noteq> 0 \<or> c < thr \<longrightarrow> (thr \<le> r \<longleftrightarrow> thr \<le> c + int (signals st ck n p)))"
proof (induction n arbitrary: c p)
  case 0
  then show ?case
    by (cases p) auto
next
  case (Suc n)
  then obtain q b where q: "p = Some q" "st q = Some b" "int n \<le> nHeight b"
    by (cases p) auto
  let ?c = "if Condition ck b then c + 1 else c"
  show ?case
  proof (cases "thr \<le> ?c")
    case True
    then show ?thesis
      using q(1,2) by (auto split: if_splits)
  next
    case False
    have "case pprev b of None \<Rightarrow> n = 0 | Some q \<Rightarrow> \<exists>b. st q = Some b \<and> int n \<le> nHeight b + 1"
      using wf_storeD(1) [OF assms q(2)] q(3) by (auto simp: wf_link_def split: option.splits)
    from Suc.IH [OF this, of ?c] show ?thesis
      using False q(1,2) by (auto simp: not_le split: if_splits)
  qed
qed

lemma median_ancestor:
  assumes "wf_store st" "timely st"
  shows "st p = Some b \<Longrightarrow> prev_n st n p = Some q \<Longrightarrow> GetMedianTimePast st q = Some m \<Longrightarrow>
    \<exists>m'. GetMedianTimePast st p = Some m' \<and> m \<le> m'"
proof (induction n arbitrary: p b)
  case (Suc n)
  obtain r where r: "pprev b = Some r" "prev_n st n r = Some q"
    using Suc.prems(1,2) by (auto split: option.splits)
  obtain c where "st r = Some c"
    by (rule wf_prevD [OF assms(1) Suc.prems(1) r(1)])
  from Suc.IH [OF this r(2) Suc.prems(3)] obtain m1 where m1: "GetMedianTimePast st r = Some m1" "m \<le> m1"
    by blast
  have "m1 < GetBlockTime b"
    using assms(2) Suc.prems(1) r(1) m1(1) unfolding timely_def by blast
  then show ?case
    using median_mono [OF assms(1) Suc.prems(1) r(1) m1(1)] m1(2) by force
qed simp

lemma median_Some:
  assumes "wf_store st" "st p = Some b"
  obtains t where "GetMedianTimePast st p = Some t"
  using past_times_value [OF assms, of nMedianTimeSpan] by (auto simp: GetMedianTimePast_def)

lemma parent_median:
  assumes "vb_tree st ck" "boundary st ck (Some q)" "parent_of st ck q = Some a"
    and "GetMedianTimePast st q = Some t" "GetMedianTimePast st a = Some t'"
  shows "t' \<le> t"
proof -
  have wf: "wf_store st" "timely st"
    using assms(1) by (simp_all add: vb_tree_def)
  obtain b where b: "st q = Some b"
    using assms(2) by (auto simp: boundary_def split: option.splits)
  then have "prev_n st (nat (nHeight b - (nHeight b - Period ck))) q = Some a"
    using assms(3) by (auto simp: parent_of_def ancestor_at_def split: if_splits)
  from median_ancestor [OF wf b this assms(5)] show ?thesis
    using assms(4) by auto
qed

lemma boundary_induct [consumes 2, case_names None Some]:
  assumes "vb_tree st ck" "boundary st ck p" "P None"
    and "\<And>q b. boundary st ck (Some q) \<Longrightarrow> st q = Some b \<Longrightarrow> boundary st ck (parent_of st ck q) \<Longrightarrow> P (parent_of st ck q) \<Longrightarrow> P (Some q)"
  shows "P p"
  using assms(2)
proof (induction "periods st ck p" arbitrary: p rule: less_induct)
  case less
  show ?case
  proof (cases p)
    case (Some q)
    obtain b where b: "st q = Some b" "boundary st ck (parent_of st ck q)" "periods st ck (Some q) = Suc (periods st ck (parent_of st ck q))"
      by (rule boundary_parent [OF assms(1) less.prems [unfolded Some]])
    then show ?thesis
      using assms(4) [OF less.prems [unfolded Some] b(1,2)] less.hyps [of "parent_of st ck q"] unfolding Some by simp
  qed (use assms(3) in simp)
qed

text \<open>Before the start time a deployment is still defined: the walk back may stop there.\<close>

lemma defined_before_start:
  assumes "vb_tree st ck" "boundary st ck p"
  shows "\<forall>q t. p = Some q \<longrightarrow> GetMedianTimePast st q = Some t \<longrightarrow> t < BeginTime ck \<longrightarrow> fst (bip9_state st ck p) = DEFINED"
  using assms
proof (induction rule: boundary_induct)
  case (Some q b)
  have wf: "wf_store st" and be: "BeginTime ck \<le> EndTime ck"
    using assms(1) by (simp_all add: vb_tree_def)
  show ?case
  proof (intro allI impI)
    fix q' t
    assume a: "Some q = Some q'" "GetMedianTimePast st q' = Some t" "t < BeginTime ck"
    have "fst (bip9_state st ck (parent_of st ck q)) = DEFINED"
    proof (cases "parent_of st ck q")
      case par: (Some r)
      obtain c where "st r = Some c"
        using Some.hyps(3) by (auto simp: par boundary_def split: option.splits)
      then obtain t' where t': "GetMedianTimePast st r = Some t'"
        by (rule median_Some [OF wf])
      have "t' < BeginTime ck"
        using parent_median [OF assms(1) Some.hyps(1) par _ t'] a by force
      then show ?thesis
        using Some.IH t' par by blast
    qed simp
    then show "fst (bip9_state st ck (Some q)) = DEFINED"
      using a be bip9_state_step [OF assms(1) Some.hyps(1)]
      by (cases "bip9_state st ck (parent_of st ck q)") (simp add: bip9_step_def Let_def)
  qed
qed simp

lemma started_height:
  assumes "vb_tree st ck" "boundary st ck p"
  shows "fst (bip9_state st ck p) = STARTED \<longrightarrow>
    (\<exists>q b. p = Some q \<and> st q = Some b \<and> 0 < snd (bip9_state st ck p) \<and> snd (bip9_state st ck p) \<le> nHeight b + 1)"
  using assms
proof (induction rule: boundary_induct)
  case (Some q b)
  have "0 \<le> nHeight b"
    using wf_storeD(3) [of st q b] assms(1) Some.hyps(2) by (simp add: vb_tree_def)
  moreover have "nHeight c = nHeight b - Period ck" if "parent_of st ck q = Some a" "st a = Some c" for a c
    using boundary_parent [OF assms(1) Some.hyps(1)] Some.hyps(2) that by (metis option.inject)
  moreover have "0 < Period ck"
    using assms(1) by (simp add: vb_tree_def)
  ultimately show ?case
    using Some.IH Some.hyps(2) unfolding bip9_state_step [OF assms(1) Some.hyps(1)]
    by (cases "bip9_state st ck (parent_of st ck q)"; cases "fst (bip9_state st ck (parent_of st ck q))")
      (fastforce simp: bip9_step_def Let_def split: if_splits)+
qed simp

definition cache_ok :: "block_store \<Rightarrow> threshold_checker \<Rightarrow> ThresholdConditionCache \<Rightarrow> bool" where
  "cache_ok st ck cache \<longleftrightarrow> (\<forall>p s. cache p = Some s \<longrightarrow> boundary st ck p \<and> s = fst (bip9_state st ck p) \<and>
     (s = STARTED \<longrightarrow> (\<exists>q. p = Some q \<and> cache (parent_of st ck q) \<noteq> None)))"

lemma sdiv_nonneg: "0 \<le> a \<Longrightarrow> 0 < b \<Longrightarrow> a sdiv b = a div (b :: int)"
  by (cases "a = 0") (simp_all add: signed_divide_int_def sgn_if)

lemma next_state_spec:
  assumes "vb_tree st ck" "boundary st ck (Some q)" "state = fst (bip9_state st ck (parent_of st ck q))"
    and "state = STARTED \<longrightarrow> start = snd (bip9_state st ck (parent_of st ck q))"
  shows "\<exists>start'. next_state st ck state start q = Some (fst (bip9_state st ck (Some q)), start') \<and>
    (fst (bip9_state st ck (Some q)) = STARTED \<longrightarrow> start' = snd (bip9_state st ck (Some q)))"
proof -
  have wf: "wf_store st" and P: "0 < Period ck"
    using assms(1) by (simp_all add: vb_tree_def)
  obtain b where b: "st q = Some b" "boundary st ck (parent_of st ck q)"
      "\<And>a c. parent_of st ck q = Some a \<Longrightarrow> st a = Some c \<Longrightarrow> nHeight c = nHeight b - Period ck"
    using boundary_parent [OF assms(1,2)] by metis
  obtain t where t: "GetMedianTimePast st q = Some t"
    by (rule median_Some [OF wf b(1)])
  obtain s start0 where s: "bip9_state st ck (parent_of st ck q) = (s, start0)"
    by fastforce
  show ?thesis
  proof (cases "s = STARTED")
    case False
    then show ?thesis
      using b(1) t s assms(3) bip9_state_step [OF assms(1,2)]
      by (cases s) (auto simp: next_state_def bip9_step_def Let_def)
  next
    case True
    then obtain a c where a: "parent_of st ck q = Some a" "st a = Some c" "0 < start0" "start0 \<le> nHeight c + 1"
      using started_height [OF assms(1) b(2)] s by auto
    have c: "nHeight c = nHeight b - Period ck" "nHeight b + 1 < INT_MAX" "0 \<le> nHeight c"
      using b(3) [OF a(1,2)] assms(1) b(1) wf_storeD(3) [OF wf a(2)] by (auto simp: vb_tree_def)
    then have d: "(nHeight b + 1 - start0) sdiv Period ck = (nHeight b + 1 - start0) div Period ck"
      using a(4) P by (intro sdiv_nonneg) auto
    obtain r where r: "count_loop st ck (Threshold ck ((nHeight b + 1 - start0) div Period ck)) (nat (Period ck)) 0 (Some q) = Some r"
        "Threshold ck ((nHeight b + 1 - start0) div Period ck) \<le> r \<longleftrightarrow>
         Threshold ck ((nHeight b + 1 - start0) div Period ck) \<le> int (signals st ck (nat (Period ck)) (Some q))"
      using count_loop_spec [OF wf, where p = "Some q" and n = "nat (Period ck)" and ck = ck and thr = "Threshold ck ((nHeight b + 1 - start0) div Period ck)" and c = 0]
        b(1) c P by auto
    have "start = start0" "state = STARTED" "start0 < INT_MAX"
      using assms(3,4) s True a(4) c P by auto
    then show ?thesis
      using b(1) t s True r d a(3) bip9_state_step [OF assms(1,2)]
      by (auto simp: next_state_def bip9_step_def Let_def)
  qed
qed

lemma start_height_spec:
  assumes "vb_tree st ck" "cache_ok st ck cache" "boundary st ck p" "periods st ck p < fuel"
    "cache p = Some state"
  shows "\<exists>r. start_height_loop fuel st (Period ck) cache p state n = Some r \<and>
    (state = STARTED \<longrightarrow> r = min n (snd (bip9_state st ck p)))"
  using assms(3-)
proof (induction fuel arbitrary: p state n)
  case (Suc fuel)
  show ?case
  proof (cases "state = STARTED")
    case True
    then obtain q where q: "p = Some q" "cache (parent_of st ck q) \<noteq> None" "fst (bip9_state st ck p) = STARTED"
      using assms(2) Suc.prems(3) unfolding cache_ok_def by (metis (full_types))
    obtain b where b: "st q = Some b" "GetAncestor st q (nHeight b - Period ck) = Some (parent_of st ck q)"
        "boundary st ck (parent_of st ck q)" "periods st ck (Some q) = Suc (periods st ck (parent_of st ck q))"
      using boundary_parent [OF assms(1) Suc.prems(1) [unfolded q(1)]] by metis
    obtain state' where s': "cache (parent_of st ck q) = Some state'"
      using q(2) by blast
    then have st': "state' = fst (bip9_state st ck (parent_of st ck q))"
      using assms(2) by (simp add: cache_ok_def)
    obtain r where r: "start_height_loop fuel st (Period ck) cache (parent_of st ck q) state' (min (nHeight b + 1) n) = Some r"
        "state' = STARTED \<longrightarrow> r = min (min (nHeight b + 1) n) (snd (bip9_state st ck (parent_of st ck q)))"
      using Suc.IH [OF b(3) _ s', of "min (nHeight b + 1) n"] Suc.prems(2) b(4) q(1) by auto
    have loop: "start_height_loop (Suc fuel) st (Period ck) cache p state n = Some r"
      using r(1) b(1,2) s' True q(1) by (simp add: Let_def)
    have le: "snd (bip9_state st ck p) \<le> nHeight b + 1"
      using started_height [OF assms(1) Suc.prems(1)] q b(1) by auto
    have step: "bip9_state st ck p = bip9_step st ck q (bip9_state st ck (parent_of st ck q))"
      using bip9_state_step [OF assms(1) Suc.prems(1) [unfolded q(1)]] q(1) by simp
    show ?thesis
    proof (cases "state' = STARTED")
      case st: True
      then have "snd (bip9_state st ck p) = snd (bip9_state st ck (parent_of st ck q))"
        using step st' by (cases "bip9_state st ck (parent_of st ck q)") (auto simp: bip9_step_def Let_def)
      then show ?thesis
        using loop r(2) st le by auto
    next
      case nst: False
      then have "r = min (nHeight b + 1) n"
        using r(1) by (cases fuel) auto
      moreover have "snd (bip9_state st ck p) = nHeight b + 1"
        using step st' nst q(3) b(1) by (cases "bip9_state st ck (parent_of st ck q)"; cases state')
          (auto simp: bip9_step_def Let_def split: if_splits)
      ultimately show ?thesis
        using loop by (auto simp: min.commute)
    qed
  qed simp
qed simp

fun linked :: "block_store \<Rightarrow> threshold_checker \<Rightarrow> bptr option \<Rightarrow> bptr list \<Rightarrow> bptr option \<Rightarrow> bool" where
  "linked st ck p [] goal \<longleftrightarrow> p = goal"
| "linked st ck p (q # v) goal \<longleftrightarrow> boundary st ck (Some q) \<and> parent_of st ck q = p \<and> linked st ck (Some q) v goal"

lemma cache_ok_upd:
  assumes "cache_ok st ck cache" "boundary st ck p" "s = fst (bip9_state st ck p)"
    "s = STARTED \<longrightarrow> (\<exists>q. p = Some q \<and> cache (parent_of st ck q) \<noteq> None)"
  shows "cache_ok st ck (cache(p \<mapsto> s))"
  unfolding cache_ok_def
proof (intro allI impI)
  fix p' s'
  assume a: "(cache(p \<mapsto> s)) p' = Some s'"
  show "boundary st ck p' \<and> s' = fst (bip9_state st ck p') \<and>
    (s' = STARTED \<longrightarrow> (\<exists>q. p' = Some q \<and> (cache(p \<mapsto> s)) (parent_of st ck q) \<noteq> None))"
  proof (cases "p' = p")
    case True
    then show ?thesis
      using a assms(2-4) by fastforce
  next
    case False
    then have "boundary st ck p' \<and> s' = fst (bip9_state st ck p') \<and> (s' = STARTED \<longrightarrow> (\<exists>q. p' = Some q \<and> cache (parent_of st ck q) \<noteq> None))"
      using a assms(1) by (simp add: cache_ok_def)
    then show ?thesis
      by auto
  qed
qed

lemma cache_ok_defined:
  "cache_ok st ck cache \<Longrightarrow> boundary st ck p \<Longrightarrow> fst (bip9_state st ck p) = DEFINED \<Longrightarrow> cache_ok st ck (cache(p \<mapsto> DEFINED))"
  using cache_ok_upd [of st ck cache p DEFINED] by simp

lemma walk_back_spec:
  assumes "vb_tree st ck" "cache_ok st ck cache" "boundary st ck p" "periods st ck p < fuel" "linked st ck p v goal"
  shows "\<exists>cache' p' v'. walk_back fuel st ck cache p v = Some (cache', p', v') \<and> cache_ok st ck cache' \<and> boundary st ck p' \<and>
    cache' p' \<noteq> None \<and> linked st ck p' v' goal"
  using assms(3-)
proof (induction fuel arbitrary: p v)
  case (Suc fuel)
  have wf: "wf_store st"
    using assms(1) by (simp add: vb_tree_def)
  show ?case
  proof (cases "cache p")
    case known: (Some s)
    then show ?thesis
      using assms(2) Suc.prems by simp
  next
    case unknown: None
    show ?thesis
    proof (cases p)
      case None
      then show ?thesis
        using cache_ok_defined [OF assms(2), of None] unknown Suc.prems by (simp add: boundary_def)
    next
      case (Some q)
      obtain b where b: "st q = Some b" "GetAncestor st q (nHeight b - Period ck) = Some (parent_of st ck q)"
          "boundary st ck (parent_of st ck q)" "periods st ck (Some q) = Suc (periods st ck (parent_of st ck q))"
        using boundary_parent [OF assms(1) Suc.prems(1) [unfolded Some]] by metis
      obtain t where t: "GetMedianTimePast st q = Some t"
        by (rule median_Some [OF wf b(1)])
      show ?thesis
      proof (cases "t < BeginTime ck")
        case True
        then have "fst (bip9_state st ck p) = DEFINED"
          using defined_before_start [OF assms(1) Suc.prems(1)] Some t by auto
        then show ?thesis
          using cache_ok_defined [OF assms(2) Suc.prems(1)] unknown Some t True Suc.prems by simp
      next
        case False
        have "linked st ck (parent_of st ck q) (q # v) goal" "periods st ck (parent_of st ck q) < fuel"
          using Suc.prems b(4) Some by auto
        from Suc.IH [OF b(3) this(2,1)] show ?thesis
          using unknown Some t False b(1,2) by simp
      qed
    qed
  qed
qed simp

lemma walk_forward_spec:
  assumes "vb_tree st ck"
  shows "cache_ok st ck cache \<Longrightarrow> boundary st ck p \<Longrightarrow> cache p = Some state \<Longrightarrow> linked st ck p v goal \<Longrightarrow>
    (state = STARTED \<longrightarrow> start = snd (bip9_state st ck p)) \<Longrightarrow>
    \<exists>cache'. walk_forward st ck cache state start v = Some (fst (bip9_state st ck goal), cache') \<and> cache_ok st ck cache'"
proof (induction v arbitrary: cache p state start)
  case Nil
  then show ?case
    by (auto simp: cache_ok_def)
next
  case (Cons q v)
  have q: "boundary st ck (Some q)" "parent_of st ck q = p" "linked st ck (Some q) v goal"
    using Cons.prems(4) by simp_all
  have "state = fst (bip9_state st ck (parent_of st ck q))"
    using Cons.prems(1,3) q(2) by (simp add: cache_ok_def)
  from next_state_spec [OF assms q(1) this, of start] Cons.prems(5) q(2) obtain start' where
    n: "next_state st ck state start q = Some (fst (bip9_state st ck (Some q)), start')"
      "fst (bip9_state st ck (Some q)) = STARTED \<longrightarrow> start' = snd (bip9_state st ck (Some q))"
    by auto
  let ?cache = "cache(Some q \<mapsto> fst (bip9_state st ck (Some q)))"
  have "cache_ok st ck ?cache"
    by (rule cache_ok_upd [OF Cons.prems(1) q(1) refl]) (use Cons.prems(3) q(2) in auto)
  moreover have "?cache (Some q) = Some (fst (bip9_state st ck (Some q)))"
    by simp
  ultimately show ?case
    using Cons.IH [OF _ q(1) _ q(3) n(2)] n(1) by auto
qed

lemma walk_fuel_periods:
  assumes "vb_tree st ck" "boundary st ck p"
  shows "periods st ck p < walk_fuel st p"
proof (cases "Option.bind p st")
  case (Some b)
  then have "0 \<le> nHeight b" "0 < Period ck"
    using assms(1) wf_storeD(3) by (auto simp: vb_tree_def bind_eq_Some_conv)
  then have "nat ((nHeight b + 1) div Period ck) \<le> nat (nHeight b + 1)"
    using div_le_dividend [of "nat (nHeight b + 1)" "nat (Period ck)"] by (simp add: nat_div_distrib)
  then show ?thesis
    using Some \<open>0 \<le> nHeight b\<close> by (simp add: periods_def walk_fuel_def)
qed (simp add: periods_def walk_fuel_def)

lemma period_parent_spec:
  assumes "vb_tree st ck" "case p of None \<Rightarrow> True | Some q \<Rightarrow> st q \<noteq> None"
  obtains r where "period_parent st (Period ck) p = Some r" "boundary st ck r"
proof (cases p)
  case None
  then show thesis
    using that by (simp add: period_parent_def boundary_def)
next
  case (Some q)
  then obtain b where b: "st q = Some b"
    using assms(2) by auto
  have wf: "wf_store st" and P: "0 < Period ck"
    using assms(1) by (simp_all add: vb_tree_def)
  let ?h = "nHeight b - (nHeight b + 1) mod Period ck"
  have le: "?h \<le> nHeight b"
    using P by simp
  have m: "(?h + 1) mod Period ck = 0"
    by (simp add: mod_diff_right_eq algebra_simps minus_mod_eq_mult_div)
  have "period_parent st (Period ck) p = Some (ancestor_at st q ?h)"
    using GetAncestor_ancestor_at [OF wf b le] b Some by (simp add: period_parent_def)
  moreover have "boundary st ck (ancestor_at st q ?h)"
  proof (cases "ancestor_at st q ?h")
    case anc: (Some r)
    then obtain c where "st r = Some c" "nHeight c = ?h"
      using ancestor_at_Some(2) [OF wf b anc] by blast
    then show ?thesis
      using m anc by (simp add: boundary_def)
  qed (simp add: boundary_def)
  ultimately show thesis
    by (rule that)
qed

lemma GetStateFor_spec:
  assumes "vb_tree st ck" "cache_ok st ck cache" "case p of None \<Rightarrow> True | Some q \<Rightarrow> st q \<noteq> None"
  shows "\<exists>cache'. GetStateFor st ck cache p = Some (deployment_state st ck p, cache') \<and> cache_ok st ck cache'"
proof -
  obtain r where r: "period_parent st (Period ck) p = Some r" "boundary st ck r"
    by (rule period_parent_spec [OF assms(1,3)])
  have "linked st ck r [] r"
    by simp
  from walk_back_spec [OF assms(1,2) r(2) walk_fuel_periods [OF assms(1) r(2)] this] obtain cache1 p1 v1 where
    w: "walk_back (walk_fuel st r) st ck cache r [] = Some (cache1, p1, v1)" "cache_ok st ck cache1" "boundary st ck p1"
      "cache1 p1 \<noteq> None" "linked st ck p1 v1 r"
    by blast
  obtain s where s: "cache1 p1 = Some s"
    using w(4) by blast
  have sv: "s = fst (bip9_state st ck p1)"
    using w(2) s by (simp add: cache_ok_def)
  obtain start where c: "calculateStartHeight st p1 s (Period ck) cache1 = Some start"
      "s = STARTED \<longrightarrow> start = min INT_MAX (snd (bip9_state st ck p1))"
    using start_height_spec [OF assms(1) w(2,3) walk_fuel_periods [OF assms(1) w(3)] s, of INT_MAX]
    unfolding calculateStartHeight_def by blast
  have lt: "nHeight b + 1 < INT_MAX" if "st q = Some b" for q b
    using assms(1) that by (auto simp: vb_tree_def)
  have "s = STARTED \<longrightarrow> start = snd (bip9_state st ck p1)"
    using c(2) started_height [OF assms(1) w(3)] sv by (auto dest!: lt)
  from walk_forward_spec [OF assms(1) w(2,3) s w(5) this] show ?thesis
    using r(1) w(1) s c(1) by (auto simp: GetStateFor_def deployment_state_def)
qed

subsection \<open>Progress\<close>

definition decided :: "ThresholdState \<Rightarrow> bool" where
  "decided s \<longleftrightarrow> s = ACTIVE \<or> s = FAILED"

text \<open>The last blocks of the periods up to a block, the latest first.\<close>

inductive period_end :: "block_store \<Rightarrow> threshold_checker \<Rightarrow> bptr option \<Rightarrow> bptr \<Rightarrow> bool" for st ck where
  here: "period_end st ck (Some q) q"
| earlier: "period_end st ck (parent_of st ck q) r \<Longrightarrow> period_end st ck (Some q) r"

inductive_cases period_end_NoneE: "period_end st ck None r"
inductive_cases period_end_SomeE: "period_end st ck (Some q) r"

lemma decided_step: "decided (fst s) \<Longrightarrow> bip9_step st ck q s = s"
  by (cases s) (auto simp: decided_def bip9_step_def Let_def)

lemma decided_timeout:
  assumes "GetMedianTimePast st q = Some t" "EndTime ck \<le> t" "MinActivationHeight ck \<le> nHeight (the (st q)) + 1"
  shows "decided (fst (bip9_step st ck q s))"
  using assms by (cases s; cases "fst s") (auto simp: decided_def bip9_step_def Let_def)

lemma bip9_decided:
  assumes "vb_tree st ck" "boundary st ck p" "MinActivationHeight ck \<le> 0"
  shows "(\<exists>r t. period_end st ck p r \<and> GetMedianTimePast st r = Some t \<and> EndTime ck \<le> t) \<longrightarrow> decided (fst (bip9_state st ck p))"
  using assms(1,2)
proof (induction rule: boundary_induct)
  case (Some q b)
  have "0 \<le> nHeight b"
    using wf_storeD(3) [of st q b] assms(1) Some.hyps(2) by (simp add: vb_tree_def)
  then have m: "MinActivationHeight ck \<le> nHeight (the (st q)) + 1"
    using assms(3) Some.hyps(2) by simp
  show ?case
    unfolding bip9_state_step [OF assms(1) Some.hyps(1)]
    using Some.IH m decided_step [of "bip9_state st ck (parent_of st ck q)" st ck q] decided_timeout [of st q _ ck "bip9_state st ck (parent_of st ck q)"]
    by (auto elim!: period_end_SomeE)
qed (auto elim: period_end_NoneE)

lemma bip9_lock_in:
  assumes "vb_tree st ck" "boundary st ck (Some q)" "parent_of st ck q = Some r" "boundary st ck (Some r)" "MinActivationHeight ck \<le> 0"
    and "bip9_state st ck (parent_of st ck r) = (STARTED, start)"
    and "GetMedianTimePast st r = Some t" "t < EndTime ck" "st r = Some c"
    and "Threshold ck ((nHeight c + 1 - start) div Period ck) \<le> int (signals st ck (nat (Period ck)) (Some r))"
  shows "fst (bip9_state st ck (Some r)) = LOCKED_IN" "fst (bip9_state st ck (Some q)) = ACTIVE"
proof -
  show r: "fst (bip9_state st ck (Some r)) = LOCKED_IN"
    using bip9_state_step [OF assms(1,4)] assms(6-) by (simp add: bip9_step_def Let_def)
  obtain b where "st q = Some b"
    using assms(2) by (auto simp: boundary_def split: option.splits)
  moreover have "0 \<le> nHeight b"
    using wf_storeD(3) [of st q b] assms(1) calculation by (simp add: vb_tree_def)
  ultimately show "fst (bip9_state st ck (Some q)) = ACTIVE"
    using bip9_state_step [OF assms(1,2)] assms(3,5) r
    by (cases "bip9_state st ck (Some r)") (simp add: bip9_step_def Let_def)
qed

subsection \<open>Since when\<close>

lemma period_parent_boundary:
  assumes "vb_tree st ck" "boundary st ck (Some q)"
  shows "period_parent st (Period ck) (Some q) = Some (Some q)"
proof -
  obtain b where b: "st q = Some b" "(nHeight b + 1) mod Period ck = 0"
    using assms(2) by (auto simp: boundary_def split: option.splits)
  have wf: "wf_store st"
    using assms(1) by (simp add: vb_tree_def)
  then show ?thesis
    using b GetAncestor_ancestor_at [OF wf b(1), of "nHeight b"] wf_storeD(3) [OF wf b(1)]
    by (simp add: period_parent_def ancestor_at_def)
qed

lemma deployment_boundary:
  "vb_tree st ck \<Longrightarrow> boundary st ck (Some q) \<Longrightarrow> deployment_state st ck (Some q) = fst (bip9_state st ck (Some q))"
  by (simp add: deployment_state_def period_parent_boundary)

definition entered_at :: "block_store \<Rightarrow> threshold_checker \<Rightarrow> bptr \<Rightarrow> int \<Rightarrow> bool" where
  "entered_at st ck q h \<longleftrightarrow>
     (\<exists>r c. period_end st ck (Some q) r \<and> st r = Some c \<and> h = nHeight c + 1 \<and>
        fst (bip9_state st ck (Some r)) = fst (bip9_state st ck (Some q)) \<and>
        fst (bip9_state st ck (parent_of st ck r)) \<noteq> fst (bip9_state st ck (Some q)))"

lemma entered_here:
  assumes "st q = Some b" "fst (bip9_state st ck (parent_of st ck q)) \<noteq> fst (bip9_state st ck (Some q))"
  shows "entered_at st ck q (nHeight b + 1)"
  unfolding entered_at_def by (rule exI [of _ q], rule exI [of _ b]) (use assms period_end.here [of st ck q] in simp)

lemma since_loop_spec:
  assumes "vb_tree st ck"
  shows "cache_ok st ck cache \<Longrightarrow> boundary st ck (Some q) \<Longrightarrow> periods st ck (Some q) < fuel \<Longrightarrow>
    fst (bip9_state st ck (Some q)) = s \<Longrightarrow> s \<noteq> DEFINED \<Longrightarrow>
    \<exists>h cache'. since_loop fuel st ck s cache q (parent_of st ck q) = Some (h, cache') \<and> cache_ok st ck cache' \<and> entered_at st ck q h"
proof (induction fuel arbitrary: cache q)
  case (Suc fuel)
  obtain b where b: "st q = Some b" "boundary st ck (parent_of st ck q)" "periods st ck (Some q) = Suc (periods st ck (parent_of st ck q))"
    using boundary_parent [OF assms Suc.prems(2)] by metis
  show ?case
  proof (cases "parent_of st ck q")
    case None
    then show ?thesis
      using b(1) Suc.prems(1,4,5) entered_here [of st q b ck] by auto
  next
    case (Some r)
    have br: "boundary st ck (Some r)"
      using b(2) Some by simp
    obtain c where c: "st r = Some c" "GetAncestor st r (nHeight c - Period ck) = Some (parent_of st ck r)"
      using boundary_parent [OF assms br] by metis
    obtain cache1 where g: "GetStateFor st ck cache (Some r) = Some (fst (bip9_state st ck (Some r)), cache1)" "cache_ok st ck cache1"
      using GetStateFor_spec [OF assms Suc.prems(1), of "Some r"] c(1) deployment_boundary [OF assms br] by auto
    show ?thesis
    proof (cases "fst (bip9_state st ck (Some r)) = s")
      case False
      then show ?thesis
        using b(1) Some g Suc.prems(4) entered_here [of st q b ck] by auto
    next
      case True
      from Suc.IH [OF g(2) br _ True Suc.prems(5)] obtain h cache' where
        h: "since_loop fuel st ck s cache1 r (parent_of st ck r) = Some (h, cache')" "cache_ok st ck cache'" "entered_at st ck r h"
        using Suc.prems(3) b(3) Some by auto
      have "entered_at st ck q h"
        using h(3) True Suc.prems(4) Some period_end.earlier [of st ck q] unfolding entered_at_def by metis
      then show ?thesis
        using h(1,2) b(1) Some g(1) True c by auto
    qed
  qed
qed simp

lemma GetStateSinceHeightFor_spec:
  assumes "vb_tree st ck" "cache_ok st ck cache" "case p of None \<Rightarrow> True | Some q \<Rightarrow> st q \<noteq> None"
  shows "\<exists>h cache'. GetStateSinceHeightFor st ck cache p = Some (h, cache') \<and> cache_ok st ck cache' \<and>
    (if deployment_state st ck p = DEFINED then h = 0 else \<exists>r. period_parent st (Period ck) p = Some (Some r) \<and> entered_at st ck r h)"
proof -
  obtain cache1 where g: "GetStateFor st ck cache p = Some (deployment_state st ck p, cache1)" "cache_ok st ck cache1"
    using GetStateFor_spec [OF assms] by blast
  obtain r where r: "period_parent st (Period ck) p = Some r" "boundary st ck r"
    by (rule period_parent_spec [OF assms(1,3)])
  show ?thesis
  proof (cases "deployment_state st ck p = DEFINED")
    case True
    then show ?thesis
      using g by (simp add: GetStateSinceHeightFor_def)
  next
    case False
    then obtain q where q: "r = Some q"
      using r(1) by (cases r) (simp_all add: deployment_state_def)
    then obtain q0 where p: "p = Some q0"
      using r(1) by (cases p) (simp_all add: period_parent_def)
    obtain b where b: "st q = Some b" "GetAncestor st q (nHeight b - Period ck) = Some (parent_of st ck q)"
      using boundary_parent [OF assms(1) r(2) [unfolded q]] by metis
    have "fst (bip9_state st ck (Some q)) = deployment_state st ck p"
      using r(1) q by (simp add: deployment_state_def)
    from since_loop_spec [OF assms(1) g(2) r(2) [unfolded q] walk_fuel_periods [OF assms(1) r(2) [unfolded q]] this False] show ?thesis
      using g(1) False p q r(1) b by (auto simp: GetStateSinceHeightFor_def)
  qed
qed

subsection \<open>Properties\<close>

definition demo_deployments :: DeploymentParams where
  "demo_deployments = \<lparr>nRuleChangeActivationThreshold = 2, nMinerConfirmationWindow = 2,
     vDeployments = [\<lparr>dep_bit = 0, nStartTime = 5, nTimeout = 15, nWindowSize = 0, nThresholdStart = 0, nThresholdMin = 0, nFalloffCoeff = 0\<rparr>]\<rparr>"

lemma demo_vb_tree: "vb_tree demo_store (VersionBitsConditionChecker demo_deployments 0)"
proof -
  have m: "GetMedianTimePast demo_store 0 = Some 10" "GetMedianTimePast demo_store 1 = Some 20" "GetMedianTimePast demo_store 2 = Some 20"
    by code_simp+
  have "timely demo_store"
    unfolding timely_def
  proof (intro allI impI)
    fix p b q m
    assume a: "demo_store p = Some b" "pprev b = Some q" "GetMedianTimePast demo_store q = Some m"
    from a(1) consider "b = demo_block None None 0 10" | "b = demo_block (Some 0) (Some 0) 1 20" | "b = demo_block (Some 1) (Some 0) 2 30"
      | "b = demo_block (Some 2) (Some 1) 3 40" | "b = demo_block (Some 1) None 2 50"
      by (auto simp: demo_store_def split: if_splits)
    then show "m < GetBlockTime b"
      by cases (use a(2,3) m m(2) [unfolded One_nat_def] in \<open>auto simp: GetBlockTime_def\<close>)
  qed
  moreover have "nHeight b + 1 < INT_MAX" if "demo_store p = Some b" for p b
    using that by (auto simp: demo_store_def INT_MAX_def split: if_splits)
  ultimately show ?thesis
    using demo_wf by (simp add: vb_tree_def VersionBitsConditionChecker_def demo_deployments_def vb_Period_def int32_def Let_def)
qed

lemma empty_cache_ok: "cache_ok st ck Map.empty"
  by (simp add: cache_ok_def)

text \<open>
  C10: the lazy, cached computation of a deployment's state is the state machine of BIP 9. On a block tree whose times the header check has accepted, and
  with any cache whose entries are right and closed under predecessors of started periods, the call returns the state that the machine reaches when it is run from the genesis block on
  over the ends of the periods, whichever periods the cache knows, and leaves such a cache. The height since when the state holds is that of the first period in
  it. No assertion fails and no null pointer is read.
\<close>

theorem versionbits_refines:
  assumes "vb_tree st (VersionBitsConditionChecker params pos)" "cache_ok st (VersionBitsConditionChecker params pos) (caches pos)"
    and "case p of None \<Rightarrow> True | Some q \<Rightarrow> st q \<noteq> None"
  shows "(\<exists>c. VersionBitsState st params p pos caches = Some (deployment_state st (VersionBitsConditionChecker params pos) p, caches(pos := c)) \<and>
      cache_ok st (VersionBitsConditionChecker params pos) c) \<and>
    (\<exists>h c. VersionBitsStateSinceHeight st params p pos caches = Some (h, caches(pos := c)) \<and>
      cache_ok st (VersionBitsConditionChecker params pos) c \<and>
      (if deployment_state st (VersionBitsConditionChecker params pos) p = DEFINED then h = 0
       else \<exists>r. period_parent st (vb_Period params (vDeployments params ! pos)) p = Some (Some r) \<and>
              entered_at st (VersionBitsConditionChecker params pos) r h))"
proof -
  let ?ck = "VersionBitsConditionChecker params pos"
  have P: "Period ?ck = vb_Period params (vDeployments params ! pos)"
    by (simp add: VersionBitsConditionChecker_def Let_def)
  obtain c where c: "GetStateFor st ?ck (caches pos) p = Some (deployment_state st ?ck p, c)" "cache_ok st ?ck c"
    using GetStateFor_spec [OF assms] by blast
  obtain h c' where h: "GetStateSinceHeightFor st ?ck (caches pos) p = Some (h, c')" "cache_ok st ?ck c'"
      "if deployment_state st ?ck p = DEFINED then h = 0 else \<exists>r. period_parent st (Period ?ck) p = Some (Some r) \<and> entered_at st ?ck r h"
    using GetStateSinceHeightFor_spec [OF assms] by blast
  have "VersionBitsState st params p pos caches = Some (deployment_state st ?ck p, caches(pos := c))"
    using c(1) by (simp add: VersionBitsState_def)
  moreover have "VersionBitsStateSinceHeight st params p pos caches = Some (h, caches(pos := c'))"
    using h(1) by (simp add: VersionBitsStateSinceHeight_def)
  ultimately show ?thesis
    using c(2) h(2,3) unfolding P by metis
qed

theorem versionbits_refines_witness:
  "(\<exists>c. VersionBitsState demo_store demo_deployments (Some 3) 0 (\<lambda>_. Map.empty) =
      Some (deployment_state demo_store (VersionBitsConditionChecker demo_deployments 0) (Some 3), (\<lambda>_. Map.empty)(0 := c))) \<and>
   deployment_state demo_store (VersionBitsConditionChecker demo_deployments 0) (Some 3) = FAILED"
proof -
  have "deployment_state demo_store (VersionBitsConditionChecker demo_deployments 0) (Some 3) = FAILED"
    by code_simp
  then show ?thesis
    using versionbits_refines [OF demo_vb_tree, of "\<lambda>_. Map.empty" "Some 3"] empty_cache_ok by (auto simp: demo_store_def)
qed

text \<open>
  C18: every deployment comes to an end. As soon as the median time at the end of some period on the chain has reached the timeout, the
  state is and stays active or failed. And if the blocks of a period of a started deployment that signal reach the threshold of that
  period, as the code computes it in 32-bit integers, before the timeout, the deployment is active one period later.
\<close>

theorem versionbits_progress:
  assumes "vb_tree st (VersionBitsConditionChecker params pos)" "cache_ok st (VersionBitsConditionChecker params pos) (caches pos)"
    and "st p \<noteq> None" "period_parent st (vb_Period params (vDeployments params ! pos)) (Some p) = Some r"
  shows "\<exists>s caches'. VersionBitsState st params (Some p) pos caches = Some (s, caches') \<and>
    ((\<exists>e t. period_end st (VersionBitsConditionChecker params pos) r e \<and> GetMedianTimePast st e = Some t \<and>
        nTimeout (vDeployments params ! pos) \<le> t) \<longrightarrow> s = ACTIVE \<or> s = FAILED) \<and>
    (\<forall>q e start c t. r = Some q \<and> parent_of st (VersionBitsConditionChecker params pos) q = Some e \<and> st e = Some c \<and>
        bip9_state st (VersionBitsConditionChecker params pos) (parent_of st (VersionBitsConditionChecker params pos) e) = (STARTED, start) \<and>
        GetMedianTimePast st e = Some t \<and> t < nTimeout (vDeployments params ! pos) \<and>
        vb_Threshold params (vDeployments params ! pos) ((nHeight c + 1 - start) div vb_Period params (vDeployments params ! pos))
          \<le> int (signals st (VersionBitsConditionChecker params pos) (nat (vb_Period params (vDeployments params ! pos))) (Some e)) \<longrightarrow>
        s = ACTIVE)"
proof -
  define ck where "ck = VersionBitsConditionChecker params pos"
  have ck: "Period ck = vb_Period params (vDeployments params ! pos)" "EndTime ck = nTimeout (vDeployments params ! pos)"
      "Threshold ck = vb_Threshold params (vDeployments params ! pos)" "MinActivationHeight ck = 0"
    by (simp_all add: ck_def VersionBitsConditionChecker_def Let_def)
  note tree = assms(1) [folded ck_def] and cok = assms(2) [folded ck_def]
  have in_store: "case Some p of None \<Rightarrow> True | Some q \<Rightarrow> st q \<noteq> None"
    using assms(3) by simp
  have r: "period_parent st (Period ck) (Some p) = Some r" "boundary st ck r"
    using period_parent_spec [OF tree in_store] assms(4) unfolding ck(1) by auto
  then have s: "deployment_state st ck (Some p) = fst (bip9_state st ck r)"
    by (simp add: deployment_state_def)
  have v: "\<exists>caches'. VersionBitsState st params (Some p) pos caches = Some (fst (bip9_state st ck r), caches')"
    using GetStateFor_spec [OF tree cok in_store] s by (auto simp: VersionBitsState_def ck_def)
  have "s' = ACTIVE" if "r = Some q" "parent_of st ck q = Some e" "st e = Some c" "bip9_state st ck (parent_of st ck e) = (STARTED, start)"
      "GetMedianTimePast st e = Some t" "t < EndTime ck"
      "Threshold ck ((nHeight c + 1 - start) div Period ck) \<le> int (signals st ck (nat (Period ck)) (Some e))" "s' = fst (bip9_state st ck r)"
    for q e c start t s'
  proof -
    have "boundary st ck (Some e)"
      using boundary_parent [OF tree r(2) [unfolded that(1)]] that(2) by metis
    then show ?thesis
      using bip9_lock_in(2) [OF tree r(2) [unfolded that(1)] that(2) _ _ that(4-6,3,7)] ck(4) that(1,8) by simp
  qed
  moreover have "(\<exists>e t. period_end st ck r e \<and> GetMedianTimePast st e = Some t \<and> EndTime ck \<le> t) \<longrightarrow> decided (fst (bip9_state st ck r))"
    using bip9_decided [OF tree r(2)] ck(4) by simp
  ultimately show ?thesis
    using v unfolding ck_def [symmetric] ck(1-3) [symmetric] decided_def by blast
qed

theorem versionbits_progress_witness:
  "\<exists>s caches'. VersionBitsState demo_store demo_deployments (Some 3) 0 (\<lambda>_. Map.empty) = Some (s, caches') \<and> (s = ACTIVE \<or> s = FAILED)"
proof -
  have p: "period_parent demo_store (vb_Period demo_deployments (vDeployments demo_deployments ! 0)) (Some 3) = Some (Some 3)"
    by code_simp
  have m: "GetMedianTimePast demo_store 3 = Some 30"
    by code_simp
  have d: "demo_store 3 \<noteq> None" "nTimeout (vDeployments demo_deployments ! 0) \<le> 30"
    by (simp_all add: demo_store_def demo_deployments_def)
  show ?thesis
    using versionbits_progress [OF demo_vb_tree, of "\<lambda>_. Map.empty", OF empty_cache_ok d(1) p]
      period_end.here [of demo_store "VersionBitsConditionChecker demo_deployments 0" 3] m d(2) by blast
qed

subsection \<open>The falling threshold of the governance fee\<close>

text \<open>
  On the main network the threshold of the deployment for the governance fee falls from 80 of 100 blocks to 60 and stays there, but in attempt 4635, 463500 blocks after the start, the product
  in \<open>Threshold\<close> passes \<open>2 ^ 31\<close>. Where the overflow wraps around, the threshold is then far above the length of a period, and no number of signals locks the deployment in.
\<close>

lemma gov_fee_threshold:
  "vb_Period main_deployments (vDeployments main_deployments ! 7) = 100 \<and>
   vb_Threshold main_deployments (vDeployments main_deployments ! 7) 0 = 80 \<and>
   vb_Threshold main_deployments (vDeployments main_deployments ! 7) 10 = 60 \<and>
   vb_Threshold main_deployments (vDeployments main_deployments ! 7) 4634 = 60 \<and>
   vb_Threshold main_deployments (vDeployments main_deployments ! 7) 4635 = 4293369"
  by (simp add: main_deployments_def vb_Period_def vb_Threshold_def int32_def Let_def signed_divide_int_def)

subsection \<open>A timeout before the first block\<close>

lemma period_start:
  assumes "0 < P" "0 \<le> n"
  shows "n - (n + 1) mod P + 1 = P * ((n + 1) div P)" "n - (n + 1) mod P \<le> n" "n - (n + 1) mod P < 0 \<longleftrightarrow> n + 1 < (P :: int)"
proof -
  show e: "n - (n + 1) mod P + 1 = P * ((n + 1) div P)"
    using minus_mod_eq_mult_div [of "n + 1" P] by simp
  show "n - (n + 1) mod P \<le> n"
    using assms(1) by simp
  have "0 \<le> (n + 1) div P" "(n + 1) div P = 0 \<longleftrightarrow> n + 1 < P"
    using assms by (simp_all add: pos_imp_zdiv_nonneg_iff zdiv_eq_0_iff)
  then have "(n + 1) div P \<le> 0 \<longleftrightarrow> n + 1 < P"
    by linarith
  moreover have "P * ((n + 1) div P) \<le> 0 \<longleftrightarrow> (n + 1) div P \<le> 0"
    using assms(1) by (simp add: mult_le_0_iff)
  ultimately show "n - (n + 1) mod P < 0 \<longleftrightarrow> n + 1 < P"
    using e by linarith
qed

lemma median_from_genesis:
  assumes "wf_store st" "timely st" "st p = Some b" "\<And>q c. st q = Some c \<Longrightarrow> pprev c = None \<Longrightarrow> g \<le> GetBlockTime c"
  shows "\<exists>t. GetMedianTimePast st p = Some t \<and> g \<le> t"
  using assms(3)
proof (induction "nat (nHeight b)" arbitrary: p b)
  case 0
  then have "pprev b = None"
    using wf_storeD(3) [OF assms(1) 0(2)] wf_genesis_prev [OF assms(1) 0(2)] by simp
  then show ?case
    using 0 assms(4) by (auto simp: GetMedianTimePast_def nMedianTimeSpan_def numeral_eq_Suc)
next
  case (Suc n)
  show ?case
  proof (cases "pprev b")
    case None
    then show ?thesis
      using Suc.prems assms(4) by (auto simp: GetMedianTimePast_def nMedianTimeSpan_def numeral_eq_Suc)
  next
    case (Some q)
    obtain c where c: "st q = Some c" "nHeight b = nHeight c + 1"
      by (rule wf_prevD [OF assms(1) Suc.prems Some])
    then have "n = nat (nHeight c)"
      using Suc.hyps(2) wf_storeD(3) [OF assms(1) c(1)] by linarith
    then obtain t where t: "GetMedianTimePast st q = Some t" "g \<le> t"
      using Suc.hyps(1) [of c q] c(1) by blast
    have "t < GetBlockTime b"
      using assms(2) Suc.prems Some t(1) unfolding timely_def by blast
    then show ?thesis
      using median_mono [OF assms(1) Suc.prems Some t(1)] t(2) by force
  qed
qed

lemma bip9_expired:
  assumes "vb_tree st ck" "boundary st ck p" "\<And>q c. st q = Some c \<Longrightarrow> pprev c = None \<Longrightarrow> EndTime ck \<le> GetBlockTime c"
  shows "fst (bip9_state st ck p) = (if p = None then DEFINED else FAILED)"
  using assms(1,2)
proof (induction rule: boundary_induct)
  case (Some q b)
  obtain t where "GetMedianTimePast st q = Some t" "EndTime ck \<le> t"
    using median_from_genesis [of st q b "EndTime ck"] Some.hyps(2) assms(1,3) by (auto simp: vb_tree_def)
  then show ?case
    unfolding bip9_state_step [OF assms(1) Some.hyps(1)] using Some.IH
    by (cases "bip9_state st ck (parent_of st ck q)") (auto simp: bip9_step_def split: if_splits)
qed simp

definition main_genesis_store :: block_store where
  "main_genesis_store = [0 \<mapsto> demo_block None None 0 (word_of_int main_genesis_time)]"

text \<open>
  C23: on the main network the deployment of BIP 68, BIP 112 and BIP 113 never becomes active. Its timeout lies before the time of the first block, so the state
  is defined in the first period of 2016 blocks and failed ever after, and neither the sequence locks in \<open>ConnectBlock\<close> nor the median time in
  \<open>ContextualCheckBlock\<close> come into force.
\<close>

theorem csv_never_active:
  assumes "vb_tree st (VersionBitsConditionChecker main_deployments DEPLOYMENT_CSV)"
    and "cache_ok st (VersionBitsConditionChecker main_deployments DEPLOYMENT_CSV) (caches DEPLOYMENT_CSV)"
    and "\<And>q c. st q = Some c \<Longrightarrow> pprev c = None \<Longrightarrow> GetBlockTime c = main_genesis_time" "st p = Some b"
  shows "\<exists>caches'. VersionBitsState st main_deployments (Some p) DEPLOYMENT_CSV caches = Some (if nHeight b + 1 < 2016 then DEFINED else FAILED, caches')"
proof -
  define ck where "ck = VersionBitsConditionChecker main_deployments DEPLOYMENT_CSV"
  have ck: "Period ck = 2016" "EndTime ck = 1517788800"
    by (simp_all add: ck_def VersionBitsConditionChecker_def main_deployments_def DEPLOYMENT_CSV_def vb_Period_def int32_def Let_def)
  have wf: "wf_store st" "0 \<le> nHeight b"
    using assms(1,4) wf_storeD(3) [of st p b] by (simp_all add: vb_tree_def)
  obtain c where c: "GetStateFor st ck (caches DEPLOYMENT_CSV) (Some p) = Some (deployment_state st ck (Some p), c)"
    using GetStateFor_spec [OF assms(1,2), of "Some p"] assms(4) by (auto simp: ck_def)
  define h where "h = nHeight b - (nHeight b + 1) mod 2016"
  have h: "h \<le> nHeight b" "h < 0 \<longleftrightarrow> nHeight b + 1 < 2016"
    using period_start(2,3) [of 2016 "nHeight b"] wf(2) by (simp_all add: h_def)
  have pp: "period_parent st (Period ck) (Some p) = Some (ancestor_at st p h)"
    using GetAncestor_ancestor_at [OF wf(1) assms(4) h(1)] assms(4) by (simp add: period_parent_def ck h_def)
  have bd: "boundary st ck (ancestor_at st p h)"
  proof (cases "ancestor_at st p h")
    case (Some q)
    then show ?thesis
      using ancestor_at_Some [OF wf(1) assms(4) Some] period_start(1) [of 2016 "nHeight b"] wf(2) by (auto simp: boundary_def ck h_def)
  qed (simp add: boundary_def)
  have "ancestor_at st p h = None \<longleftrightarrow> h < 0"
    using assms(4) h(1) prev_n_ex [OF wf(1) assms(4), of "nat (nHeight b - h)"] by (auto simp: ancestor_at_def)
  moreover have "EndTime ck \<le> GetBlockTime c" if "st q = Some c" "pprev c = None" for q c
    using assms(3) [OF that] by (simp add: ck main_genesis_time_def)
  ultimately show ?thesis
    using bip9_expired [OF assms(1) [folded ck_def] bd] c h(2) by (auto simp: VersionBitsState_def ck_def [symmetric] deployment_state_def pp)
qed

lemma main_genesis_tree: "vb_tree main_genesis_store (VersionBitsConditionChecker main_deployments DEPLOYMENT_CSV)"
proof -
  have "wf_store main_genesis_store"
    by (auto simp: wf_store_def wf_link_def wf_skip_def main_genesis_store_def demo_block_def split: if_splits)
  then show ?thesis
    by (auto simp: vb_tree_def timely_def VersionBitsConditionChecker_def main_deployments_def DEPLOYMENT_CSV_def vb_Period_def int32_def Let_def
        main_genesis_store_def demo_block_def INT_MAX_def split: if_splits)
qed

theorem csv_never_active_witness:
  "\<exists>caches'. VersionBitsState main_genesis_store main_deployments (Some 0) DEPLOYMENT_CSV (\<lambda>_. Map.empty) = Some (DEFINED, caches')"
proof -
  have t: "GetBlockTime c = main_genesis_time" if "main_genesis_store q = Some c" "pprev c = None" for q c
    using that by (auto simp: main_genesis_store_def demo_block_def GetBlockTime_def main_genesis_time_def split: if_splits)
  show ?thesis
    using csv_never_active [of main_genesis_store "\<lambda>_. Map.empty" 0 "demo_block None None 0 (word_of_int main_genesis_time)", OF main_genesis_tree empty_cache_ok t]
    by (simp add: main_genesis_store_def demo_block_def)
qed

end
