(* ===== verification/Script.thy ===== *)
theory Script
  imports Transaction
begin

section \<open>Scripts (script/script.h, script/script.cpp)\<close>

text \<open>
  A script is the list of its bytes; an iterator into it is the list of the bytes that are left.
\<close>

subsection \<open>Limits and opcodes\<close>

definition MAX_SCRIPT_ELEMENT_SIZE :: nat where "MAX_SCRIPT_ELEMENT_SIZE = 520"
definition MAX_OPS_PER_SCRIPT :: int where "MAX_OPS_PER_SCRIPT = 201"
definition MAX_PUBKEYS_PER_MULTISIG :: int where "MAX_PUBKEYS_PER_MULTISIG = 20"
definition MAX_SCRIPT_SIZE :: nat where "MAX_SCRIPT_SIZE = 10000"
definition MAX_STACK_SIZE :: nat where "MAX_STACK_SIZE = 1000"
definition LOCKTIME_THRESHOLD :: int where "LOCKTIME_THRESHOLD = 500000000"

text \<open>The enumeration of the opcodes: its values are bytes and its names abbreviations of them.\<close>

type_synonym opcodetype = u8

abbreviation (input) OP_0 :: opcodetype where "OP_0 \<equiv> 0x00"
abbreviation (input) OP_FALSE :: opcodetype where "OP_FALSE \<equiv> 0x00"
abbreviation (input) OP_PUSHDATA1 :: opcodetype where "OP_PUSHDATA1 \<equiv> 0x4c"
abbreviation (input) OP_PUSHDATA2 :: opcodetype where "OP_PUSHDATA2 \<equiv> 0x4d"
abbreviation (input) OP_PUSHDATA4 :: opcodetype where "OP_PUSHDATA4 \<equiv> 0x4e"
abbreviation (input) OP_1NEGATE :: opcodetype where "OP_1NEGATE \<equiv> 0x4f"
abbreviation (input) OP_RESERVED :: opcodetype where "OP_RESERVED \<equiv> 0x50"
abbreviation (input) OP_1 :: opcodetype where "OP_1 \<equiv> 0x51"
abbreviation (input) OP_TRUE :: opcodetype where "OP_TRUE \<equiv> 0x51"
abbreviation (input) OP_2 :: opcodetype where "OP_2 \<equiv> 0x52"
abbreviation (input) OP_3 :: opcodetype where "OP_3 \<equiv> 0x53"
abbreviation (input) OP_4 :: opcodetype where "OP_4 \<equiv> 0x54"
abbreviation (input) OP_5 :: opcodetype where "OP_5 \<equiv> 0x55"
abbreviation (input) OP_6 :: opcodetype where "OP_6 \<equiv> 0x56"
abbreviation (input) OP_7 :: opcodetype where "OP_7 \<equiv> 0x57"
abbreviation (input) OP_8 :: opcodetype where "OP_8 \<equiv> 0x58"
abbreviation (input) OP_9 :: opcodetype where "OP_9 \<equiv> 0x59"
abbreviation (input) OP_10 :: opcodetype where "OP_10 \<equiv> 0x5a"
abbreviation (input) OP_11 :: opcodetype where "OP_11 \<equiv> 0x5b"
abbreviation (input) OP_12 :: opcodetype where "OP_12 \<equiv> 0x5c"
abbreviation (input) OP_13 :: opcodetype where "OP_13 \<equiv> 0x5d"
abbreviation (input) OP_14 :: opcodetype where "OP_14 \<equiv> 0x5e"
abbreviation (input) OP_15 :: opcodetype where "OP_15 \<equiv> 0x5f"
abbreviation (input) OP_16 :: opcodetype where "OP_16 \<equiv> 0x60"
abbreviation (input) OP_NOP :: opcodetype where "OP_NOP \<equiv> 0x61"
abbreviation (input) OP_VER :: opcodetype where "OP_VER \<equiv> 0x62"
abbreviation (input) OP_IF :: opcodetype where "OP_IF \<equiv> 0x63"
abbreviation (input) OP_NOTIF :: opcodetype where "OP_NOTIF \<equiv> 0x64"
abbreviation (input) OP_VERIF :: opcodetype where "OP_VERIF \<equiv> 0x65"
abbreviation (input) OP_VERNOTIF :: opcodetype where "OP_VERNOTIF \<equiv> 0x66"
abbreviation (input) OP_ELSE :: opcodetype where "OP_ELSE \<equiv> 0x67"
abbreviation (input) OP_ENDIF :: opcodetype where "OP_ENDIF \<equiv> 0x68"
abbreviation (input) OP_VERIFY :: opcodetype where "OP_VERIFY \<equiv> 0x69"
abbreviation (input) OP_RETURN :: opcodetype where "OP_RETURN \<equiv> 0x6a"
abbreviation (input) OP_TOALTSTACK :: opcodetype where "OP_TOALTSTACK \<equiv> 0x6b"
abbreviation (input) OP_FROMALTSTACK :: opcodetype where "OP_FROMALTSTACK \<equiv> 0x6c"
abbreviation (input) OP_2DROP :: opcodetype where "OP_2DROP \<equiv> 0x6d"
abbreviation (input) OP_2DUP :: opcodetype where "OP_2DUP \<equiv> 0x6e"
abbreviation (input) OP_3DUP :: opcodetype where "OP_3DUP \<equiv> 0x6f"
abbreviation (input) OP_2OVER :: opcodetype where "OP_2OVER \<equiv> 0x70"
abbreviation (input) OP_2ROT :: opcodetype where "OP_2ROT \<equiv> 0x71"
abbreviation (input) OP_2SWAP :: opcodetype where "OP_2SWAP \<equiv> 0x72"
abbreviation (input) OP_IFDUP :: opcodetype where "OP_IFDUP \<equiv> 0x73"
abbreviation (input) OP_DEPTH :: opcodetype where "OP_DEPTH \<equiv> 0x74"
abbreviation (input) OP_DROP :: opcodetype where "OP_DROP \<equiv> 0x75"
abbreviation (input) OP_DUP :: opcodetype where "OP_DUP \<equiv> 0x76"
abbreviation (input) OP_NIP :: opcodetype where "OP_NIP \<equiv> 0x77"
abbreviation (input) OP_OVER :: opcodetype where "OP_OVER \<equiv> 0x78"
abbreviation (input) OP_PICK :: opcodetype where "OP_PICK \<equiv> 0x79"
abbreviation (input) OP_ROLL :: opcodetype where "OP_ROLL \<equiv> 0x7a"
abbreviation (input) OP_ROT :: opcodetype where "OP_ROT \<equiv> 0x7b"
abbreviation (input) OP_SWAP :: opcodetype where "OP_SWAP \<equiv> 0x7c"
abbreviation (input) OP_TUCK :: opcodetype where "OP_TUCK \<equiv> 0x7d"
abbreviation (input) OP_CAT :: opcodetype where "OP_CAT \<equiv> 0x7e"
abbreviation (input) OP_SPLIT :: opcodetype where "OP_SPLIT \<equiv> 0x7f"
abbreviation (input) OP_SIZE :: opcodetype where "OP_SIZE \<equiv> 0x82"
abbreviation (input) OP_NUM2BIN :: opcodetype where "OP_NUM2BIN \<equiv> 0x80"
abbreviation (input) OP_BIN2NUM :: opcodetype where "OP_BIN2NUM \<equiv> 0x81"
abbreviation (input) OP_INVERT :: opcodetype where "OP_INVERT \<equiv> 0x83"
abbreviation (input) OP_AND :: opcodetype where "OP_AND \<equiv> 0x84"
abbreviation (input) OP_OR :: opcodetype where "OP_OR \<equiv> 0x85"
abbreviation (input) OP_XOR :: opcodetype where "OP_XOR \<equiv> 0x86"
abbreviation (input) OP_EQUAL :: opcodetype where "OP_EQUAL \<equiv> 0x87"
abbreviation (input) OP_EQUALVERIFY :: opcodetype where "OP_EQUALVERIFY \<equiv> 0x88"
abbreviation (input) OP_RESERVED1 :: opcodetype where "OP_RESERVED1 \<equiv> 0x89"
abbreviation (input) OP_RESERVED2 :: opcodetype where "OP_RESERVED2 \<equiv> 0x8a"
abbreviation (input) OP_1ADD :: opcodetype where "OP_1ADD \<equiv> 0x8b"
abbreviation (input) OP_1SUB :: opcodetype where "OP_1SUB \<equiv> 0x8c"
abbreviation (input) OP_2MUL :: opcodetype where "OP_2MUL \<equiv> 0x8d"
abbreviation (input) OP_2DIV :: opcodetype where "OP_2DIV \<equiv> 0x8e"
abbreviation (input) OP_NEGATE :: opcodetype where "OP_NEGATE \<equiv> 0x8f"
abbreviation (input) OP_ABS :: opcodetype where "OP_ABS \<equiv> 0x90"
abbreviation (input) OP_NOT :: opcodetype where "OP_NOT \<equiv> 0x91"
abbreviation (input) OP_0NOTEQUAL :: opcodetype where "OP_0NOTEQUAL \<equiv> 0x92"
abbreviation (input) OP_ADD :: opcodetype where "OP_ADD \<equiv> 0x93"
abbreviation (input) OP_SUB :: opcodetype where "OP_SUB \<equiv> 0x94"
abbreviation (input) OP_MUL :: opcodetype where "OP_MUL \<equiv> 0x95"
abbreviation (input) OP_DIV :: opcodetype where "OP_DIV \<equiv> 0x96"
abbreviation (input) OP_MOD :: opcodetype where "OP_MOD \<equiv> 0x97"
abbreviation (input) OP_LSHIFT :: opcodetype where "OP_LSHIFT \<equiv> 0x98"
abbreviation (input) OP_RSHIFT :: opcodetype where "OP_RSHIFT \<equiv> 0x99"
abbreviation (input) OP_BOOLAND :: opcodetype where "OP_BOOLAND \<equiv> 0x9a"
abbreviation (input) OP_BOOLOR :: opcodetype where "OP_BOOLOR \<equiv> 0x9b"
abbreviation (input) OP_NUMEQUAL :: opcodetype where "OP_NUMEQUAL \<equiv> 0x9c"
abbreviation (input) OP_NUMEQUALVERIFY :: opcodetype where "OP_NUMEQUALVERIFY \<equiv> 0x9d"
abbreviation (input) OP_NUMNOTEQUAL :: opcodetype where "OP_NUMNOTEQUAL \<equiv> 0x9e"
abbreviation (input) OP_LESSTHAN :: opcodetype where "OP_LESSTHAN \<equiv> 0x9f"
abbreviation (input) OP_GREATERTHAN :: opcodetype where "OP_GREATERTHAN \<equiv> 0xa0"
abbreviation (input) OP_LESSTHANOREQUAL :: opcodetype where "OP_LESSTHANOREQUAL \<equiv> 0xa1"
abbreviation (input) OP_GREATERTHANOREQUAL :: opcodetype where "OP_GREATERTHANOREQUAL \<equiv> 0xa2"
abbreviation (input) OP_MIN :: opcodetype where "OP_MIN \<equiv> 0xa3"
abbreviation (input) OP_MAX :: opcodetype where "OP_MAX \<equiv> 0xa4"
abbreviation (input) OP_WITHIN :: opcodetype where "OP_WITHIN \<equiv> 0xa5"
abbreviation (input) OP_RIPEMD160 :: opcodetype where "OP_RIPEMD160 \<equiv> 0xa6"
abbreviation (input) OP_SHA1 :: opcodetype where "OP_SHA1 \<equiv> 0xa7"
abbreviation (input) OP_SHA256 :: opcodetype where "OP_SHA256 \<equiv> 0xa8"
abbreviation (input) OP_HASH160 :: opcodetype where "OP_HASH160 \<equiv> 0xa9"
abbreviation (input) OP_HASH256 :: opcodetype where "OP_HASH256 \<equiv> 0xaa"
abbreviation (input) OP_CODESEPARATOR :: opcodetype where "OP_CODESEPARATOR \<equiv> 0xab"
abbreviation (input) OP_CHECKSIG :: opcodetype where "OP_CHECKSIG \<equiv> 0xac"
abbreviation (input) OP_CHECKSIGVERIFY :: opcodetype where "OP_CHECKSIGVERIFY \<equiv> 0xad"
abbreviation (input) OP_CHECKMULTISIG :: opcodetype where "OP_CHECKMULTISIG \<equiv> 0xae"
abbreviation (input) OP_CHECKMULTISIGVERIFY :: opcodetype where "OP_CHECKMULTISIGVERIFY \<equiv> 0xaf"
abbreviation (input) OP_NOP1 :: opcodetype where "OP_NOP1 \<equiv> 0xb0"
abbreviation (input) OP_CHECKLOCKTIMEVERIFY :: opcodetype where "OP_CHECKLOCKTIMEVERIFY \<equiv> 0xb1"
abbreviation (input) OP_NOP2 :: opcodetype where "OP_NOP2 \<equiv> 0xb1"
abbreviation (input) OP_CHECKSEQUENCEVERIFY :: opcodetype where "OP_CHECKSEQUENCEVERIFY \<equiv> 0xb2"
abbreviation (input) OP_NOP3 :: opcodetype where "OP_NOP3 \<equiv> 0xb2"
abbreviation (input) OP_NOP4 :: opcodetype where "OP_NOP4 \<equiv> 0xb3"
abbreviation (input) OP_NOP5 :: opcodetype where "OP_NOP5 \<equiv> 0xb4"
abbreviation (input) OP_NOP6 :: opcodetype where "OP_NOP6 \<equiv> 0xb5"
abbreviation (input) OP_NOP7 :: opcodetype where "OP_NOP7 \<equiv> 0xb6"
abbreviation (input) OP_NOP8 :: opcodetype where "OP_NOP8 \<equiv> 0xb7"
abbreviation (input) OP_NOP9 :: opcodetype where "OP_NOP9 \<equiv> 0xb8"
abbreviation (input) OP_NOP10 :: opcodetype where "OP_NOP10 \<equiv> 0xb9"
abbreviation (input) OP_CHECKDATASIG :: opcodetype where "OP_CHECKDATASIG \<equiv> 0xba"
abbreviation (input) OP_CHECKDATASIGVERIFY :: opcodetype where "OP_CHECKDATASIGVERIFY \<equiv> 0xbb"
abbreviation (input) OP_INVALIDOPCODE :: opcodetype where "OP_INVALIDOPCODE \<equiv> 0xff"

subsection \<open>Reading instructions\<close>

text \<open>
  \<open>GetScriptOp\<close> returns whether an instruction was read, its opcode, its immediate data, and the iterator,
  which has moved past the bytes that were looked at also where it fails.
\<close>

definition read_push_size :: "u8 \<Rightarrow> bytes \<Rightarrow> (nat \<times> bytes) option" where
  "read_push_size opcode pc =
     (if opcode < OP_PUSHDATA1 then Some (unat opcode, pc)
      else if opcode = OP_PUSHDATA1 then
        (if length pc < 1 then None else Some (unat (pc ! 0), drop 1 pc))
      else if opcode = OP_PUSHDATA2 then
        (if length pc < 2 then None else Some (le_value (take 2 pc), drop 2 pc))
      else
        (if length pc < 4 then None else Some (le_value (take 4 pc), drop 4 pc)))"

fun GetScriptOp :: "bytes \<Rightarrow> bool \<times> u8 \<times> bytes \<times> bytes" where
  "GetScriptOp [] = (False, OP_INVALIDOPCODE, [], [])"
| "GetScriptOp (opcode # pc) =
     (if opcode \<le> OP_PUSHDATA4 then
        (case read_push_size opcode pc of
           None \<Rightarrow> (False, OP_INVALIDOPCODE, [], pc)
         | Some (nSize, pc) \<Rightarrow>
             if length pc < nSize then (False, OP_INVALIDOPCODE, [], pc)
             else (True, opcode, take nSize pc, drop nSize pc))
      else (True, opcode, [], pc))"

text \<open>A successful read moves the iterator: the loops over the instructions of a script end.\<close>

lemma read_push_size_length: "read_push_size opcode pc = Some (n, pc') \<Longrightarrow> length pc' \<le> length pc"
  by (auto simp: read_push_size_def split: if_splits)

lemma GetScriptOp_length: "GetScriptOp pc = (True, opcode, data, pc') \<Longrightarrow> length pc' < length pc"
  by (cases pc) (auto simp: le_imp_less_Suc split: if_splits option.splits prod.splits dest!: read_push_size_length)

subsection \<open>Building scripts\<close>

definition push_data :: "bytes \<Rightarrow> CScript" where
  "push_data b =
     (if length b < unat OP_PUSHDATA1 then [of_nat (length b)] @ b
      else if length b \<le> 0xff then [OP_PUSHDATA1, of_nat (length b)] @ b
      else if length b \<le> 0xffff then [OP_PUSHDATA2] @ le_bytes 2 (length b) @ b
      else [OP_PUSHDATA4] @ le_bytes 4 (length b) @ b)"

subsection \<open>Script numbers\<close>

function abs_bytes :: "nat \<Rightarrow> bytes" where
  "abs_bytes absvalue = (if absvalue = 0 then [] else of_nat absvalue # abs_bytes (absvalue div 256))"
  by pat_completeness auto
termination
  by (relation "measure id") auto

declare abs_bytes.simps [simp del]

definition scriptnum_serialize :: "int \<Rightarrow> bytes" where
  "scriptnum_serialize n =
     (if n = 0 then []
      else let neg = n < 0; result = abs_bytes (nat (if neg then - n else n))
           in if last result AND 0x80 \<noteq> 0 then result @ [if neg then 0x80 else 0]
              else if neg then butlast result @ [last result OR 0x80]
              else result)"

definition set_vch :: "bytes \<Rightarrow> int" where
  "set_vch vch =
     (if vch = [] then 0
      else let result = fold (\<lambda>i r. r OR push_bit (8 * i) (ucast (vch ! i))) [0..<length vch] (0 :: u64)
           in if last vch AND 0x80 \<noteq> 0
              then - sint (result AND NOT (push_bit (8 * (length vch - 1)) 0x80))
              else sint result)"

definition IsMinimallyEncoded :: "bytes \<Rightarrow> nat \<Rightarrow> bool" where
  "IsMinimallyEncoded vch nMaxNumSize =
     (if length vch > nMaxNumSize then False
      else if length vch > 0 \<and> last vch AND 0x7f = 0 \<and>
              (length vch \<le> 1 \<or> vch ! (length vch - 2) AND 0x80 = 0) then False
      else True)"

text \<open>\<open>None\<close> is the exception \<open>scriptnum_error\<close>.\<close>

definition CScriptNum :: "bytes \<Rightarrow> bool \<Rightarrow> nat \<Rightarrow> int option" where
  "CScriptNum vch fRequireMinimal nMaxNumSize =
     (if length vch > nMaxNumSize then None
      else if fRequireMinimal \<and> \<not> IsMinimallyEncoded vch nMaxNumSize then None
      else Some (set_vch vch))"

definition getint :: "int \<Rightarrow> int" where
  "getint m_value = (if m_value > 2 ^ 31 - 1 then 2 ^ 31 - 1 else if m_value < - (2 ^ 31) then - (2 ^ 31) else m_value)"

fun minimally_loop :: "bytes \<Rightarrow> u8 \<Rightarrow> nat \<Rightarrow> bytes" where
  "minimally_loop data lst 0 = []"
| "minimally_loop data lst (Suc i) =
     (if data ! i \<noteq> 0
      then (if data ! i AND 0x80 \<noteq> 0 then take (Suc (Suc i)) (data[Suc i := lst])
            else take (Suc i) (data[i := data ! i OR lst]))
      else minimally_loop data lst i)"

definition MinimallyEncode :: "bytes \<Rightarrow> bool \<times> bytes" where
  "MinimallyEncode data =
     (if length data = 0 then (False, data)
      else let lst = last data
           in if lst AND 0x7f \<noteq> 0 then (False, data)
              else if length data = 1 then (True, [])
              else if data ! (length data - 2) AND 0x80 \<noteq> 0 then (False, data)
              else (True, minimally_loop data lst (length data - 1)))"

definition push_int64 :: "CScript \<Rightarrow> int \<Rightarrow> CScript" where
  "push_int64 script n =
     (if n = - 1 \<or> n \<ge> 1 \<and> n \<le> 16 then script @ [word_of_int (n + 80)]
      else if n = 0 then script @ [OP_0]
      else script @ push_data (scriptnum_serialize n))"

subsection \<open>Classifying scripts\<close>

text \<open>\<open>None\<close> is the failed assertion.\<close>

definition DecodeOP_N :: "u8 \<Rightarrow> int option" where
  "DecodeOP_N opcode =
     (if opcode = OP_0 then Some 0
      else if \<not> (opcode \<ge> OP_1 \<and> opcode \<le> OP_16) then None
      else Some (uint opcode - 80))"

definition EncodeOP_N :: "int \<Rightarrow> u8 option" where
  "EncodeOP_N n = (if \<not> (n \<ge> 0 \<and> n \<le> 16) then None else if n = 0 then Some OP_0 else Some (word_of_int (81 + n - 1)))"

function sigop_loop :: "bool \<Rightarrow> u8 \<Rightarrow> int \<Rightarrow> bytes \<Rightarrow> int" where
  "sigop_loop fAccurate lastOpcode n pc =
     (case GetScriptOp pc of
        (True, opcode, data, pc') \<Rightarrow>
          sigop_loop fAccurate opcode
            (if opcode = OP_CHECKSIG \<or> opcode = OP_CHECKSIGVERIFY then n + 1
             else if opcode = OP_CHECKMULTISIG \<or> opcode = OP_CHECKMULTISIGVERIFY then
               (if fAccurate \<and> lastOpcode \<ge> OP_1 \<and> lastOpcode \<le> OP_16
                then n + (case DecodeOP_N lastOpcode of Some k \<Rightarrow> k | None \<Rightarrow> 0)
                else n + MAX_PUBKEYS_PER_MULTISIG)
             else n) pc'
      | (False, _) \<Rightarrow> n)"
  by pat_completeness auto
termination
  by (relation "measure (\<lambda>(f, l, n, pc). length pc)") (auto dest: GetScriptOp_length sym)

declare sigop_loop.simps [simp del]

definition GetSigOpCount :: "CScript \<Rightarrow> bool \<Rightarrow> int" where
  "GetSigOpCount script fAccurate = sigop_loop fAccurate OP_INVALIDOPCODE 0 script"

definition IsPayToPublicKeyHash :: "CScript \<Rightarrow> bool" where
  "IsPayToPublicKeyHash s \<longleftrightarrow> length s = 25 \<and> s ! 0 = OP_DUP \<and> s ! 1 = OP_HASH160 \<and> s ! 2 = 0x14 \<and>
     s ! 23 = OP_EQUALVERIFY \<and> s ! 24 = OP_CHECKSIG"

definition IsPayToScriptHash :: "CScript \<Rightarrow> bool" where
  "IsPayToScriptHash s \<longleftrightarrow> length s = 23 \<and> s ! 0 = OP_HASH160 \<and> s ! 1 = 0x14 \<and> s ! 22 = OP_EQUAL"

definition IsPayToPublicKey :: "CScript \<Rightarrow> bool" where
  "IsPayToPublicKey s =
     (if length s = 35 then (s ! 1 = 0x02 \<or> s ! 1 = 0x03) \<and> s ! 34 = OP_CHECKSIG
      else if length s = 67 then s ! 1 = 0x04 \<and> s ! 66 = OP_CHECKSIG
      else False)"

definition IsUnspendable :: "CScript \<Rightarrow> bool" where
  "IsUnspendable script \<longleftrightarrow> length script > 0 \<and> script ! 0 = OP_RETURN \<or> length script > MAX_SCRIPT_SIZE"

function IsPushOnly :: "CScript \<Rightarrow> bool" where
  "IsPushOnly pc =
     (if pc = [] then True
      else case GetScriptOp pc of
        (True, opcode, data, pc') \<Rightarrow> if opcode > OP_16 then False else IsPushOnly pc'
      | (False, _) \<Rightarrow> False)"
  by pat_completeness auto
termination
  by (relation "measure length") (auto dest: GetScriptOp_length sym)

declare IsPushOnly.simps [simp del]

text \<open>The data of the last push of a script of pushes, or nothing where it is not one.\<close>

function last_push :: "bytes \<Rightarrow> bytes \<Rightarrow> bytes option" where
  "last_push vData pc =
     (if pc = [] then Some vData
      else case GetScriptOp pc of
        (True, opcode, data, pc') \<Rightarrow> if opcode > OP_16 then None else last_push data pc'
      | (False, _) \<Rightarrow> None)"
  by pat_completeness auto
termination
  by (relation "measure (\<lambda>(v, pc). length pc)") (auto dest: GetScriptOp_length sym)

declare last_push.simps [simp del]

definition GetSigOpCountP2SH :: "CScript \<Rightarrow> CScript \<Rightarrow> int" where
  "GetSigOpCountP2SH script sig =
     (if \<not> IsPayToScriptHash script then GetSigOpCount script True
      else case last_push [] sig of None \<Rightarrow> 0 | Some vData \<Rightarrow> GetSigOpCount vData True)"

subsection \<open>Bytes as sign and magnitude\<close>

lemma unat_u8: "unat (x :: u8) < 256"
  using unsigned_less [of x, where 'a = nat] by simp

lemma and_7f: "unat (x AND (0x7f :: u8)) = unat x mod 128"
proof -
  have "x AND 0x7f = take_bit 7 x"
    unfolding word_127 by (simp add: take_bit_eq_mask)
  then show ?thesis
    by (simp add: unsigned_take_bit_eq take_bit_eq_mod unat_mod)
qed

lemma and_7f_eq_0: "x AND (0x7f :: u8) = 0 \<longleftrightarrow> unat x mod 128 = 0"
  unfolding word_unat_eq_iff and_7f by simp

lemma bit_7_iff: "bit (x :: u8) 7 \<longleftrightarrow> 128 \<le> unat x"
proof -
  have "bit x 7 \<longleftrightarrow> odd (unat x div 128)"
    using bit_unsigned_iff [of x 7, where 'a = nat] by (simp add: bit_iff_odd)
  moreover have "unat x div 128 = (if 128 \<le> unat x then 1 else 0)"
    using unat_u8 [of x] by auto
  ultimately show ?thesis
    by auto
qed

lemma and_80_eq_0: "x AND (0x80 :: u8) = 0 \<longleftrightarrow> unat x < 128"
  by (simp add: and_128 bit_7_iff)

lemma unat_or_80: "unat x < 128 \<Longrightarrow> unat (x OR (0x80 :: u8)) = unat x + 128"
proof -
  assume a: "unat x < 128"
  then have "x OR 0x80 = x + 0x80"
    using and_80_eq_0 [of x] by (intro disjunctive_add_eq_or [symmetric]) simp
  then show ?thesis
    using a by (simp add: unat_word_ariths)
qed

lemma le_value_append: "le_value (a @ b) = le_value a + 256 ^ length a * le_value b"
  by (induction a) (simp_all add: algebra_simps)

lemma le_value_snoc: "le_value (a @ [b]) = le_value a + 256 ^ length a * unat b"
  by (simp add: le_value_append)

text \<open>The integer a byte vector stands for, of any length.\<close>

definition num_val :: "bytes \<Rightarrow> int" where
  "num_val vch =
     (if vch = [] then 0
      else let m = int (le_value (butlast vch) + 256 ^ (length vch - 1) * (unat (last vch) mod 128))
           in if 128 \<le> unat (last vch) then - m else m)"

lemma num_val_Nil [simp]: "num_val [] = 0"
  by (simp add: num_val_def)

lemma num_val_snoc:
  "num_val (a @ [b]) = (if 128 \<le> unat b then - 1 else 1) * int (le_value a + 256 ^ length a * (unat b mod 128))"
  by (simp add: num_val_def Let_def)

lemma le_value_abs_bytes: "le_value (abs_bytes n) = n"
proof (induction n rule: abs_bytes.induct)
  case (1 n)
  then show ?case
    by (subst abs_bytes.simps) (simp add: unat_of_nat)
qed

lemma abs_bytes_not_Nil: "n \<noteq> 0 \<Longrightarrow> abs_bytes n \<noteq> []"
  by (subst abs_bytes.simps) simp

lemma last_abs_bytes: "n \<noteq> 0 \<Longrightarrow> last (abs_bytes n) \<noteq> 0"
proof (induction n rule: abs_bytes.induct)
  case (1 n)
  show ?case
  proof (cases "n div 256 = 0")
    case True
    then have "unat (of_nat n :: u8) = n"
      by (simp add: unat_of_nat div_eq_0_iff)
    then show ?thesis
      using 1 True by (subst abs_bytes.simps) (auto simp: abs_bytes.simps word_unat_eq_iff)
  next
    case False
    then show ?thesis
      using 1 abs_bytes_not_Nil [OF False] by (subst abs_bytes.simps) simp
  qed
qed

lemma abs_bytes_le_value: "bs = [] \<or> last bs \<noteq> 0 \<Longrightarrow> abs_bytes (le_value bs) = bs"
proof (induction bs)
  case (Cons b bs)
  have nz: "le_value (b # bs) \<noteq> 0"
  proof
    assume z: "le_value (b # bs) = 0"
    have "\<forall>x \<in> set cs. x = 0" if "le_value cs = 0" for cs
      using that by (induction cs) (auto simp: unat_eq_0)
    then have "last (b # bs) = 0"
      using z by (metis last_in_set list.distinct(1))
    then show False
      using Cons.prems by simp
  qed
  have "le_value (b # bs) div 256 = le_value bs"
    using unat_u8 [of b] by simp
  moreover have "(of_nat (le_value (b # bs)) :: u8) = b"
    using le_bytes_le_value [of "b # bs"] by simp
  moreover have "abs_bytes (le_value bs) = bs"
    using Cons by (cases bs) simp_all
  ultimately show ?case
    using nz by (subst abs_bytes.simps) (simp only: if_False)
qed (simp add: abs_bytes.simps)

lemma length_abs_bytes: "n < 256 ^ k \<Longrightarrow> length (abs_bytes n) \<le> k"
proof (induction k arbitrary: n)
  case (Suc k)
  then have "n div 256 < 256 ^ k"
    by (simp add: less_mult_imp_div_less mult.commute)
  then show ?case
    using Suc.IH by (subst abs_bytes.simps) simp
qed (simp add: abs_bytes.simps)

subsection \<open>Script numbers\<close>

lemma snoc_cases: "xs \<noteq> [] \<Longrightarrow> xs = butlast xs @ [last xs]"
  by simp

lemma num_val_serialize: "num_val (scriptnum_serialize n) = n"
proof (cases "n = 0")
  case False
  define r where "r = abs_bytes (nat \<bar>n\<bar>)"
  have ne: "r \<noteq> []" and l: "last r \<noteq> 0" and v: "int (le_value r) = \<bar>n\<bar>"
    using False abs_bytes_not_Nil [of "nat \<bar>n\<bar>"] last_abs_bytes [of "nat \<bar>n\<bar>"]
    by (simp_all add: r_def le_value_abs_bytes)
  have split: "le_value r = le_value (butlast r) + 256 ^ (length r - 1) * unat (last r)"
    using le_value_snoc [of "butlast r" "last r"] ne by simp
  have s: "scriptnum_serialize n =
      (if 128 \<le> unat (last r) then r @ [if n < 0 then 0x80 else 0]
       else if n < 0 then butlast r @ [last r OR 0x80] else r)"
    using False and_80_eq_0 [of "last r"] by (auto simp: scriptnum_serialize_def r_def Let_def abs_if)
  show ?thesis
  proof (cases "128 \<le> unat (last r)")
    case True
    then show ?thesis
      using v by (simp add: s num_val_snoc)
  next
    case small: False
    show ?thesis
    proof (cases "n < 0")
      case True
      then show ?thesis
        using small v split by (simp add: s num_val_snoc unat_or_80)
    next
      case False
      then have "num_val r = int (le_value r)"
        using small ne split by (simp add: num_val_def Let_def)
      then show ?thesis
        using small False v by (simp add: s)
    qed
  qed
qed (simp add: scriptnum_serialize_def)

definition minimal :: "bytes \<Rightarrow> bool" where
  "minimal vch \<longleftrightarrow> IsMinimallyEncoded vch (length vch)"

lemma IsMinimallyEncoded_iff: "IsMinimallyEncoded vch k \<longleftrightarrow> minimal vch \<and> length vch \<le> k"
  by (auto simp: minimal_def IsMinimallyEncoded_def)

lemma minimal_Nil [simp]: "minimal []"
  by (simp add: minimal_def IsMinimallyEncoded_def)

lemma minimal_snoc: "minimal (a @ [b]) \<longleftrightarrow> unat b mod 128 \<noteq> 0 \<or> a \<noteq> [] \<and> 128 \<le> unat (last a)"
proof -
  have "a \<noteq> [] \<Longrightarrow> (a @ [b]) ! (length a - 1) = last a"
    by (simp add: nth_append last_conv_nth)
  then show ?thesis
    by (cases a) (auto simp: minimal_def IsMinimallyEncoded_def and_7f_eq_0 and_80_eq_0)
qed

lemma byte_split: "unat (b :: u8) = unat b mod 128 + (if 128 \<le> unat b then 128 else 0)"
  using unat_u8 [of b] by (auto simp: le_mod_geq)

lemma serialize_eq:
  assumes "n \<noteq> 0" "abs_bytes (nat \<bar>n\<bar>) = r"
  shows "scriptnum_serialize n =
      (if 128 \<le> unat (last r) then r @ [if n < 0 then 0x80 else 0]
       else if n < 0 then butlast r @ [last r OR 0x80] else r)"
  using assms and_80_eq_0 [of "last r"] by (auto simp: scriptnum_serialize_def Let_def abs_if)

lemma minimal_serialize: "minimal (scriptnum_serialize n)"
proof (cases "n = 0")
  case False
  let ?r = "abs_bytes (nat \<bar>n\<bar>)"
  have ne: "?r \<noteq> []" and l: "unat (last ?r) \<noteq> 0"
    using False abs_bytes_not_Nil [of "nat \<bar>n\<bar>"] last_abs_bytes [of "nat \<bar>n\<bar>"] by (simp_all add: unat_eq_0)
  have "minimal ?r" if "unat (last ?r) < 128"
    using minimal_snoc [of "butlast ?r" "last ?r"] that l ne by simp
  then show ?thesis
    using ne l by (auto simp: serialize_eq [OF False refl] minimal_snoc unat_or_80)
qed (simp add: scriptnum_serialize_def)

lemma serialize_num_val:
  assumes "minimal vch"
  shows "scriptnum_serialize (num_val vch) = vch"
proof (cases "vch = []")
  case True
  then show ?thesis
    by (simp add: scriptnum_serialize_def)
next
  case False
  define a b where "a = butlast vch" and "b = last vch"
  have v: "vch = a @ [b]"
    using False by (simp add: a_def b_def)
  let ?m = "le_value a + 256 ^ length a * (unat b mod 128)"
  have num: "num_val vch = (if 128 \<le> unat b then - 1 else 1) * int ?m"
    by (simp add: v num_val_snoc)
  have n: "nat \<bar>num_val vch\<bar> = ?m" "?m \<noteq> 0 \<Longrightarrow> num_val vch \<noteq> 0" "?m \<noteq> 0 \<Longrightarrow> num_val vch < 0 \<longleftrightarrow> 128 \<le> unat b"
    unfolding num by (auto simp del: of_nat_add)
  show ?thesis
  proof (cases "unat b mod 128 = 0")
    case False
    define c :: u8 where "c = of_nat (unat b mod 128)"
    have c: "unat c = unat b mod 128"
      by (simp add: c_def unat_of_nat)
    have "le_value (a @ [c]) = ?m"
      by (simp add: le_value_snoc c)
    moreover have "c \<noteq> 0"
      using False c by auto
    ultimately have r: "abs_bytes ?m = a @ [c]"
      using abs_bytes_le_value [of "a @ [c]"] by simp
    have nz: "?m \<noteq> 0"
      using False by simp
    have "unat c < 128"
      by (simp add: c)
    moreover have "c OR 0x80 = b" if "128 \<le> unat b"
      using that byte_split [of b] unat_or_80 [OF \<open>unat c < 128\<close>] c by (simp add: word_unat_eq_iff)
    moreover have "c = b" if "\<not> 128 \<le> unat b"
      using that byte_split [of b] c by (simp add: word_unat_eq_iff)
    ultimately show ?thesis
      using serialize_eq [of "num_val vch" "a @ [c]"] n(2,3) [OF nz] r unfolding n(1) by (auto simp: v)
  next
    case True
    then have a: "a \<noteq> []" "128 \<le> unat (last a)"
      using assms minimal_snoc [of a b] by (auto simp: v)
    then have "last a \<noteq> 0"
      by auto
    then have r: "abs_bytes ?m = a"
      using abs_bytes_le_value [of a] True by simp
    then have nz: "?m \<noteq> 0"
      using a(1) by (intro notI) (simp only: abs_bytes.simps [of 0], simp)
    have "b = (if 128 \<le> unat b then 0x80 else 0)"
      using byte_split [of b] True by (auto simp: word_unat_eq_iff)
    then show ?thesis
      using serialize_eq [of "num_val vch" a] n(2,3) [OF nz] r a unfolding n(1) by (auto simp: v)
  qed
qed

lemma length_serialize: "\<bar>n\<bar> < 2 ^ (8 * k + 7) \<Longrightarrow> length (scriptnum_serialize n) \<le> k + 1"
proof (cases "n = 0")
  case False
  assume a: "\<bar>n\<bar> < 2 ^ (8 * k + 7)"
  let ?r = "abs_bytes (nat \<bar>n\<bar>)"
  have ne: "?r \<noteq> []"
    using False abs_bytes_not_Nil [of "nat \<bar>n\<bar>"] by simp
  have l: "length ?r \<le> k + 1"
  proof (rule length_abs_bytes)
    have "\<bar>n\<bar> < 2 ^ (8 * (k + 1))"
      using a by (rule less_trans) (simp add: power_add)
    then have "nat \<bar>n\<bar> < 2 ^ (8 * (k + 1))"
      by (simp add: nat_less_iff)
    then show "nat \<bar>n\<bar> < 256 ^ (k + 1)"
      unfolding power_mult by simp
  qed
  have "length ?r \<le> k" if "128 \<le> unat (last ?r)"
  proof (rule ccontr)
    assume "\<not> length ?r \<le> k"
    then have "length (butlast ?r) = k"
      using l by simp
    then have "nat \<bar>n\<bar> = le_value (butlast ?r) + 256 ^ k * unat (last ?r)"
      using le_value_snoc [of "butlast ?r" "last ?r"] ne le_value_abs_bytes [of "nat \<bar>n\<bar>"] by simp
    moreover have "256 ^ k * 128 \<le> 256 ^ k * unat (last ?r)"
      using that by simp
    ultimately have "256 ^ k * 128 \<le> nat \<bar>n\<bar>"
      by linarith
    moreover have "nat \<bar>n\<bar> < 2 ^ (8 * k + 7)"
      using a by (simp add: nat_less_iff)
    ultimately show False
      by (simp add: power_add power_mult)
  qed
  then show ?thesis
    using l ne by (auto simp: serialize_eq [OF False refl])
qed (simp add: scriptnum_serialize_def)

lemma two_power_8: "(2 :: 'a::comm_semiring_1) ^ (8 * k) = 256 ^ k"
  unfolding power_mult by simp

lemma or_push_bit_add:
  assumes "x < 2 ^ (8 * k)" "8 * k < 64"
  shows "(of_nat x :: u64) OR push_bit (8 * k) (ucast (b :: u8)) = of_nat (x + 256 ^ k * unat b)"
proof -
  have x: "unat (of_nat x :: u64) = x"
  proof -
    have "(2::nat) ^ (8 * k) \<le> 2 ^ 64"
      using assms(2) by (intro power_increasing) simp_all
    then show ?thesis
      using assms(1) by (simp add: unsigned_of_nat take_bit_eq_mod)
  qed
  have "\<not> bit (of_nat x :: u64) i" if "8 * k \<le> i" for i
  proof -
    have "x < 2 ^ i"
      using assms(1) that by (meson less_le_trans one_le_numeral power_increasing)
    then have "\<not> bit x i"
      by (simp add: bit_iff_odd)
    then show ?thesis
      by (simp add: bit_simps)
  qed
  then have "(of_nat x :: u64) AND push_bit (8 * k) (ucast b) = 0"
    by (intro bit_word_eqI) (auto simp: bit_and_iff bit_push_bit_iff)
  from disjunctive_add_eq_or [OF this] have e: "(of_nat x :: u64) OR push_bit (8 * k) (ucast b) = of_nat x + push_bit (8 * k) (ucast b)"
    by simp
  have p: "push_bit (8 * k) (ucast b :: u64) = of_nat (256 ^ k * unat b)"
    by (simp only: push_bit_eq_mult two_power_8) (simp add: mult.commute)
  show ?thesis
    unfolding e by (simp only: p of_nat_add)
qed

lemma set_vch_fold:
  assumes "length vch \<le> 8" "k \<le> length vch"
  shows "fold (\<lambda>i r. r OR push_bit (8 * i) (ucast (vch ! i))) [0..<k] (0 :: u64) = of_nat (le_value (take k vch))"
  using assms(2)
proof (induction k)
  case (Suc k)
  have t: "take (Suc k) vch = take k vch @ [vch ! k]"
    using Suc.prems by (simp add: take_Suc_conv_app_nth)
  have "le_value (take k vch) < 2 ^ (8 * k)"
    using le_value_less [of "take k vch"] Suc.prems by (simp add: power_mult)
  moreover have "8 * k < 64"
    using Suc.prems assms(1) by simp
  ultimately show ?case
    using Suc or_push_bit_add [of "le_value (take k vch)" k "vch ! k"] by (simp add: t le_value_snoc)
qed simp

lemma sint_of_nat_small: "n < 2 ^ 63 \<Longrightarrow> sint (of_nat n :: u64) = int n"
  using sint_word_of_int64 [of "int n"] by simp

lemma set_vch_num_val:
  assumes "length vch \<le> 7"
  shows "set_vch vch = num_val vch"
proof (cases "vch = []")
  case False
  define a b where "a = butlast vch" and "b = last vch"
  have v: "vch = a @ [b]"
    using False by (simp add: a_def b_def)
  have la: "length a \<le> 6"
    using assms by (simp add: v)
  have r: "fold (\<lambda>i r. r OR push_bit (8 * i) (ucast (vch ! i))) [0..<length vch] (0 :: u64) = of_nat (le_value vch)"
    using set_vch_fold [of vch "length vch"] assms by simp
  have "le_value vch < 256 ^ 7"
    using le_value_less [of vch] assms by (meson less_le_trans one_le_numeral power_increasing)
  then have small: "le_value vch < 2 ^ 63"
    by simp
  have val: "le_value vch = le_value a + 256 ^ length a * unat b"
    by (simp add: v le_value_snoc)
  show ?thesis
  proof (cases "128 \<le> unat b")
    case True
    let ?m = "push_bit (8 * length a) 0x80 :: u64"
    have m: "?m = of_nat (256 ^ length a * 128)"
      by (simp only: push_bit_eq_mult two_power_8) (simp add: mult.commute)
    define y where "y = le_value a + 256 ^ length a * (unat b mod 128)"
    have sum: "(of_nat (le_value vch) :: u64) = of_nat y + ?m"
    proof -
      have "256 ^ length a * unat b = 256 ^ length a * (unat b mod 128 + 128)"
        using byte_split [of b] True by simp
      then have "le_value vch = y + 256 ^ length a * 128"
        unfolding val y_def by (simp add: distrib_left)
      then show ?thesis
        unfolding m by (simp only: of_nat_add)
    qed
    have "\<not> bit (of_nat y :: u64) i" if "8 * length a + 7 \<le> i" for i
    proof -
      have "y < 2 ^ (8 * length a + 7)"
      proof -
        have "256 ^ length a * (unat b mod 128) \<le> 256 ^ length a * 127"
          by (intro mult_le_mono2) (simp flip: less_Suc_eq_le)
        moreover have "le_value a < 256 ^ length a"
          by (rule le_value_less)
        ultimately have "y < 256 ^ length a * 128"
          unfolding y_def by linarith
        then show ?thesis
          by (simp add: power_add two_power_8)
      qed
      then have "y < 2 ^ i"
        using that by (meson less_le_trans one_le_numeral power_increasing)
      then have "\<not> bit y i"
        by (simp add: bit_iff_odd)
      then show ?thesis
        by (simp add: bit_simps)
    qed
    moreover have "?m = push_bit (8 * length a) (push_bit 7 1)"
      by simp
    then have pm: "?m = push_bit (8 * length a + 7) 1"
      by (simp only: push_bit_push_bit)
    ultimately have dis: "of_nat y AND ?m = 0" and undo: "(of_nat y OR ?m) AND NOT ?m = of_nat y"
      unfolding pm by (auto intro!: bit_word_eqI simp: bit_and_iff bit_or_iff bit_not_iff bit_exp_iff)
    have "of_nat (le_value vch) AND NOT ?m = (of_nat y :: u64)"
      unfolding sum disjunctive_add_eq_or [OF dis] by (rule undo)
    moreover have "y \<le> le_value vch"
      unfolding y_def val by simp
    then have "sint (of_nat y :: u64) = int y"
      using small by (intro sint_of_nat_small) simp
    ultimately show ?thesis
      using True r False and_80_eq_0 [of b] by (simp add: set_vch_def v num_val_snoc y_def Let_def)
  next
    case False
    then have "unat b mod 128 = unat b"
      by simp
    then show ?thesis
      using False r \<open>vch \<noteq> []\<close> and_80_eq_0 [of b] val sint_of_nat_small [OF small]
      by (simp add: set_vch_def v num_val_snoc Let_def)
  qed
qed (simp add: set_vch_def)

lemma num_val_bound: "length vch \<le> k + 1 \<Longrightarrow> \<bar>num_val vch\<bar> < 2 ^ (8 * k + 7)"
proof (cases "vch = []")
  case False
  assume l: "length vch \<le> k + 1"
  define a b where "a = butlast vch" and "b = last vch"
  have v: "vch = a @ [b]"
    using False by (simp add: a_def b_def)
  have "256 ^ length a * (unat b mod 128) \<le> 256 ^ length a * 127"
    by (intro mult_le_mono2) (simp flip: less_Suc_eq_le)
  then have "le_value a + 256 ^ length a * (unat b mod 128) < 256 ^ length a * 128"
    using le_value_less [of a] by linarith
  also have "\<dots> \<le> 256 ^ k * 128"
    using l by (intro mult_le_mono1 power_increasing) (simp_all add: v)
  finally have "int (le_value a + 256 ^ length a * (unat b mod 128)) < int (256 ^ k * 128)"
    by (simp only: of_nat_less_iff)
  moreover have "\<bar>num_val vch\<bar> = int (le_value a + 256 ^ length a * (unat b mod 128))"
    unfolding v num_val_snoc
    by (cases "128 \<le> unat b") (simp_all only: if_True if_False mult_minus1 mult_1 abs_minus_cancel abs_of_nat)
  ultimately have "\<bar>num_val vch\<bar> < int (256 ^ k * 128)"
    by (simp only:)
  then show ?thesis
    by (simp add: power_add two_power_8)
qed simp

subsection \<open>Minimal encoding\<close>

lemma num_val_zeros: "num_val (p @ replicate k 0 @ [b]) = (if 128 \<le> unat b then - 1 else 1) *
    int (le_value p + 256 ^ (length p + k) * (unat b mod 128))"
proof -
  have "le_value (replicate k 0) = 0"
    by (induction k) simp_all
  then have "le_value (p @ replicate k 0) = le_value p"
    by (simp add: le_value_append)
  then show ?thesis
    using num_val_snoc [of "p @ replicate k 0" b] by (simp add: power_add)
qed

lemma minimally_loop_spec:
  assumes "unat b mod 128 = 0"
  shows "minimal (minimally_loop (p @ replicate k 0 @ [b]) b (length p)) \<and>
    num_val (minimally_loop (p @ replicate k 0 @ [b]) b (length p)) = num_val (p @ replicate k 0 @ [b])"
proof (induction p arbitrary: k rule: rev_induct)
  case Nil
  then show ?case
    using assms num_val_zeros [of "[]" k b] by simp
next
  case (snoc x q)
  let ?d = "q @ x # replicate k 0 @ [b]"
  have nth: "?d ! length q = x"
    by simp
  show ?case
  proof (cases "x = 0")
    case True
    then have "(q @ [x]) @ replicate k 0 @ [b] = q @ replicate (Suc k) 0 @ [b]"
      by (simp add: replicate_app_Cons_same)
    then show ?thesis
      using snoc [of "Suc k"] True by simp
  next
    case False
    have val: "num_val ((q @ [x]) @ replicate k 0 @ [b]) = (if 128 \<le> unat b then - 1 else 1) * int (le_value q + 256 ^ length q * unat x)"
      unfolding num_val_zeros using assms by (simp add: le_value_snoc)
    show ?thesis
    proof (cases "128 \<le> unat x")
      case True
      then have "minimally_loop ((q @ [x]) @ replicate k 0 @ [b]) b (length (q @ [x])) = q @ [x, b]"
        using False and_80_eq_0 [of x] by (cases k) (simp_all add: list_update_append)
      then show ?thesis
        unfolding val using True num_val_snoc [of "q @ [x]" b] minimal_snoc [of "q @ [x]" b] assms
        by (simp add: le_value_snoc)
    next
      case small: False
      then have e: "minimally_loop ((q @ [x]) @ replicate k 0 @ [b]) b (length (q @ [x])) = q @ [x OR b]"
        using False and_80_eq_0 [of x] by (simp add: list_update_append)
      have b: "b = (if 128 \<le> unat b then 0x80 else 0)"
        using byte_split [of b] assms by (auto simp: word_unat_eq_iff)
      have u: "unat (x OR b) = unat x + (if 128 \<le> unat b then 128 else 0)"
        using small unat_or_80 [of x] by (subst b) simp
      then have "unat (x OR b) mod 128 = unat x" "128 \<le> unat (x OR b) \<longleftrightarrow> 128 \<le> unat b"
        using small by auto
      then show ?thesis
        unfolding val e using False by (simp add: num_val_snoc minimal_snoc unat_eq_0)
    qed
  qed
qed

lemma MinimallyEncode_eq: "snd (MinimallyEncode data) = scriptnum_serialize (num_val data)"
proof (cases "data = []")
  case True
  then show ?thesis
    by (simp add: MinimallyEncode_def scriptnum_serialize_def)
next
  case False
  define a b where "a = butlast data" and "b = last data"
  have d: "data = a @ [b]"
    using False by (simp add: a_def b_def)
  have nth: "a \<noteq> [] \<Longrightarrow> (a @ [b]) ! (length a - 1) = last a"
    by (simp add: nth_append last_conv_nth)
  show ?thesis
  proof (cases "minimal data")
    case True
    then have "snd (MinimallyEncode data) = data"
      using nth by (auto simp: MinimallyEncode_def d minimal_snoc and_7f_eq_0 and_80_eq_0 Let_def)
    then show ?thesis
      using serialize_num_val [OF True] by simp
  next
    case no: False
    then have b: "unat b mod 128 = 0" and a: "a = [] \<or> unat (last a) < 128"
      using minimal_snoc [of a b] by (auto simp: d)
    have "snd (MinimallyEncode data) = minimally_loop data b (length a)"
      using nth a b by (auto simp: MinimallyEncode_def d and_7f_eq_0 and_80_eq_0 Let_def)
    then have "minimal (snd (MinimallyEncode data))" "num_val (snd (MinimallyEncode data)) = num_val data"
      using minimally_loop_spec [OF b, of a 0] by (simp_all add: d)
    then show ?thesis
      using serialize_num_val [of "snd (MinimallyEncode data)"] by simp
  qed
qed

lemma MinimallyEncode_changed: "fst (MinimallyEncode data) \<longleftrightarrow> \<not> minimal data"
proof (cases "data = []")
  case False
  define a b where "a = butlast data" and "b = last data"
  have d: "data = a @ [b]"
    using False by (simp add: a_def b_def)
  have nth: "a \<noteq> [] \<Longrightarrow> (a @ [b]) ! (length a - 1) = last a"
    by (simp add: nth_append last_conv_nth)
  then show ?thesis
    by (auto simp: MinimallyEncode_def d minimal_snoc and_7f_eq_0 and_80_eq_0 Let_def)
qed (simp add: MinimallyEncode_def)

subsection \<open>Properties of scripts\<close>

lemma unat_of_nat_u8: "n < 256 \<Longrightarrow> unat (of_nat n :: u8) = n"
  by (simp add: unsigned_of_nat take_bit_eq_mod)

lemma push_roundtrip:
  assumes "length b < 2 ^ 32"
  shows "GetScriptOp (push_data b @ s) = (True, hd (push_data b), b, s) \<and> hd (push_data b) \<le> OP_PUSHDATA4"
proof -
  consider "length b < 76" | "76 \<le> length b" "length b \<le> 255" | "256 \<le> length b" "length b \<le> 65535"
    | "65536 \<le> length b"
    by linarith
  then show ?thesis
  proof cases
    case 1
    then have "unat (of_nat (length b) :: u8) = length b"
      by (intro unat_of_nat_u8) simp
    moreover have "(of_nat (length b) :: u8) < 0x4c" "(of_nat (length b) :: u8) \<le> 0x4e"
      using 1 calculation by (simp_all add: word_less_nat_alt word_le_nat_alt)
    ultimately show ?thesis
      using 1 by (simp add: push_data_def read_push_size_def)
  next
    case 2
    then have "unat (of_nat (length b) :: u8) = length b"
      by (intro unat_of_nat_u8) simp
    then show ?thesis
      using 2 by (simp add: push_data_def read_push_size_def)
  next
    case 3
    then have "le_value (le_bytes 2 (length b)) = length b"
      by (intro le_value_le_bytes) simp
    then show ?thesis
      using 3 by (simp add: push_data_def read_push_size_def)
  next
    case 4
    then have "le_value (le_bytes 4 (length b)) = length b"
      using assms by (intro le_value_le_bytes) simp
    then show ?thesis
      using 4 by (simp add: push_data_def read_push_size_def)
  qed
qed

text \<open>
  Under the minimal-encoding rule the byte vectors of at most four bytes and the
  integers below $2^{31}$ in absolute value correspond one to one: \<open>CScriptNum\<close> accepts a vector as the
  number \<open>n\<close> exactly when it is what \<open>serialize\<close> writes for \<open>n\<close> and \<open>n\<close> is in range; the five-byte limit of
  the lock-time opcodes gives the range $2^{39}$.
\<close>

theorem scriptnum_canonical:
  "(CScriptNum vch True 4 = Some n \<longleftrightarrow> vch = scriptnum_serialize n \<and> \<bar>n\<bar> < 2 ^ 31) \<and>
   (CScriptNum vch True 5 = Some n \<longleftrightarrow> vch = scriptnum_serialize n \<and> \<bar>n\<bar> < 2 ^ 39)"
proof -
  have "CScriptNum vch True (k + 1) = Some n \<longleftrightarrow> vch = scriptnum_serialize n \<and> \<bar>n\<bar> < 2 ^ (8 * k + 7)"
    if k: "k \<le> 6" for k
  proof
    assume "CScriptNum vch True (k + 1) = Some n"
    then have m: "minimal vch" "length vch \<le> k + 1" "set_vch vch = n"
      by (auto simp: CScriptNum_def IsMinimallyEncoded_iff split: if_splits)
    then have "num_val vch = n"
      using set_vch_num_val [of vch] k by simp
    then show "vch = scriptnum_serialize n \<and> \<bar>n\<bar> < 2 ^ (8 * k + 7)"
      using serialize_num_val [OF m(1)] num_val_bound [OF m(2)] by simp
  next
    assume v: "vch = scriptnum_serialize n \<and> \<bar>n\<bar> < 2 ^ (8 * k + 7)"
    then have l: "length vch \<le> k + 1"
      using length_serialize by blast
    then have "set_vch vch = n"
      using set_vch_num_val [of vch] num_val_serialize [of n] v k by simp
    then show "CScriptNum vch True (k + 1) = Some n"
      using l v minimal_serialize [of n] by (simp add: CScriptNum_def IsMinimallyEncoded_iff)
  qed
  from this [of 3] this [of 4] show ?thesis
    by simp
qed

text \<open>
  \<open>MinimallyEncode\<close> replaces a byte vector of any length by the minimal
  encoding of the number it stands for, and reports a change exactly when the vector was not minimal.
\<close>

theorem MinimallyEncode_correct:
  "MinimallyEncode data = (\<not> IsMinimallyEncoded data (length data), scriptnum_serialize (num_val data)) \<and>
   num_val (scriptnum_serialize (num_val data)) = num_val data \<and>
   IsMinimallyEncoded (scriptnum_serialize (num_val data)) (length (scriptnum_serialize (num_val data)))"
  using MinimallyEncode_eq [of data] MinimallyEncode_changed [of data] minimal_serialize [of "num_val data"]
  by (simp add: num_val_serialize minimal_def prod_eq_iff)

end
