(* ===== verification/Compressor.thy ===== *)
theory Compressor
  imports Script
begin

section \<open>Compressed outputs (compressor.cpp, compressor.h)\<close>

text \<open>
  The checks of public keys on the curve belong to secp256k1: \<open>IsFullyValid\<close> of a serialized key and
  \<open>Decompress\<close>, which turns a compressed key of 33 bytes into one of 65 or fails, are parameters.
\<close>

definition nSpecialScripts :: nat where
  "nSpecialScripts = 6"

definition IsToKeyID :: "CScript \<Rightarrow> bytes option" where
  "IsToKeyID script =
     (if length script = 25 \<and> script ! 0 = OP_DUP \<and> script ! 1 = OP_HASH160 \<and> script ! 2 = 20 \<and>
         script ! 23 = OP_EQUALVERIFY \<and> script ! 24 = OP_CHECKSIG
      then Some (take 20 (drop 3 script)) else None)"

definition IsToScriptID :: "CScript \<Rightarrow> bytes option" where
  "IsToScriptID script =
     (if length script = 23 \<and> script ! 0 = OP_HASH160 \<and> script ! 1 = 20 \<and> script ! 22 = OP_EQUAL
      then Some (take 20 (drop 2 script)) else None)"

definition IsToPubKey :: "(bytes \<Rightarrow> bool) \<Rightarrow> CScript \<Rightarrow> bytes option" where
  "IsToPubKey IsFullyValid script =
     (if length script = 35 \<and> script ! 0 = 33 \<and> script ! 34 = OP_CHECKSIG \<and>
         (script ! 1 = 0x02 \<or> script ! 1 = 0x03)
      then Some (take 33 (drop 1 script))
      else if length script = 67 \<and> script ! 0 = 65 \<and> script ! 66 = OP_CHECKSIG \<and> script ! 1 = 0x04
      then (let pubkey = take 65 (drop 1 script) in if IsFullyValid pubkey then Some pubkey else None)
      else None)"

definition CompressScript :: "(bytes \<Rightarrow> bool) \<Rightarrow> CScript \<Rightarrow> bytes option" where
  "CompressScript IsFullyValid script =
     (case IsToKeyID script of
        Some keyID \<Rightarrow> Some (0x00 # keyID)
      | None \<Rightarrow>
     (case IsToScriptID script of
        Some scriptID \<Rightarrow> Some (0x01 # scriptID)
      | None \<Rightarrow>
     (case IsToPubKey IsFullyValid script of
        Some pubkey \<Rightarrow>
          if pubkey ! 0 = 0x02 \<or> pubkey ! 0 = 0x03 then Some (pubkey ! 0 # take 32 (drop 1 pubkey))
          else if pubkey ! 0 = 0x04 then Some ((0x04 OR (pubkey ! 64 AND 0x01)) # take 32 (drop 1 pubkey))
          else None
      | None \<Rightarrow> None)))"

definition GetSpecialScriptSize :: "nat \<Rightarrow> nat" where
  "GetSpecialScriptSize nSize =
     (if nSize = 0 \<or> nSize = 1 then 20 else if nSize = 2 \<or> nSize = 3 \<or> nSize = 4 \<or> nSize = 5 then 32 else 0)"

text \<open>The script is left as it was where the source returns false; \<open>None\<close> is the failed assertion.\<close>

definition DecompressScript :: "(bytes \<Rightarrow> bytes option) \<Rightarrow> CScript \<Rightarrow> nat \<Rightarrow> bytes \<Rightarrow> (bool \<times> CScript) option" where
  "DecompressScript Decompress script nSize in' =
     (if nSize = 0 then
        Some (True, [OP_DUP, OP_HASH160, 20] @ take 20 in' @ [OP_EQUALVERIFY, OP_CHECKSIG])
      else if nSize = 1 then
        Some (True, [OP_HASH160, 20] @ take 20 in' @ [OP_EQUAL])
      else if nSize = 2 \<or> nSize = 3 then
        Some (True, [33, of_nat nSize] @ take 32 in' @ [OP_CHECKSIG])
      else if nSize = 4 \<or> nSize = 5 then
        (case Decompress (of_nat (nSize - 2) # take 32 in') of
           None \<Rightarrow> Some (False, script)
         | Some pubkey \<Rightarrow> if length pubkey \<noteq> 65 then None else Some (True, [65] @ pubkey @ [OP_CHECKSIG]))
      else Some (False, script))"

definition ScriptCompression_Ser :: "(bytes \<Rightarrow> bool) \<Rightarrow> CScript \<Rightarrow> bytes" where
  "ScriptCompression_Ser IsFullyValid script =
     (case CompressScript IsFullyValid script of
        Some compr \<Rightarrow> compr
      | None \<Rightarrow> WriteVarInt (of_nat (length script + nSpecialScripts) :: u32) @ script)"

definition ScriptCompression_Unser :: "(bytes \<Rightarrow> bytes option) \<Rightarrow> CScript \<Rightarrow> CScript reader" where
  "ScriptCompression_Unser Decompress script s =
     do { (n, s) \<leftarrow> (ReadVarInt s :: (u32 \<times> bytes) option);
          let nSize = unat n in
          if nSize < nSpecialScripts then
            do { (vch, s) \<leftarrow> read_bytes (GetSpecialScriptSize nSize) s;
                 (r, script) \<leftarrow> DecompressScript Decompress script nSize vch;
                 Some (script, s) }
          else
            let nSize = nSize - nSpecialScripts in
            if nSize > MAX_SCRIPT_SIZE then
              do { (_, s) \<leftarrow> read_bytes nSize s; Some (script @ [OP_RETURN], s) }
            else read_bytes nSize s }"

subsection \<open>Amounts\<close>

function strip_zeros :: "u64 \<Rightarrow> nat \<Rightarrow> u64 \<times> nat" where
  "strip_zeros n e = (if n mod 10 = 0 \<and> e < 9 then strip_zeros (n div 10) (e + 1) else (n, e))"
  by pat_completeness auto
termination
  by (relation "measure (\<lambda>(n, e). 9 - e)") auto

declare strip_zeros.simps [simp del]

text \<open>\<open>None\<close> is the failed assertion on the last digit.\<close>

definition CompressAmount :: "u64 \<Rightarrow> u64 option" where
  "CompressAmount n =
     (if n = 0 then Some 0
      else let (n, e) = strip_zeros n 0 in
        if e < 9 then
          let d = n mod 10 in
          if \<not> (d \<ge> 1 \<and> d \<le> 9) then None
          else Some (1 + ((n div 10) * 9 + d - 1) * 10 + of_nat e)
        else Some (1 + (n - 1) * 10 + 9))"

definition DecompressAmount :: "u64 \<Rightarrow> u64" where
  "DecompressAmount x =
     (if x = 0 then 0
      else let x = x - 1; e = unat (x mod 10); x = x div 10;
               n = (if e < 9 then let d = x mod 9 + 1; x = x div 9 in x * 10 + d else x + 1)
           in ((\<lambda>n. n * 10) ^^ e) n)"

definition AmountCompression_Ser :: "CAmount \<Rightarrow> bytes option" where
  "AmountCompression_Ser val = map_option WriteVarInt (CompressAmount (word_of_int val))"

definition AmountCompression_Unser :: "CAmount reader" where
  "AmountCompression_Unser s =
     do { (v, s) \<leftarrow> (ReadVarInt s :: (u64 \<times> bytes) option); Some (sint (DecompressAmount v), s) }"

definition TxOutCompression_Ser :: "(bytes \<Rightarrow> bool) \<Rightarrow> CTxOut \<Rightarrow> bytes option" where
  "TxOutCompression_Ser IsFullyValid out =
     map_option (\<lambda>a. a @ ScriptCompression_Ser IsFullyValid (scriptPubKey out)) (AmountCompression_Ser (nValue out))"

definition TxOutCompression_Unser :: "(bytes \<Rightarrow> bytes option) \<Rightarrow> CTxOut \<Rightarrow> CTxOut reader" where
  "TxOutCompression_Unser Decompress out s =
     do { (v, s) \<leftarrow> AmountCompression_Unser s;
          (script, s) \<leftarrow> ScriptCompression_Unser Decompress (scriptPubKey out) s;
          Some (\<lparr>nValue = v, scriptPubKey = script\<rparr>, s) }"

subsection \<open>The amount code on the naturals\<close>

function nat_strip :: "nat \<Rightarrow> nat \<Rightarrow> nat \<times> nat" where
  "nat_strip n e = (if n mod 10 = 0 \<and> e < 9 then nat_strip (n div 10) (e + 1) else (n, e))"
  by pat_completeness auto
termination
  by (relation "measure (\<lambda>(n, e). 9 - e)") auto

declare nat_strip.simps [simp del]

definition nat_compress :: "nat \<Rightarrow> nat" where
  "nat_compress n = (if n = 0 then 0 else let (n, e) = nat_strip n 0 in
     if e < 9 then 1 + (n div 10 * 9 + n mod 10 - 1) * 10 + e else 1 + (n - 1) * 10 + 9)"

definition nat_decompress :: "nat \<Rightarrow> nat" where
  "nat_decompress x = (if x = 0 then 0 else let x = x - 1; e = x mod 10; x = x div 10 in
     (if e < 9 then x div 9 * 10 + (x mod 9 + 1) else x + 1) * 10 ^ e)"

lemma nat_strip_props:
  "nat_strip n e = (m, k) \<Longrightarrow> 0 < n \<Longrightarrow> e \<le> 9 \<Longrightarrow>
     e \<le> k \<and> k \<le> 9 \<and> 0 < m \<and> n = m * 10 ^ (k - e) \<and> (k < 9 \<longrightarrow> m mod 10 \<noteq> 0)"
proof (induction n e arbitrary: m k rule: nat_strip.induct)
  case (1 n e)
  show ?case
  proof (cases "n mod 10 = 0 \<and> e < 9")
    case True
    then have "0 < n div 10"
      using "1.prems"(2) by auto
    then have IH: "e + 1 \<le> k" "k \<le> 9" "0 < m" "n div 10 = m * 10 ^ (k - (e + 1))" "k < 9 \<longrightarrow> m mod 10 \<noteq> 0"
      using "1.IH" [of m k] "1.prems" True by (simp_all add: nat_strip.simps [of n e])
    have "n = 10 * (n div 10)"
      using True by auto
    also have "\<dots> = m * 10 ^ (k - e)"
      using IH(1) unfolding IH(4) by (simp add: Suc_diff_Suc [symmetric] flip: power_Suc)
    finally show ?thesis
      using IH by simp
  next
    case False
    then have "m = n" "k = e"
      using "1.prems"(1) by (auto simp: nat_strip.simps [of n e] split: if_splits)
    then show ?thesis
      using False "1.prems" by auto
  qed
qed

lemma nat_decompress_compress: "nat_decompress (nat_compress n) = n"
proof (cases "n = 0")
  case False
  obtain m k where mk: "nat_strip n 0 = (m, k)"
    by fastforce
  note p = nat_strip_props [OF mk]
  show ?thesis
  proof (cases "k < 9")
    case True
    then have d: "m mod 10 \<noteq> 0"
      using p False by simp
    define q where "q = m div 10"
    define r where "r = m mod 10 - 1"
    have m: "m = 10 * q + r + 1" "r < 9"
      using d by (simp_all add: q_def r_def) 
    have c: "nat_compress n = 1 + (q * 9 + r) * 10 + k"
      using True False d by (simp add: nat_compress_def mk q_def r_def)
    have "(k + x * 10) mod 10 = k" "(k + x * 10) div 10 = x" for x
      using True by simp_all
    moreover have "nat_compress n - 1 = k + (q * 9 + r) * 10" "nat_compress n \<noteq> 0"
      by (simp_all add: c)
    ultimately have "nat_compress n \<noteq> 0" "(nat_compress n - 1) mod 10 = k" "(nat_compress n - 1) div 10 = q * 9 + r"
      by metis+
    then show ?thesis
      using True m p False by (simp add: nat_decompress_def Let_def)
  next
    case False
    then have "k = 9"
      using p \<open>n \<noteq> 0\<close> by simp
    then have c: "nat_compress n = 1 + (m - 1) * 10 + 9"
      using \<open>n \<noteq> 0\<close> by (simp add: nat_compress_def mk)
    have "nat_compress n \<noteq> 0" "(nat_compress n - 1) mod 10 = 9" "(nat_compress n - 1) div 10 = m - 1"
      by (simp_all add: c)
    then show ?thesis
      using p \<open>n \<noteq> 0\<close> \<open>k = 9\<close> by (simp add: nat_decompress_def Let_def)
  qed
qed (simp add: nat_compress_def nat_decompress_def)

lemma nat_compress_bound: "nat_compress n \<le> 10 * n + 10"
proof (cases "n = 0")
  case False
  obtain m k where mk: "nat_strip n 0 = (m, k)"
    by fastforce
  note p = nat_strip_props [OF mk]
  have "m * 1 \<le> m * 10 ^ k"
    by (rule mult_le_mono2) simp
  then have "m \<le> n"
    using p False by simp
  moreover have "k \<le> 9"
    using p False by simp
  moreover have "m div 10 * 9 + m mod 10 - 1 \<le> m"
    using div_mult_mod_eq [of m 10] by linarith
  ultimately show ?thesis
    using False by (auto simp: nat_compress_def mk)
qed (simp add: nat_compress_def)

lemma strip_zeros_unat:
  "strip_zeros n e = (m, k) \<Longrightarrow> nat_strip (unat n) e = (unat m, k)"
proof (induction n e arbitrary: m k rule: strip_zeros.induct)
  case (1 n e)
  have c: "n mod 10 = 0 \<longleftrightarrow> unat n mod 10 = 0"
    by (simp add: word_unat_eq_iff unat_mod)
  show ?case
  proof (cases "n mod 10 = 0 \<and> e < 9")
    case True
    then show ?thesis
      using "1.IH" [of m k] "1.prems" c by (simp add: strip_zeros.simps [of n] nat_strip.simps [of "unat n"] unat_div)
  next
    case False
    then show ?thesis
      using "1.prems" c by (auto simp: strip_zeros.simps [of n] nat_strip.simps [of "unat n"])
  qed
qed

lemma div_mod_of_nat:
  "(w :: u64) div k = of_nat (unat w div unat k)" "w mod k = of_nat (unat w mod unat k)"
  by (simp_all flip: unat_div unat_mod)

lemma unat_div_numeral:
  "(w :: u64) div 10 = of_nat (unat w div 10)" "w mod 10 = of_nat (unat w mod 10)"
  "w div 9 = of_nat (unat w div 9)" "w mod 9 = of_nat (unat w mod 9)"
  by (simp_all add: div_mod_of_nat)

lemma CompressAmount_unat:
  assumes "unat n < 2 ^ 60"
  shows "\<exists>c. CompressAmount n = Some c \<and> unat c = nat_compress (unat n)"
proof -
  have b: "nat_compress (unat n) < 2 ^ LENGTH(64)"
    using nat_compress_bound [of "unat n"] assms by simp
  have "CompressAmount n = Some (of_nat (nat_compress (unat n)))"
  proof (cases "n = 0")
    case False
    then have nz: "0 < unat n"
      by (simp add: unat_gt_0)
    obtain m k where mk: "strip_zeros n 0 = (m, k)"
      by fastforce
    note mk' = strip_zeros_unat [OF mk]
    note p = nat_strip_props [OF mk' nz]
    let ?m = "unat m"
    show ?thesis
    proof (cases "k < 9")
      case True
      then have d: "1 \<le> ?m mod 10" "?m mod 10 \<le> 9"
        using p by (auto simp: Suc_le_eq)
      have "1 \<le> m mod 10" "m mod 10 \<le> 9"
        using d by (simp_all add: word_le_nat_alt unat_mod)
      moreover have "1 + (m div 10 * 9 + m mod 10 - 1) * 10 + of_nat k =
          (of_nat (1 + (?m div 10 * 9 + ?m mod 10 - 1) * 10 + k) :: u64)"
        using d(1) by (simp add: unat_div_numeral of_nat_diff)
      moreover have "nat_compress (unat n) = 1 + (?m div 10 * 9 + ?m mod 10 - 1) * 10 + k"
        using True nz by (simp add: nat_compress_def mk')
      ultimately show ?thesis
        using True False by (simp only: CompressAmount_def mk Let_def prod.case) simp
    next
      case False
      have "1 + (m - 1) * 10 + 9 = (of_nat (1 + (?m - 1) * 10 + 9) :: u64)"
        using p by (simp add: of_nat_diff Suc_le_eq)
      moreover have "nat_compress (unat n) = 1 + (?m - 1) * 10 + 9"
        using False nz by (simp add: nat_compress_def mk')
      ultimately show ?thesis
        using False \<open>n \<noteq> 0\<close> by (simp only: CompressAmount_def mk Let_def prod.case) simp
    qed
  qed (simp add: CompressAmount_def nat_compress_def)
  then show ?thesis
    using b by (simp add: unsigned_of_nat take_bit_eq_mod)
qed

lemma funpow_times_10: "((\<lambda>n. n * 10) ^^ e) n = n * (10 :: u64) ^ e"
  by (induction e) simp_all

lemma DecompressAmount_of_nat: "DecompressAmount x = of_nat (nat_decompress (unat x))"
proof (cases "x = 0")
  case False
  then have u: "unat (x - 1) = unat x - 1" "unat x \<noteq> 0"
    by (simp_all add: unat_minus_one unat_eq_0)
  let ?y = "unat x - 1"
  have d: "unat ((x - 1) div 10) = ?y div 10" "unat ((x - 1) mod 10) = ?y mod 10"
    by (simp_all add: unat_div unat_mod u)
  then show ?thesis
    using False u(2)
    by (simp add: DecompressAmount_def nat_decompress_def Let_def funpow_times_10 unat_div_numeral(3,4) d)
      (simp add: unat_div_numeral(1) u ac_simps)
qed (simp add: DecompressAmount_def nat_decompress_def)

lemma amount_roundtrip:
  assumes "unat n < 2 ^ 60"
  shows "\<exists>c. CompressAmount n = Some c \<and> DecompressAmount c = n"
  using CompressAmount_unat [OF assms] by (auto simp: DecompressAmount_of_nat nat_decompress_compress)

subsection \<open>Scripts\<close>

lemma take_nth: "a \<le> length xs \<Longrightarrow> take a xs = map ((!) xs) [0..<a]"
  by (simp add: list_eq_iff_nth_eq)

lemma drop_nth: "drop a xs = map ((!) xs) [a..<length xs]"
  by (simp add: list_eq_iff_nth_eq)

lemma split_at: "xs = take a xs @ take b (drop a xs) @ drop (a + b) xs"
  by (metis append_take_drop_id drop_drop add.commute)

lemma ReadVarInt_special:
  "x \<in> {0, 1, 2, 3, 4, 5} \<Longrightarrow> ReadVarInt (x # s) = Some (ucast x :: u32, s)"
  by (auto simp: ReadVarInt_def Let_def)

text \<open>What the compression relies on of secp256k1: a valid key is determined by its first coordinate and
  the parity of the second.\<close>

definition pubkey_law :: "(bytes \<Rightarrow> bool) \<Rightarrow> (bytes \<Rightarrow> bytes option) \<Rightarrow> bool" where
  "pubkey_law IsFullyValid Decompress \<longleftrightarrow>
     (\<forall>pk. length pk = 65 \<and> pk ! 0 = 4 \<and> IsFullyValid pk \<longrightarrow>
        Decompress ((2 + (pk ! 64 AND 1)) # take 32 (drop 1 pk)) = Some pk)"

lemma Unser_special:
  assumes "x \<in> {0, 1, 2, 3, 4, 5}" "length h = GetSpecialScriptSize (unat x)"
    "DecompressScript D old (unat x) h = Some (True, script)"
  shows "ScriptCompression_Unser D old (x # h @ s) = Some (script, s)"
proof -
  have "unat (ucast x :: u32) = unat x"
    by (rule unat_ucast_small) (use unsigned_less [of x, where 'a = nat] in simp)
  moreover have "unat x < nSpecialScripts"
    using assms(1) by (auto simp: nSpecialScripts_def)
  ultimately show ?thesis
    using assms(2,3) by (simp add: ScriptCompression_Unser_def ReadVarInt_special [OF assms(1)])
qed

lemma CompressScript_cases:
  assumes "CompressScript V script = Some c"
  obtains (key) "length script = 25" "script = [OP_DUP, OP_HASH160, 20] @ take 20 (drop 3 script) @ [OP_EQUALVERIFY, OP_CHECKSIG]"
      "c = 0 # take 20 (drop 3 script)"
    | (script) "length script = 23" "script = [OP_HASH160, 20] @ take 20 (drop 2 script) @ [OP_EQUAL]"
      "c = 1 # take 20 (drop 2 script)"
    | (compressed) x where "x = 2 \<or> x = 3" "length script = 35"
      "script = [33, x] @ take 32 (drop 2 script) @ [OP_CHECKSIG]" "c = x # take 32 (drop 2 script)"
    | (uncompressed) pk where "length pk = 65" "pk ! 0 = 4" "V pk" "script = 65 # pk @ [OP_CHECKSIG]"
      "c = (4 OR (pk ! 64 AND 1)) # take 32 (drop 1 pk)"
proof (cases "IsToKeyID script")
  case (Some h)
  then have e: "length script = 25" "script ! 0 = OP_DUP" "script ! 1 = OP_HASH160" "script ! 2 = 20"
      "script ! 23 = OP_EQUALVERIFY" "script ! 24 = OP_CHECKSIG" "h = take 20 (drop 3 script)"
    by (auto simp: IsToKeyID_def split: if_splits)
  have "take 3 script = [OP_DUP, OP_HASH160, 20]" "drop 23 script = [OP_EQUALVERIFY, OP_CHECKSIG]"
    using e(2-6) by (simp_all add: take_nth drop_nth e(1) upt_rec numeral_2_eq_2 numeral_3_eq_3)
  then show thesis
    using e split_at [of script 3 20] assms Some by (intro key) (simp_all add: CompressScript_def)
next
  case no_key: None
  show thesis
  proof (cases "IsToScriptID script")
    case (Some h)
    then have e: "length script = 23" "script ! 0 = OP_HASH160" "script ! 1 = 20" "script ! 22 = OP_EQUAL"
        "h = take 20 (drop 2 script)"
      by (auto simp: IsToScriptID_def split: if_splits)
    have "take 2 script = [OP_HASH160, 20]" "drop 22 script = [OP_EQUAL]"
      using e(2-4) by (simp_all add: take_nth drop_nth e(1) upt_rec numeral_2_eq_2)
    then show thesis
      using e split_at [of script 2 20] assms Some no_key by (intro script) (simp_all add: CompressScript_def)
  next
    case None
    then obtain pk where pk: "IsToPubKey V script = Some pk"
      using assms no_key by (auto simp: CompressScript_def split: option.splits)
    note c = assms [unfolded CompressScript_def no_key None pk option.case]
    consider "length script = 35" "script ! 0 = 33" "script ! 34 = OP_CHECKSIG" "script ! 1 = 2 \<or> script ! 1 = 3"
        "pk = take 33 (drop 1 script)"
      | "length script = 67" "script ! 0 = 65" "script ! 66 = OP_CHECKSIG" "script ! 1 = 4"
        "pk = take 65 (drop 1 script)" "V pk"
      using pk by (auto simp: IsToPubKey_def Let_def split: if_splits)
    then show thesis
    proof cases
      case 1
      have "take 2 script = [33, script ! 1]" "drop 34 script = [OP_CHECKSIG]"
        using 1(2-4) by (simp_all add: take_nth drop_nth 1(1) upt_rec numeral_2_eq_2)
      moreover have "pk ! 0 = script ! 1" "take 32 (drop 1 pk) = take 32 (drop 2 script)"
        using 1(1,5) by (simp_all add: drop_take numeral_2_eq_2)
      ultimately show thesis
        using 1 c split_at [of script 2 32] by (intro compressed [of "script ! 1"]) auto
    next
      case 2
      have "take 1 script = [65]" "drop 66 script = [OP_CHECKSIG]"
        using 2(2,3) by (simp_all add: take_nth drop_nth 2(1) upt_rec)
      moreover have "pk ! 0 = 4" "length pk = 65"
        using 2 by simp_all
      ultimately show thesis
        using 2(5,6) c split_at [of script 1 65] by (intro uncompressed [of pk]) simp_all
    qed
  qed
qed

lemma script_special_roundtrip:
  assumes "pubkey_law V D" "CompressScript V script = Some c"
  shows "ScriptCompression_Unser D old (c @ s) = Some (script, s)"
  using assms(2)
proof (cases rule: CompressScript_cases)
  case key
  have "ScriptCompression_Unser D old (0 # take 20 (drop 3 script) @ s) = Some (script, s)"
    using key(1,2) by (intro Unser_special) (simp_all add: GetSpecialScriptSize_def DecompressScript_def)
  then show ?thesis
    by (simp add: key(3))
next
  case script
  have "ScriptCompression_Unser D old (1 # take 20 (drop 2 script) @ s) = Some (script, s)"
    using script(1,2) by (intro Unser_special) (simp_all add: GetSpecialScriptSize_def DecompressScript_def)
  then show ?thesis
    by (simp add: script(3))
next
  case (compressed x)
  have "ScriptCompression_Unser D old (x # take 32 (drop 2 script) @ s) = Some (script, s)"
    using compressed(1-3) by (intro Unser_special) (auto simp: GetSpecialScriptSize_def DecompressScript_def)
  then show ?thesis
    by (simp add: compressed(4))
next
  case (uncompressed pk)
  have "pk ! 64 AND 1 = 0 \<or> pk ! 64 AND 1 = 1"
    by (auto simp: and_one_eq)
  then have "ScriptCompression_Unser D old ((4 OR (pk ! 64 AND 1)) # take 32 (drop 1 pk) @ s) = Some (script, s)"
    using uncompressed(1-4) assms(1)
    by (intro Unser_special) (auto simp: GetSpecialScriptSize_def DecompressScript_def pubkey_law_def)
  then show ?thesis
    by (simp add: uncompressed(5))
qed

lemma unat_of_nat_u32: "n < 2 ^ 32 \<Longrightarrow> unat (of_nat n :: u32) = n"
  by (simp add: unsigned_of_nat take_bit_eq_mod)

lemma script_plain_roundtrip:
  assumes "length script \<le> MAX_SCRIPT_SIZE"
  shows "ScriptCompression_Unser D old (WriteVarInt (of_nat (length script + nSpecialScripts) :: u32) @ script @ s) =
    Some (script, s)"
proof -
  have "unat (of_nat (length script + nSpecialScripts) :: u32) = length script + nSpecialScripts"
    using assms by (intro unat_of_nat_u32) (simp add: MAX_SCRIPT_SIZE_def nSpecialScripts_def)
  then show ?thesis
    using assms by (simp add: ScriptCompression_Unser_def varint32.unser_ser Let_def)
qed

lemma script_roundtrip:
  assumes "pubkey_law V D" "length script \<le> MAX_SCRIPT_SIZE"
  shows "ScriptCompression_Unser D old (ScriptCompression_Ser V script @ s) = Some (script, s)"
  using script_special_roundtrip [OF assms(1)] script_plain_roundtrip [OF assms(2)]
  by (simp add: ScriptCompression_Ser_def split: option.split)

text \<open>
  Every output with a value in the money range and a script of at most
  \<open>MAX_SCRIPT_SIZE\<close> bytes survives the compressed encoding of the coin database: the assertion of
  \<open>CompressAmount\<close> holds, no arithmetic wraps, and \<open>TxOutCompression\<close> reads back the value and the script,
  whatever the object held before, and leaves the rest of the stream.
\<close>

lemma txout_compression_roundtrip:
  assumes "pubkey_law IsFullyValid Decompress" "MoneyRange (nValue out)"
    "length (scriptPubKey out) \<le> MAX_SCRIPT_SIZE"
  shows "\<exists>b. TxOutCompression_Ser IsFullyValid out = Some b \<and>
    TxOutCompression_Unser Decompress old (b @ s) = Some (out, s)"
proof -
  have v: "0 \<le> nValue out" "nValue out < 2 ^ 60"
    using assms(2) by (simp_all add: MoneyRange_def MAX_MONEY_def COIN_def)
  then have "unat (word_of_int (nValue out) :: u64) < 2 ^ 60"
    by (simp add: unsigned_of_int take_bit_int_eq_self)
  then obtain c where c: "CompressAmount (word_of_int (nValue out)) = Some c"
      "DecompressAmount c = word_of_int (nValue out)"
    using amount_roundtrip by blast
  have "sint (DecompressAmount c) = nValue out"
    using v by (simp add: c(2) sint_word_of_int64)
  then show ?thesis
    using script_roundtrip [OF assms(1,3), of "scriptPubKey old" s]
    by (simp add: TxOutCompression_Ser_def TxOutCompression_Unser_def AmountCompression_Ser_def
        AmountCompression_Unser_def c(1) varint64.unser_ser)
qed

end
