(* ===== verification/Coins.thy ===== *)
theory Coins
  imports Compressor
begin

section \<open>The set of unspent outputs (coins.h, coins.cpp, txdb.cpp)\<close>

subsection \<open>Coins\<close>

record Coin =
  out :: CTxOut
  fCoinBase :: bool
  coin_nHeight :: "31 word"

definition mk_Coin :: "CTxOut \<Rightarrow> int \<Rightarrow> bool \<Rightarrow> Coin" where
  "mk_Coin outIn nHeightIn fCoinBaseIn =
     \<lparr>out = outIn, fCoinBase = fCoinBaseIn, coin_nHeight = word_of_int nHeightIn\<rparr>"

definition coinEmpty :: Coin where
  "coinEmpty = \<lparr>out = txout_null, fCoinBase = False, coin_nHeight = 0\<rparr>"

definition coin_Clear :: "Coin \<Rightarrow> Coin" where
  "coin_Clear c = c\<lparr>out := txout_null, fCoinBase := False, coin_nHeight := 0\<rparr>"

definition coin_IsSpent :: "Coin \<Rightarrow> bool" where
  "coin_IsSpent c \<longleftrightarrow> txout_IsNull (out c)"

definition coin_Serialize :: "(bytes \<Rightarrow> bool) \<Rightarrow> Coin \<Rightarrow> bytes option" where
  "coin_Serialize IsFullyValid c =
     (if coin_IsSpent c then None
      else let code = ucast (coin_nHeight c) * 2 + of_bool (fCoinBase c) :: u32
           in map_option (\<lambda>b. WriteVarInt code @ b) (TxOutCompression_Ser IsFullyValid (out c)))"

definition coin_Unserialize :: "(bytes \<Rightarrow> bytes option) \<Rightarrow> Coin \<Rightarrow> Coin reader" where
  "coin_Unserialize Decompress c s =
     do { (code, s) \<leftarrow> (ReadVarInt s :: (u32 \<times> bytes) option);
          (o', s) \<leftarrow> TxOutCompression_Unser Decompress (out c) s;
          Some (\<lparr>out = o', fCoinBase = (code AND 1 \<noteq> 0), coin_nHeight = ucast (drop_bit 1 code)\<rparr>, s) }"

subsection \<open>Cache entries\<close>

definition DIRTY :: u8 where "DIRTY = 1"
definition FRESH :: u8 where "FRESH = 2"

record CCoinsCacheEntry =
  coin :: Coin
  flags :: u8

definition mk_entry :: "Coin \<Rightarrow> CCoinsCacheEntry" where
  "mk_entry c = \<lparr>coin = c, flags = 0\<rparr>"

definition is_dirty :: "CCoinsCacheEntry \<Rightarrow> bool" where
  "is_dirty e \<longleftrightarrow> flags e AND DIRTY \<noteq> 0"

definition is_fresh :: "CCoinsCacheEntry \<Rightarrow> bool" where
  "is_fresh e \<longleftrightarrow> flags e AND FRESH \<noteq> 0"

type_synonym CCoinsMap = "COutPoint \<Rightarrow> CCoinsCacheEntry option"

text \<open>
  An \<open>unordered_map\<close> is iterated in an order of its own. Where the code iterates, the model takes the
  list of the entries in that order.
\<close>

definition iterates :: "(COutPoint \<times> CCoinsCacheEntry) list \<Rightarrow> CCoinsMap \<Rightarrow> bool" where
  "iterates es m \<longleftrightarrow> distinct (map fst es) \<and> map_of es = m"

subsection \<open>The coin database\<close>

text \<open>
  The key-value store under the database holds the coins and two keys of its own. A batch is a list of
  writes that \<open>WriteBatch\<close> applies atomically; whether the batch has grown over the limit is decided by
  \<open>over_limit\<close>, a parameter (\<open>SizeEstimate\<close> of LevelDB against \<open>-dbbatchsize\<close>).
\<close>

record CoinsDB =
  db_coins :: "COutPoint \<Rightarrow> Coin option"
  db_best :: "uint256 option"
  db_heads :: "uint256 list option"

datatype db_op =
    WriteCoin COutPoint Coin
  | EraseCoin COutPoint
  | WriteBestBlock uint256
  | EraseBestBlock
  | WriteHeadBlocks "uint256 list"
  | EraseHeadBlocks

fun db_apply :: "db_op \<Rightarrow> CoinsDB \<Rightarrow> CoinsDB" where
  "db_apply (WriteCoin p c) db = db\<lparr>db_coins := (db_coins db)(p \<mapsto> c)\<rparr>"
| "db_apply (EraseCoin p) db = db\<lparr>db_coins := (db_coins db)(p := None)\<rparr>"
| "db_apply (WriteBestBlock h) db = db\<lparr>db_best := Some h\<rparr>"
| "db_apply EraseBestBlock db = db\<lparr>db_best := None\<rparr>"
| "db_apply (WriteHeadBlocks hs) db = db\<lparr>db_heads := Some hs\<rparr>"
| "db_apply EraseHeadBlocks db = db\<lparr>db_heads := None\<rparr>"

definition WriteBatch :: "CoinsDB \<Rightarrow> db_op list \<Rightarrow> CoinsDB" where
  "WriteBatch db batch = fold db_apply batch db"

definition db_GetBestBlock :: "CoinsDB \<Rightarrow> uint256" where
  "db_GetBestBlock db = (case db_best db of None \<Rightarrow> uint256_null | Some h \<Rightarrow> h)"

definition db_GetHeadBlocks :: "CoinsDB \<Rightarrow> uint256 list" where
  "db_GetHeadBlocks db = (case db_heads db of None \<Rightarrow> [] | Some hs \<Rightarrow> hs)"

definition db_entry_ops :: "COutPoint \<times> CCoinsCacheEntry \<Rightarrow> db_op list" where
  "db_entry_ops pe = (case pe of (p, e) \<Rightarrow>
     if is_dirty e then (if coin_IsSpent (coin e) then [EraseCoin p] else [WriteCoin p (coin e)]) else [])"

text \<open>
  \<open>BatchWrite\<close> of the database returns every state the database goes through, one per committed batch;
  a crash leaves the last of those that were reached. \<open>None\<close> is a failed assertion.
\<close>

fun db_write_loop :: "(db_op list \<Rightarrow> bool) \<Rightarrow> CoinsDB \<Rightarrow> db_op list \<Rightarrow> (COutPoint \<times> CCoinsCacheEntry) list \<Rightarrow>
    CoinsDB list \<times> CoinsDB \<times> db_op list" where
  "db_write_loop over_limit db batch [] = ([], db, batch)"
| "db_write_loop over_limit db batch (pe # es) =
     (let batch = batch @ db_entry_ops pe
      in if over_limit batch
         then (let db = WriteBatch db batch; (states, r) = db_write_loop over_limit db [] es in (db # states, r))
         else db_write_loop over_limit db batch es)"

definition db_old_tip :: "CoinsDB \<Rightarrow> uint256 \<Rightarrow> uint256 option" where
  "db_old_tip db hashBlock =
     (let old_tip = db_GetBestBlock db; old_heads = db_GetHeadBlocks db
      in if uint256_IsNull old_tip \<and> length old_heads = 2
         then (if old_heads ! 0 \<noteq> hashBlock then None else Some (old_heads ! 1))
         else Some old_tip)"

definition db_BatchWrite :: "(db_op list \<Rightarrow> bool) \<Rightarrow> CoinsDB \<Rightarrow> (COutPoint \<times> CCoinsCacheEntry) list \<Rightarrow> uint256 \<Rightarrow>
    CoinsDB list option" where
  "db_BatchWrite over_limit db mapCoins hashBlock =
     (if uint256_IsNull hashBlock then None
      else case db_old_tip db hashBlock of
        None \<Rightarrow> None
      | Some old_tip \<Rightarrow>
          let (states, db, batch) =
                db_write_loop over_limit db [EraseBestBlock, WriteHeadBlocks [hashBlock, old_tip]] mapCoins;
              batch = batch @ [EraseHeadBlocks, WriteBestBlock hashBlock]
          in Some (states @ [WriteBatch db batch]))"

subsection \<open>Views and caches\<close>

text \<open>
  A cache points to the view below it, in the end to the database. The lookups fill the caches on their
  way, so they return the view as well.
\<close>

datatype CCoinsView =
    DBView CoinsDB
  | CacheView (hashBlock: uint256) (cacheCoins: CCoinsMap) (base: CCoinsView)

function FetchCoin :: "CCoinsView \<Rightarrow> COutPoint \<Rightarrow> CCoinsCacheEntry option \<times> CCoinsView"
  and GetCoin :: "CCoinsView \<Rightarrow> COutPoint \<Rightarrow> Coin option \<times> CCoinsView" where
  "FetchCoin (DBView db) outpoint = (None, DBView db)"
| "FetchCoin (CacheView h m b) outpoint =
     (case m outpoint of
        Some e \<Rightarrow> (Some e, CacheView h m b)
      | None \<Rightarrow>
          (case GetCoin b outpoint of
             (None, b) \<Rightarrow> (None, CacheView h m b)
           | (Some tmp, b) \<Rightarrow>
               let ret = mk_entry tmp;
                   ret = (if coin_IsSpent (coin ret) then ret\<lparr>flags := FRESH\<rparr> else ret)
               in (Some ret, CacheView h (m(outpoint \<mapsto> ret)) b)))"
| "GetCoin (DBView db) outpoint = (db_coins db outpoint, DBView db)"
| "GetCoin (CacheView h m b) outpoint =
     (case FetchCoin (CacheView h m b) outpoint of
        (Some e, v) \<Rightarrow> (if coin_IsSpent (coin e) then None else Some (coin e), v)
      | (None, v) \<Rightarrow> (None, v))"
  by pat_completeness auto
termination
  by (relation "measure (\<lambda>x. case x of Inl (v, p) \<Rightarrow> 2 * size v | Inr (v, p) \<Rightarrow> 2 * size v + 1)") auto

definition HaveCoin :: "CCoinsView \<Rightarrow> COutPoint \<Rightarrow> bool \<times> CCoinsView" where
  "HaveCoin v outpoint = (case v of
     DBView db \<Rightarrow> (db_coins db outpoint \<noteq> None, v)
   | CacheView h m b \<Rightarrow>
       (case FetchCoin v outpoint of (it, v) \<Rightarrow>
          ((case it of None \<Rightarrow> False | Some e \<Rightarrow> \<not> coin_IsSpent (coin e)), v)))"

definition AccessCoin :: "CCoinsView \<Rightarrow> COutPoint \<Rightarrow> Coin \<times> CCoinsView" where
  "AccessCoin v outpoint =
     (case FetchCoin v outpoint of (it, v) \<Rightarrow> ((case it of None \<Rightarrow> coinEmpty | Some e \<Rightarrow> coin e), v))"

definition HaveCoinInCache :: "CCoinsView \<Rightarrow> COutPoint \<Rightarrow> bool" where
  "HaveCoinInCache v outpoint =
     (case cacheCoins v outpoint of None \<Rightarrow> False | Some e \<Rightarrow> \<not> coin_IsSpent (coin e))"

fun GetBestBlock :: "CCoinsView \<Rightarrow> uint256 \<times> CCoinsView" where
  "GetBestBlock (DBView db) = (db_GetBestBlock db, DBView db)"
| "GetBestBlock (CacheView h m b) =
     (if uint256_IsNull h then (case GetBestBlock b of (h, b) \<Rightarrow> (h, CacheView h m b))
      else (h, CacheView h m b))"

definition SetBestBlock :: "CCoinsView \<Rightarrow> uint256 \<Rightarrow> CCoinsView" where
  "SetBestBlock v hashBlockIn = CacheView hashBlockIn (cacheCoins v) (base v)"

text \<open>\<open>None\<close> is the failed assertion or the exception for an unspent coin that would be overwritten.\<close>

definition AddCoin :: "CCoinsView \<Rightarrow> COutPoint \<Rightarrow> Coin \<Rightarrow> bool \<Rightarrow> CCoinsView option" where
  "AddCoin v outpoint c possible_overwrite =
     (if coin_IsSpent c then None
      else if IsUnspendable (scriptPubKey (out c)) then Some v
      else
        let it = (case cacheCoins v outpoint of None \<Rightarrow> mk_entry coinEmpty | Some e \<Rightarrow> e);
            fresh = (\<not> possible_overwrite \<and> \<not> is_dirty it)
        in if \<not> possible_overwrite \<and> \<not> coin_IsSpent (coin it) then None
           else
             let it = \<lparr>coin = c, flags = flags it OR (DIRTY OR (if fresh then FRESH else 0))\<rparr>
             in Some (CacheView (hashBlock v) ((cacheCoins v)(outpoint \<mapsto> it)) (base v)))"

definition SpendCoin :: "CCoinsView \<Rightarrow> COutPoint \<Rightarrow> bool \<times> Coin option \<times> CCoinsView" where
  "SpendCoin v outpoint =
     (case FetchCoin v outpoint of
        (None, v) \<Rightarrow> (False, None, v)
      | (Some e, v) \<Rightarrow>
          (True, Some (coin e),
           if is_fresh e then CacheView (hashBlock v) ((cacheCoins v)(outpoint := None)) (base v)
           else CacheView (hashBlock v)
             ((cacheCoins v)(outpoint \<mapsto> \<lparr>coin = coin_Clear (coin e), flags = flags e OR DIRTY\<rparr>)) (base v)))"

fun AddCoins_loop :: "CCoinsView \<Rightarrow> uint256 \<Rightarrow> bool \<Rightarrow> int \<Rightarrow> bool \<Rightarrow> nat \<Rightarrow> CTxOut list \<Rightarrow> CCoinsView option" where
  "AddCoins_loop v txid fCoinbase nHeightIn check_for_overwrite i [] = Some v"
| "AddCoins_loop v txid fCoinbase nHeightIn check_for_overwrite i (o' # os) =
     (let p = \<lparr>op_hash = txid, op_n = of_nat i\<rparr>;
          (overwrite, v) = (if check_for_overwrite then HaveCoin v p else (fCoinbase, v))
      in case AddCoin v p (mk_Coin o' nHeightIn fCoinbase) overwrite of
           None \<Rightarrow> None
         | Some v \<Rightarrow> AddCoins_loop v txid fCoinbase nHeightIn check_for_overwrite (i + 1) os)"

definition AddCoins :: "(bytes \<Rightarrow> uint256) \<Rightarrow> CCoinsView \<Rightarrow> CTransaction \<Rightarrow> int \<Rightarrow> bool \<Rightarrow> CCoinsView option" where
  "AddCoins SerializeHash v tx nHeightIn check_for_overwrite =
     AddCoins_loop v (tx_GetHash SerializeHash tx) (tx_IsCoinBase tx) nHeightIn check_for_overwrite 0 (vout tx)"

text \<open>One round of the loop of \<open>BatchWrite\<close>; \<open>None\<close> is the exception for a misapplied FRESH flag.\<close>

definition batch_entry :: "CCoinsMap \<Rightarrow> COutPoint \<times> CCoinsCacheEntry \<Rightarrow> CCoinsMap option" where
  "batch_entry m pe = (case pe of (p, e) \<Rightarrow>
     if \<not> is_dirty e then Some m
     else case m p of
       None \<Rightarrow>
         if \<not> (is_fresh e \<and> coin_IsSpent (coin e))
         then Some (m(p \<mapsto> \<lparr>coin = coin e, flags = (if is_fresh e then DIRTY OR FRESH else DIRTY)\<rparr>))
         else Some m
     | Some us \<Rightarrow>
         if is_fresh e \<and> \<not> coin_IsSpent (coin us) then None
         else if is_fresh us \<and> coin_IsSpent (coin e) then Some (m(p := None))
         else Some (m(p \<mapsto> \<lparr>coin = coin e, flags = flags us OR DIRTY\<rparr>)))"

fun batch_entries :: "CCoinsMap \<Rightarrow> (COutPoint \<times> CCoinsCacheEntry) list \<Rightarrow> CCoinsMap option" where
  "batch_entries m [] = Some m"
| "batch_entries m (pe # es) = (case batch_entry m pe of None \<Rightarrow> None | Some m \<Rightarrow> batch_entries m es)"

definition BatchWrite :: "(db_op list \<Rightarrow> bool) \<Rightarrow> CCoinsView \<Rightarrow> (COutPoint \<times> CCoinsCacheEntry) list \<Rightarrow> uint256 \<Rightarrow>
    CCoinsView option" where
  "BatchWrite over_limit v mapCoins hashBlockIn =
     (case v of
        DBView db \<Rightarrow> map_option (\<lambda>states. DBView (last states)) (db_BatchWrite over_limit db mapCoins hashBlockIn)
      | CacheView h m b \<Rightarrow> map_option (\<lambda>m. CacheView hashBlockIn m b) (batch_entries m mapCoins))"

definition Flush :: "(db_op list \<Rightarrow> bool) \<Rightarrow> CCoinsView \<Rightarrow> (COutPoint \<times> CCoinsCacheEntry) list \<Rightarrow> CCoinsView option" where
  "Flush over_limit v order =
     map_option (\<lambda>b. CacheView (hashBlock v) Map.empty b) (BatchWrite over_limit (base v) order (hashBlock v))"

definition Uncache :: "CCoinsView \<Rightarrow> COutPoint \<Rightarrow> CCoinsView" where
  "Uncache v p =
     (case cacheCoins v p of
        Some e \<Rightarrow> if flags e = 0 then CacheView (hashBlock v) ((cacheCoins v)(p := None)) (base v) else v
      | None \<Rightarrow> v)"

fun value_in_loop :: "CCoinsView \<Rightarrow> CAmount \<Rightarrow> CTxIn list \<Rightarrow> CAmount \<times> CCoinsView" where
  "value_in_loop v nResult [] = (nResult, v)"
| "value_in_loop v nResult (i # is) =
     (case AccessCoin v (prevout i) of (c, v) \<Rightarrow> value_in_loop v (nResult + nValue (out c)) is)"

definition GetValueIn :: "CCoinsView \<Rightarrow> CTransaction \<Rightarrow> CAmount \<times> CCoinsView" where
  "GetValueIn v tx = (if tx_IsCoinBase tx then (0, v) else value_in_loop v 0 (vin tx))"

fun have_inputs_loop :: "CCoinsView \<Rightarrow> CTxIn list \<Rightarrow> bool \<times> CCoinsView" where
  "have_inputs_loop v [] = (True, v)"
| "have_inputs_loop v (i # is) =
     (case HaveCoin v (prevout i) of (ok, v) \<Rightarrow> if \<not> ok then (False, v) else have_inputs_loop v is)"

definition HaveInputs :: "CCoinsView \<Rightarrow> CTransaction \<Rightarrow> bool \<times> CCoinsView" where
  "HaveInputs v tx = (if \<not> tx_IsCoinBase tx then have_inputs_loop v (vin tx) else (True, v))"

text \<open>The outputs of a block: its maximal size over the nine bytes of an empty output.\<close>

definition MAX_OUTPUTS_PER_BLOCK :: nat where
  "MAX_OUTPUTS_PER_BLOCK = 2000000 div 9"

function access_by_txid_loop :: "CCoinsView \<Rightarrow> uint256 \<Rightarrow> nat \<Rightarrow> Coin \<times> CCoinsView" where
  "access_by_txid_loop v txid n =
     (if n < MAX_OUTPUTS_PER_BLOCK
      then case AccessCoin v \<lparr>op_hash = txid, op_n = of_nat n\<rparr> of (alternate, v) \<Rightarrow>
        if \<not> coin_IsSpent alternate then (alternate, v) else access_by_txid_loop v txid (n + 1)
      else (coinEmpty, v))"
  by pat_completeness auto
termination
  by (relation "measure (\<lambda>(v, txid, n). MAX_OUTPUTS_PER_BLOCK - n)") auto

declare access_by_txid_loop.simps [simp del]

definition AccessByTxid :: "CCoinsView \<Rightarrow> uint256 \<Rightarrow> Coin \<times> CCoinsView" where
  "AccessByTxid v txid = access_by_txid_loop v txid 0"

subsection \<open>The abstract set of unspent outputs\<close>

definition entry_val :: "CCoinsCacheEntry \<Rightarrow> Coin option" where
  "entry_val e = (if coin_IsSpent (coin e) then None else Some (coin e))"

fun utxo :: "CCoinsView \<Rightarrow> COutPoint \<Rightarrow> Coin option" where
  "utxo (DBView db) p = db_coins db p"
| "utxo (CacheView h m b) p = (case m p of Some e \<Rightarrow> entry_val e | None \<Rightarrow> utxo b p)"

text \<open>The five states of an entry that coins.h lists.\<close>

definition valid_entry :: "CCoinsCacheEntry \<Rightarrow> bool" where
  "valid_entry e \<longleftrightarrow>
     (if coin_IsSpent (coin e) then is_fresh e \<noteq> is_dirty e else is_fresh e \<longrightarrow> is_dirty e)"

text \<open>
  What an entry says about the view below: a FRESH coin is not there, and an entry that is not DIRTY
  agrees with it.
\<close>

definition entry_inv :: "Coin option \<Rightarrow> CCoinsCacheEntry \<Rightarrow> bool" where
  "entry_inv below e \<longleftrightarrow>
     valid_entry e \<and> (is_fresh e \<longrightarrow> below = None) \<and> (\<not> is_dirty e \<longrightarrow> below = entry_val e)"

fun view_inv :: "CCoinsView \<Rightarrow> bool" where
  "view_inv (DBView db) \<longleftrightarrow> (\<forall>p c. db_coins db p = Some c \<longrightarrow> \<not> coin_IsSpent c)"
| "view_inv (CacheView h m b) \<longleftrightarrow> view_inv b \<and> (\<forall>p e. m p = Some e \<longrightarrow> entry_inv (utxo b p) e)"

lemma utxo_unspent: "view_inv v \<Longrightarrow> utxo v p = Some c \<Longrightarrow> \<not> coin_IsSpent c"
  by (induction v) (auto simp: entry_val_def split: option.splits if_splits)

lemma flag_bits [simp]: "x AND (1 :: u8) \<noteq> 0 \<longleftrightarrow> bit x 0" "x AND (2 :: u8) \<noteq> 0 \<longleftrightarrow> bit x 1"
  using and_push_bit_1 [of x 0] and_push_bit_1 [of x 1] by simp_all

lemma flag_simps [simp]:
  "is_dirty (mk_entry c) = False" "is_fresh (mk_entry c) = False"
  "is_dirty \<lparr>coin = c, flags = f OR DIRTY\<rparr>" "is_fresh \<lparr>coin = c, flags = f OR DIRTY\<rparr> \<longleftrightarrow> bit f 1"
  "is_dirty \<lparr>coin = c, flags = f OR (DIRTY OR g)\<rparr>"
  "is_fresh \<lparr>coin = c, flags = f OR (DIRTY OR (if b then FRESH else 0))\<rparr> \<longleftrightarrow> bit f 1 \<or> b"
  "is_dirty \<lparr>coin = c, flags = (if b then DIRTY OR FRESH else DIRTY)\<rparr>"
  "is_dirty \<lparr>coin = c, flags = DIRTY OR FRESH\<rparr>"
  "is_fresh \<lparr>coin = c, flags = (if b then DIRTY OR FRESH else DIRTY)\<rparr> \<longleftrightarrow> b"
  by (simp_all add: is_dirty_def is_fresh_def DIRTY_def FRESH_def mk_entry_def bit_simps)

lemma is_fresh_bit: "is_fresh e \<longleftrightarrow> bit (flags e) 1" and is_dirty_bit: "is_dirty e \<longleftrightarrow> bit (flags e) 0"
  by (simp_all add: is_fresh_def is_dirty_def FRESH_def DIRTY_def)

lemma entry_sel [simp]: "coin (mk_entry c) = c"
  by (simp add: mk_entry_def)

lemma spent_simps [simp]: "coin_IsSpent coinEmpty" "coin_IsSpent (coin_Clear c)"
  by (simp_all add: coin_IsSpent_def coinEmpty_def coin_Clear_def txout_IsNull_def txout_null_def)

subsection \<open>Lookups\<close>

lemma utxo_CacheView_cong: "utxo b = utxo b' \<Longrightarrow> utxo (CacheView h m b) = utxo (CacheView h' m b')"
  by (rule ext) (simp split: option.split)

lemma view_inv_CacheView_cong:
  "utxo b = utxo b' \<Longrightarrow> view_inv b' \<Longrightarrow> view_inv (CacheView h m b) \<Longrightarrow> view_inv (CacheView h' m b')"
  by simp

lemma FetchCoin_step:
  assumes "\<exists>b'. GetCoin b p = (utxo b p, b') \<and> view_inv b' \<and> utxo b' = utxo b" "view_inv (CacheView h m b)"
  shows "\<exists>m' b'. FetchCoin (CacheView h m b) p = (m' p, CacheView h m' b') \<and>
     view_inv (CacheView h m' b') \<and> utxo (CacheView h m' b') = utxo (CacheView h m b) \<and>
     (m' p = None \<longrightarrow> utxo b' p = None)"
proof (cases "m p")
  case None
  obtain b' where b': "GetCoin b p = (utxo b p, b')" "view_inv b'" "utxo b' = utxo b"
    using assms(1) by blast
  show ?thesis
  proof (cases "utxo b p")
    case no: None
    then show ?thesis
      using None b' utxo_CacheView_cong [OF b'(3)] view_inv_CacheView_cong [OF b'(3) [symmetric] b'(2) assms(2)]
      by (intro exI [of _ m] exI [of _ b']) simp
  next
    case (Some c)
    then have c: "\<not> coin_IsSpent c"
      using utxo_unspent assms(2) by auto
    have "utxo (CacheView h (m(p \<mapsto> mk_entry c)) b') = utxo (CacheView h m b)"
      by (rule ext) (use None Some c in \<open>simp add: b'(3) entry_val_def split: option.split\<close>)
    then show ?thesis
      using None b' Some c assms(2)
      by (intro exI [of _ "m(p \<mapsto> mk_entry c)"] exI [of _ b'])
        (auto simp: Let_def entry_val_def entry_inv_def valid_entry_def)
  qed
next
  case (Some e)
  then show ?thesis
    using assms(2) by (intro exI [of _ m] exI [of _ b]) simp
qed

lemma GetCoin_utxo:
  "view_inv v \<Longrightarrow> \<exists>v'. GetCoin v p = (utxo v p, v') \<and> view_inv v' \<and> utxo v' = utxo v"
proof (induction v)
  case (CacheView h m b)
  then obtain m' b' where f: "FetchCoin (CacheView h m b) p = (m' p, CacheView h m' b')"
      "view_inv (CacheView h m' b')" "utxo (CacheView h m' b') = utxo (CacheView h m b)"
      "m' p = None \<longrightarrow> utxo b' p = None"
    using FetchCoin_step [of b p h m] by auto
  have "GetCoin (CacheView h m b) p = (utxo (CacheView h m' b') p, CacheView h m' b')"
    using f(4) by (simp only: GetCoin.simps f(1) prod.case) (simp add: entry_val_def split: option.split)
  then show ?case
    using f(2,3) by (metis (no_types))
qed simp

lemma FetchCoin_spec:
  assumes "view_inv (CacheView h m b)"
  obtains m' b' where "FetchCoin (CacheView h m b) p = (m' p, CacheView h m' b')"
    "view_inv (CacheView h m' b')" "utxo (CacheView h m' b') = utxo (CacheView h m b)"
    "m' p = None \<longrightarrow> utxo b' p = None"
proof -
  have "view_inv b"
    using assms by simp
  from FetchCoin_step [OF GetCoin_utxo [OF this, of p] assms] show thesis
    by (elim exE conjE) (rule that)
qed

lemma utxo_at: "(m p = None \<longrightarrow> utxo b p = None) \<Longrightarrow> utxo (CacheView h m b) p = Option.bind (m p) entry_val"
  by (cases "m p") simp_all

lemma HaveCoin_utxo:
  assumes "view_inv v"
  shows "\<exists>v'. HaveCoin v p = (utxo v p \<noteq> None, v') \<and> view_inv v' \<and> utxo v' = utxo v"
proof (cases v)
  case v: (CacheView h m b)
  obtain m' b' where f: "FetchCoin (CacheView h m b) p = (m' p, CacheView h m' b')"
      "view_inv (CacheView h m' b')" "utxo (CacheView h m' b') = utxo (CacheView h m b)" "m' p = None \<longrightarrow> utxo b' p = None"
    by (rule FetchCoin_spec [OF assms [unfolded v], where p = p])
  have "utxo v p = Option.bind (m' p) entry_val"
    using utxo_at [of m' p b' h] f(3,4) unfolding v by metis
  then have "HaveCoin v p = (utxo v p \<noteq> None, CacheView h m' b')"
    using f(1) by (cases "m' p") (auto simp: HaveCoin_def v entry_val_def simp del: utxo.simps)
  then show ?thesis
    using f(2,3) unfolding v by blast
qed (use assms in \<open>simp add: HaveCoin_def\<close>)

lemma AccessCoin_utxo:
  assumes "view_inv (CacheView h m b)"
  shows "\<exists>c m' b'. AccessCoin (CacheView h m b) p = (c, CacheView h m' b') \<and> view_inv (CacheView h m' b') \<and>
    utxo (CacheView h m' b') = utxo (CacheView h m b) \<and>
    utxo (CacheView h m b) p = (if coin_IsSpent c then None else Some c)"
proof -
  obtain m' b' where f: "FetchCoin (CacheView h m b) p = (m' p, CacheView h m' b')"
      "view_inv (CacheView h m' b')" "utxo (CacheView h m' b') = utxo (CacheView h m b)" "m' p = None \<longrightarrow> utxo b' p = None"
    by (rule FetchCoin_spec [OF assms, where p = p])
  have "utxo (CacheView h m b) p = Option.bind (m' p) entry_val"
    using utxo_at [of m' p b' h] f(3,4) by metis
  then show ?thesis
    using f(1-3) by (cases "m' p") (auto simp: AccessCoin_def entry_val_def)
qed

subsection \<open>Updates\<close>

lemma view_inv_upd:
  assumes "view_inv (CacheView h m b)" "entry_inv (utxo b p) e"
  shows "view_inv (CacheView h' (m(p \<mapsto> e)) b)"
  using assms by simp

lemma utxo_upd: "utxo (CacheView h' (m(p \<mapsto> e)) b) = (utxo (CacheView h m b))(p := entry_val e)"
  by (rule ext) simp

lemma utxo_erase: "utxo b p = None \<Longrightarrow> utxo (CacheView h' (m(p := None)) b) = (utxo (CacheView h m b))(p := None)"
  by (rule ext) simp

text \<open>A coin may be added without the overwrite flag only where none is unspent, in the cache or below.\<close>

lemma AddCoin_spec:
  assumes "view_inv (CacheView h m b)" "\<not> coin_IsSpent c" "\<not> IsUnspendable (scriptPubKey (out c))"
    "\<not> possible_overwrite \<longrightarrow> utxo (CacheView h m b) p = None"
  shows "\<exists>m'. AddCoin (CacheView h m b) p c possible_overwrite = Some (CacheView h m' b) \<and>
    view_inv (CacheView h m' b) \<and> utxo (CacheView h m' b) = (utxo (CacheView h m b))(p \<mapsto> c)"
proof -
  define it where "it = (case m p of None \<Rightarrow> mk_entry coinEmpty | Some e \<Rightarrow> e)"
  define fresh where "fresh = (\<not> possible_overwrite \<and> \<not> is_dirty it)"
  let ?e = "\<lparr>coin = c, flags = flags it OR (DIRTY OR (if fresh then FRESH else 0))\<rparr>"
  have it: "m p = None \<longrightarrow> it = mk_entry coinEmpty" "\<forall>e. m p = Some e \<longrightarrow> it = e \<and> entry_inv (utxo b p) e"
    using assms(1) by (auto simp: it_def)
  have throws: "\<not> (\<not> possible_overwrite \<and> \<not> coin_IsSpent (coin it))"
    using assms(4) it by (cases "m p") (auto simp: entry_val_def)
  have below: "is_fresh ?e \<longrightarrow> utxo b p = None"
  proof
    assume "is_fresh ?e"
    then have "bit (flags it) 1 \<or> fresh"
      by simp
    then show "utxo b p = None"
      using it assms(4) by (cases "m p") (auto simp: fresh_def entry_inv_def is_fresh_bit mk_entry_def entry_val_def split: if_splits)
  qed
  then have "entry_inv (utxo b p) ?e"
    using assms(2) by (simp add: entry_inv_def valid_entry_def)
  then have "view_inv (CacheView h (m(p \<mapsto> ?e)) b)"
    by (rule view_inv_upd [OF assms(1)])
  moreover have "utxo (CacheView h (m(p \<mapsto> ?e)) b) = (utxo (CacheView h m b))(p \<mapsto> c)"
    unfolding utxo_upd [where h = h] using assms(2) by (simp add: entry_val_def)
  moreover have "AddCoin (CacheView h m b) p c possible_overwrite = Some (CacheView h (m(p \<mapsto> ?e)) b)"
    using assms(2,3) throws by (simp add: AddCoin_def Let_def it_def [symmetric] fresh_def [symmetric])
  ultimately show ?thesis
    by blast
qed

lemma SpendCoin_spec:
  assumes "view_inv (CacheView h m b)"
  shows "\<exists>found c m' b'. SpendCoin (CacheView h m b) p = (found, c, CacheView h m' b') \<and>
    view_inv (CacheView h m' b') \<and> utxo (CacheView h m' b') = (utxo (CacheView h m b))(p := None) \<and>
    (utxo (CacheView h m b) p = (if found then Option.bind c (\<lambda>c. if coin_IsSpent c then None else Some c) else None))"
proof -
  obtain m' b' where f: "FetchCoin (CacheView h m b) p = (m' p, CacheView h m' b')"
      "view_inv (CacheView h m' b')" "utxo (CacheView h m' b') = utxo (CacheView h m b)" "m' p = None \<longrightarrow> utxo b' p = None"
    by (rule FetchCoin_spec [OF assms, where p = p])
  have u: "utxo (CacheView h m b) p = Option.bind (m' p) entry_val"
    using utxo_at [of m' p b' h] f(3,4) by metis
  show ?thesis
  proof (cases "m' p")
    case None
    then have "SpendCoin (CacheView h m b) p = (False, None, CacheView h m' b')"
      using f(1) by (simp add: SpendCoin_def)
    then show ?thesis
      using f(2,3) u None by (intro exI [of _ False] exI [of _ None] exI [of _ m'] exI [of _ b']) (simp add: fun_upd_idem)
  next
    case (Some e)
    then have inv: "entry_inv (utxo b' p) e"
      using f(2) by simp
    show ?thesis
    proof (cases "is_fresh e")
      case True
      then have "utxo b' p = None"
        using inv by (simp add: entry_inv_def)
      from utxo_erase [OF this, of h m' h] have "utxo (CacheView h (m'(p := None)) b') = (utxo (CacheView h m b))(p := None)"
        unfolding f(3) .
      moreover have "view_inv (CacheView h (m'(p := None)) b')"
        using f(2) by simp
      moreover have "SpendCoin (CacheView h m b) p = (True, Some (coin e), CacheView h (m'(p := None)) b')"
        using f(1) Some True by (simp add: SpendCoin_def)
      ultimately show ?thesis
        using u Some by (intro exI [of _ True] exI [of _ "Some (coin e)"] exI [of _ "m'(p := None)"] exI [of _ b'])
          (simp add: entry_val_def)
    next
      case False
      let ?e = "\<lparr>coin = coin_Clear (coin e), flags = flags e OR DIRTY\<rparr>"
      have "entry_inv (utxo b' p) ?e"
        using False is_fresh_bit [of e] by (simp add: entry_inv_def valid_entry_def)
      then have "view_inv (CacheView h (m'(p \<mapsto> ?e)) b')"
        by (rule view_inv_upd [OF f(2)])
      moreover have "utxo (CacheView h (m'(p \<mapsto> ?e)) b') = (utxo (CacheView h m b))(p := None)"
        unfolding utxo_upd [where h = h] f(3) by (simp add: entry_val_def)
      moreover have "SpendCoin (CacheView h m b) p = (True, Some (coin e), CacheView h (m'(p \<mapsto> ?e)) b')"
        using f(1) Some False by (simp add: SpendCoin_def)
      ultimately show ?thesis
        using u Some by (intro exI [of _ True] exI [of _ "Some (coin e)"] exI [of _ "m'(p \<mapsto> ?e)"] exI [of _ b'])
          (simp add: entry_val_def)
    qed
  qed
qed

lemma Uncache_spec:
  assumes "view_inv (CacheView h m b)"
  shows "view_inv (Uncache (CacheView h m b) p) \<and> utxo (Uncache (CacheView h m b) p) = utxo (CacheView h m b)"
proof (cases "\<exists>e. m p = Some e \<and> flags e = 0")
  case True
  then obtain e where e: "m p = Some e" "flags e = 0"
    by blast
  then have "utxo b p = entry_val e"
    using assms by (auto simp: entry_inv_def is_dirty_bit)
  then have "utxo (CacheView h (m(p := None)) b) = utxo (CacheView h m b)"
    by (intro ext) (simp add: e(1))
  then show ?thesis
    using assms e by (simp add: Uncache_def)
next
  case False
  then show ?thesis
    using assms by (auto simp: Uncache_def split: option.split)
qed

subsection \<open>Writing a cache to the view below\<close>

text \<open>The coin at an outpoint after the entries of a child cache are written over those of the view below.\<close>

definition written :: "(COutPoint \<Rightarrow> Coin option) \<Rightarrow> CCoinsMap \<Rightarrow> COutPoint \<Rightarrow> Coin option" where
  "written below m p = (case m p of Some e \<Rightarrow> if is_dirty e then entry_val e else below p | None \<Rightarrow> below p)"

lemma written_inv:
  "view_inv (CacheView h m b) \<Longrightarrow> written (utxo b) m = utxo (CacheView h m b)"
  by (rule ext) (auto simp: written_def entry_inv_def split: option.splits)

lemma batch_entry_spec:
  assumes "view_inv (CacheView h m b)" "entry_inv (utxo (CacheView h m b) p) e"
  shows "\<exists>m'. batch_entry m (p, e) = Some m' \<and> view_inv (CacheView h m' b) \<and>
    utxo (CacheView h m' b) = (utxo (CacheView h m b))(p := if is_dirty e then entry_val e else utxo (CacheView h m b) p)"
proof (cases "is_dirty e")
  case False
  then show ?thesis
    using assms(1) by (simp add: batch_entry_def fun_upd_idem)
next
  case dirty: True
  show ?thesis
  proof (cases "m p")
    case None
    show ?thesis
    proof (cases "is_fresh e \<and> coin_IsSpent (coin e)")
      case True
      then show ?thesis
        using assms(2) dirty by (simp add: entry_inv_def valid_entry_def)
    next
      case False
      let ?e = "\<lparr>coin = coin e, flags = (if is_fresh e then DIRTY OR FRESH else DIRTY)\<rparr>"
      have "entry_inv (utxo b p) ?e"
        using assms(2) dirty None False by (auto simp: entry_inv_def valid_entry_def)
      then have "view_inv (CacheView h (m(p \<mapsto> ?e)) b)"
        by (rule view_inv_upd [OF assms(1)])
      moreover have "entry_val ?e = entry_val e"
        by (simp add: entry_val_def)
      moreover have "batch_entry m (p, e) = Some (m(p \<mapsto> ?e))"
        using dirty None False by (simp add: batch_entry_def)
      ultimately show ?thesis
        using dirty utxo_upd [of h m p ?e b h] by auto
    qed
  next
    case (Some us)
    have us: "entry_inv (utxo b p) us"
      using assms(1) Some by simp
    have throws: "\<not> (is_fresh e \<and> \<not> coin_IsSpent (coin us))"
      using assms(2) Some by (auto simp: entry_inv_def entry_val_def split: if_splits)
    show ?thesis
    proof (cases "is_fresh us \<and> coin_IsSpent (coin e)")
      case True
      then have "utxo b p = None"
        using us by (simp add: entry_inv_def)
      moreover have "batch_entry m (p, e) = Some (m(p := None))"
        using dirty Some throws True by (auto simp: batch_entry_def)
      moreover have "view_inv (CacheView h (m(p := None)) b)"
        using assms(1) by simp
      ultimately show ?thesis
        using True dirty utxo_erase [of b p h m h] by (simp add: entry_val_def)
    next
      case False
      let ?e = "\<lparr>coin = coin e, flags = flags us OR DIRTY\<rparr>"
      have "entry_inv (utxo b p) ?e"
        using us False is_fresh_bit [of us] by (auto simp: entry_inv_def valid_entry_def)
      then have "view_inv (CacheView h (m(p \<mapsto> ?e)) b)"
        by (rule view_inv_upd [OF assms(1)])
      moreover have "entry_val ?e = entry_val e"
        by (simp add: entry_val_def)
      moreover have "batch_entry m (p, e) = Some (m(p \<mapsto> ?e))"
        using dirty Some throws False by (auto simp: batch_entry_def)
      ultimately show ?thesis
        using dirty utxo_upd [of h m p ?e b h] by auto
    qed
  qed
qed

lemma batch_entries_spec:
  assumes "view_inv (CacheView h m b)" "distinct (map fst es)"
    "\<forall>(p, e) \<in> set es. entry_inv (utxo (CacheView h m b) p) e"
  shows "\<exists>m'. batch_entries m es = Some m' \<and> view_inv (CacheView h m' b) \<and>
    utxo (CacheView h m' b) = written (utxo (CacheView h m b)) (map_of es)"
  using assms
proof (induction es arbitrary: m)
  case Nil
  then show ?case
    by (auto simp: written_def intro!: ext split: option.split)
next
  case (Cons pe es)
  obtain p e where pe: "pe = (p, e)"
    by fastforce
  obtain m1 where m1: "batch_entry m (p, e) = Some m1" "view_inv (CacheView h m1 b)"
      "utxo (CacheView h m1 b) = (utxo (CacheView h m b))(p := if is_dirty e then entry_val e else utxo (CacheView h m b) p)"
    using batch_entry_spec [OF Cons.prems(1), of p e] Cons.prems(3) pe by auto
  have np: "p \<notin> fst ` set es" "distinct (map fst es)"
    using Cons.prems(2) by (simp_all add: pe)
  have "\<forall>(q, e) \<in> set es. entry_inv (utxo (CacheView h m1 b) q) e"
    using Cons.prems(3) np(1) unfolding m1(3) by (force simp del: utxo.simps)
  from Cons.IH [OF m1(2) np(2) this] obtain m' where m': "batch_entries m1 es = Some m'" "view_inv (CacheView h m' b)"
      "utxo (CacheView h m' b) = written (utxo (CacheView h m1 b)) (map_of es)"
    by blast
  have "map_of es p = None"
    using np(1) by (simp add: map_of_eq_None_iff)
  then have "written (utxo (CacheView h m1 b)) (map_of es) = written (utxo (CacheView h m b)) (map_of (pe # es))"
    unfolding m1(3) by (intro ext) (simp add: written_def pe del: utxo.simps split: option.split)
  then have "utxo (CacheView h m' b) = written (utxo (CacheView h m b)) (map_of (pe # es))"
    by (simp only: m'(3))
  moreover have "batch_entries m (pe # es) = Some m'"
    using m'(1) m1(1) by (simp add: pe)
  ultimately show ?case
    using m'(2) by blast
qed

subsection \<open>Writing to the database\<close>

lemma WriteBatch_simps [simp]: "WriteBatch db [] = db" "WriteBatch db (batch @ batch') = WriteBatch (WriteBatch db batch) batch'"
  by (simp_all add: WriteBatch_def)

lemma WriteBatch_entry:
  "WriteBatch db (db_entry_ops (p, e)) =
     db\<lparr>db_coins := (db_coins db)(p := if is_dirty e then entry_val e else db_coins db p)\<rparr>"
  by (simp add: WriteBatch_def db_entry_ops_def entry_val_def fun_upd_idem)

lemma db_write_loop_spec:
  "db_write_loop over_limit db batch es = (states, db', batch') \<Longrightarrow> distinct (map fst es) \<Longrightarrow>
   WriteBatch db' batch' = (WriteBatch db batch)\<lparr>db_coins := written (db_coins (WriteBatch db batch)) (map_of es)\<rparr> \<and>
   (\<forall>st \<in> set states. db_best st = db_best (WriteBatch db batch) \<and> db_heads st = db_heads (WriteBatch db batch))"
proof (induction over_limit db batch es arbitrary: states rule: db_write_loop.induct)
  case (1 over_limit db batch)
  then show ?case
    by (auto simp: written_def)
next
  case (2 over_limit db batch pe es)
  obtain p e where pe: "pe = (p, e)"
    by fastforce
  let ?batch = "batch @ db_entry_ops pe"
  have np: "map_of es p = None" and d: "distinct (map fst es)"
    using "2.prems"(2) by (simp_all add: pe map_of_eq_None_iff)
  have w: "written (db_coins (WriteBatch db ?batch)) (map_of es) = written (db_coins (WriteBatch db batch)) (map_of (pe # es))"
    using np by (intro ext) (simp add: written_def pe WriteBatch_entry split: option.split)
  have same: "db_best (WriteBatch db ?batch) = db_best (WriteBatch db batch)"
      "db_heads (WriteBatch db ?batch) = db_heads (WriteBatch db batch)"
      "(WriteBatch db ?batch)\<lparr>db_coins := x\<rparr> = (WriteBatch db batch)\<lparr>db_coins := x\<rparr>" for x
    by (simp_all add: pe WriteBatch_entry)
  show ?case
  proof (cases "over_limit ?batch")
    case True
    obtain states' where s: "db_write_loop over_limit (WriteBatch db ?batch) [] es = (states', db', batch')"
        "states = WriteBatch db ?batch # states'"
      using "2.prems"(1) True by (auto simp: Let_def split: prod.splits)
    show ?thesis
      using "2.IH"(1) [OF refl True refl s(1) d] w same by (simp add: s(2) del: WriteBatch_simps(2) map_of.simps)
  next
    case False
    then have "db_write_loop over_limit db ?batch es = (states, db', batch')"
      using "2.prems"(1) by (simp add: Let_def)
    from "2.IH"(2) [OF refl False this d] show ?thesis
      using w same by (simp del: WriteBatch_simps(2) map_of.simps)
  qed
qed

lemma db_BatchWrite_spec:
  assumes "\<not> uint256_IsNull h" "db_old_tip db h = Some old_tip" "distinct (map fst es)"
  shows "\<exists>states. db_BatchWrite over_limit db es h = Some (states @
      [\<lparr>db_coins = written (db_coins db) (map_of es), db_best = Some h, db_heads = None\<rparr>]) \<and>
    (\<forall>st \<in> set states. db_best st = None \<and> db_heads st = Some [h, old_tip])"
proof -
  let ?b = "[EraseBestBlock, WriteHeadBlocks [h, old_tip]]"
  obtain states db' batch' where l: "db_write_loop over_limit db ?b es = (states, db', batch')"
    by (metis prod_cases3)
  note spec = db_write_loop_spec [OF l assms(3)]
  have "WriteBatch db ?b = db\<lparr>db_best := None, db_heads := Some [h, old_tip]\<rparr>"
    by (simp add: WriteBatch_def)
  moreover have "WriteBatch db'' [EraseHeadBlocks, WriteBestBlock h] = db''\<lparr>db_heads := None, db_best := Some h\<rparr>" for db''
    by (simp add: WriteBatch_def)
  ultimately show ?thesis
    using spec assms(1,2) l by (intro exI [of _ states]) (simp add: db_BatchWrite_def)
qed

lemma iterates_entry: "iterates es m \<Longrightarrow> (p, e) \<in> set es \<Longrightarrow> m p = Some e"
  by (auto simp: iterates_def)

lemma utxo_DBView: "utxo (DBView db) = db_coins db"
  by (rule ext) simp

lemma Flush_spec:
  assumes "view_inv (CacheView h m b)" "iterates es m"
    "case b of DBView db \<Rightarrow> \<not> uint256_IsNull h \<and> db_old_tip db h \<noteq> None | CacheView _ _ _ \<Rightarrow> True"
  shows "\<exists>b'. Flush over_limit (CacheView h m b) es = Some (CacheView h Map.empty b') \<and>
    view_inv (CacheView h Map.empty b') \<and> utxo b' = utxo (CacheView h m b) \<and>
    (\<not> uint256_IsNull h \<longrightarrow> fst (GetBestBlock b') = h)"
proof (cases b)
  case (DBView db)
  then obtain old_tip where t: "\<not> uint256_IsNull h" "db_old_tip db h = Some old_tip"
    using assms(3) by auto
  let ?db = "\<lparr>db_coins = written (db_coins db) (map_of es), db_best = Some h, db_heads = None\<rparr>"
  obtain states where s: "db_BatchWrite over_limit db es h = Some (states @ [?db])"
    using db_BatchWrite_spec [OF t, of es over_limit] assms(2) by (auto simp: iterates_def)
  have "written (db_coins db) (map_of es) = utxo (CacheView h m b)"
    using written_inv [OF assms(1)] assms(2) by (simp add: iterates_def DBView utxo_DBView del: utxo.simps)
  moreover have "view_inv (DBView ?db)"
    using calculation utxo_unspent [OF assms(1)] by (simp del: utxo.simps)
  ultimately show ?thesis
    using s t(1) by (intro exI [of _ "DBView ?db"])
      (auto simp: Flush_def BatchWrite_def DBView db_GetBestBlock_def fun_eq_iff simp del: utxo.simps(2))
next
  case (CacheView h1 m1 b1)
  have "\<forall>(p, e) \<in> set es. entry_inv (utxo (CacheView h m1 b1) p) e"
    using assms(1) iterates_entry [OF assms(2)] by (auto simp: CacheView)
  moreover have "view_inv (CacheView h m1 b1)"
    using assms(1) by (simp add: CacheView)
  ultimately obtain m' where m': "batch_entries m1 es = Some m'" "view_inv (CacheView h m' b1)"
      "utxo (CacheView h m' b1) = written (utxo (CacheView h m1 b1)) (map_of es)"
    using batch_entries_spec [of h m1 b1 es] assms(2) by (auto simp: iterates_def)
  have "utxo (CacheView h m1 b1) = utxo b"
    by (simp add: CacheView fun_eq_iff)
  then have "utxo (CacheView h m' b1) = utxo (CacheView h m b)"
    using m'(3) written_inv [OF assms(1)] assms(2) by (simp add: iterates_def del: utxo.simps)
  then show ?thesis
    using m'(1,2) by (intro exI [of _ "CacheView h m' b1"])
      (simp add: Flush_def BatchWrite_def CacheView del: utxo.simps)
qed

subsection \<open>Sequences of operations\<close>

datatype coins_op =
    OpGet COutPoint
  | OpHave COutPoint
  | OpAccess COutPoint
  | OpAdd COutPoint Coin bool
  | OpSpend COutPoint
  | OpUncache COutPoint
  | OpFlush "(COutPoint \<times> CCoinsCacheEntry) list"
  | OpNewCache

inductive coins_step :: "(db_op list \<Rightarrow> bool) \<Rightarrow> CCoinsView \<Rightarrow> coins_op \<Rightarrow> CCoinsView \<Rightarrow> bool" for over_limit where
  step_get: "GetCoin (CacheView h m b) p = (c, v) \<Longrightarrow> coins_step over_limit (CacheView h m b) (OpGet p) v"
| step_have: "HaveCoin (CacheView h m b) p = (r, v) \<Longrightarrow> coins_step over_limit (CacheView h m b) (OpHave p) v"
| step_access: "AccessCoin (CacheView h m b) p = (c, v) \<Longrightarrow> coins_step over_limit (CacheView h m b) (OpAccess p) v"
| step_add: "AddCoin (CacheView h m b) p c ow = Some v \<Longrightarrow> ow \<or> utxo (CacheView h m b) p = None \<Longrightarrow>
    coins_step over_limit (CacheView h m b) (OpAdd p c ow) v"
| step_spend: "SpendCoin (CacheView h m b) p = (r, c, v) \<Longrightarrow> coins_step over_limit (CacheView h m b) (OpSpend p) v"
| step_uncache: "coins_step over_limit (CacheView h m b) (OpUncache p) (Uncache (CacheView h m b) p)"
| step_flush: "iterates es m \<Longrightarrow> Flush over_limit (CacheView h m b) es = Some v \<Longrightarrow>
    coins_step over_limit (CacheView h m b) (OpFlush es) v"
| step_new: "coins_step over_limit v OpNewCache (CacheView uint256_null Map.empty v)"

fun utxo_step :: "coins_op \<Rightarrow> (COutPoint \<Rightarrow> Coin option) \<Rightarrow> COutPoint \<Rightarrow> Coin option" where
  "utxo_step (OpAdd p c ow) u = (if IsUnspendable (scriptPubKey (out c)) then u else u(p \<mapsto> c))"
| "utxo_step (OpSpend p) u = u(p := None)"
| "utxo_step _ u = u"

inductive coins_run :: "(db_op list \<Rightarrow> bool) \<Rightarrow> CCoinsView \<Rightarrow> coins_op list \<Rightarrow> CCoinsView \<Rightarrow> bool" for over_limit where
  Nil: "coins_run over_limit v [] v"
| Cons: "coins_step over_limit v x v' \<Longrightarrow> coins_run over_limit v' xs v'' \<Longrightarrow> coins_run over_limit v (x # xs) v''"

lemma Flush_SomeD:
  assumes "view_inv (CacheView h m b)" "iterates es m" "Flush over_limit (CacheView h m b) es = Some v"
  shows "view_inv v \<and> utxo v = utxo (CacheView h m b)"
proof -
  have "case b of DBView db \<Rightarrow> \<not> uint256_IsNull h \<and> db_old_tip db h \<noteq> None | CacheView _ _ _ \<Rightarrow> True"
    using assms(3) by (auto simp: Flush_def BatchWrite_def db_BatchWrite_def split: CCoinsView.split if_splits option.splits)
  from Flush_spec [OF assms(1,2) this, of over_limit] obtain b' where
      "v = CacheView h Map.empty b'" "view_inv v" "utxo b' = utxo (CacheView h m b)"
    using assms(3) by auto
  then show ?thesis
    by (simp add: fun_eq_iff)
qed

lemma coins_step_refines:
  "coins_step over_limit v x v' \<Longrightarrow> view_inv v \<Longrightarrow> view_inv v' \<and> utxo v' = utxo_step x (utxo v)"
proof (induction rule: coins_step.induct)
  case (step_get h m b p c v)
  then show ?case
    using GetCoin_utxo [OF step_get(2), of p] by (auto simp del: utxo.simps)
next
  case (step_have h m b p r v)
  then show ?case
    using HaveCoin_utxo [OF step_have(2), of p] by (auto simp del: utxo.simps)
next
  case (step_access h m b p c v)
  then show ?case
    using AccessCoin_utxo [OF step_access(2), of p] by (auto simp del: utxo.simps)
next
  case (step_add h m b p c ow v)
  have c: "\<not> coin_IsSpent c"
    using step_add(1) by (simp add: AddCoin_def split: if_splits)
  show ?case
  proof (cases "IsUnspendable (scriptPubKey (out c))")
    case True
    then have "v = CacheView h m b"
      using step_add(1) c by (simp add: AddCoin_def)
    then show ?thesis
      using True step_add(3) by (simp del: utxo.simps view_inv.simps)
  next
    case False
    have "\<not> ow \<longrightarrow> utxo (CacheView h m b) p = None"
      using step_add(2) by blast
    from AddCoin_spec [OF step_add(3) c False this] show ?thesis
      using step_add(1) False by (auto simp del: utxo.simps view_inv.simps)
  qed
next
  case (step_spend h m b p r c v)
  then show ?case
    using SpendCoin_spec [OF step_spend(2), of p] by (auto simp del: utxo.simps)
next
  case (step_uncache h m b p)
  then show ?case
    using Uncache_spec by (simp del: utxo.simps)
next
  case (step_flush es m h b v)
  show ?case
    using Flush_SomeD [OF step_flush(3,1,2)] by (simp only: utxo_step.simps)
next
  case (step_new v)
  then show ?case
    by (simp add: fun_eq_iff)
qed

lemma coins_run_refines:
  "coins_run over_limit v xs v' \<Longrightarrow> view_inv v \<Longrightarrow> view_inv v' \<and> utxo v' = fold utxo_step xs (utxo v)"
  by (induction rule: coins_run.induct) (auto dest: coins_step_refines)

subsection \<open>Properties of the coin views\<close>

definition demo_coin :: Coin where
  "demo_coin = mk_Coin \<lparr>nValue = 700, scriptPubKey = [118]\<rparr> 5 False"

definition demo_outpoint :: COutPoint where
  "demo_outpoint = \<lparr>op_hash = replicate 32 9, op_n = 0\<rparr>"

definition demo_db :: CoinsDB where
  "demo_db = \<lparr>db_coins = [demo_outpoint \<mapsto> demo_coin], db_best = Some (replicate 32 1), db_heads = None\<rparr>"

definition demo_view :: CCoinsView where
  "demo_view = CacheView (replicate 32 2) [demo_outpoint \<mapsto> \<lparr>coin = coinEmpty, flags = DIRTY\<rparr>] (DBView demo_db)"

lemma demo_coin_unspent: "\<not> coin_IsSpent demo_coin"
  by (simp add: demo_coin_def mk_Coin_def coin_IsSpent_def txout_IsNull_def)

lemma demo_view_inv: "view_inv demo_view"
  using demo_coin_unspent
  by (auto simp: demo_view_def demo_db_def entry_inv_def valid_entry_def is_dirty_def is_fresh_def DIRTY_def FRESH_def
      split: if_splits)

text \<open>
  C2: a stack of coin caches is the set of unspent outputs. Any sequence of lookups,
  additions, spends, evictions, flushes and new caches keeps the invariant of the entries (one of the five
  states of coins.h, FRESH coins absent below, clean entries equal to the view below), and the set of
  unspent outputs of the resulting stack is what the sequence does to the abstract set: additions and
  spends change it, everything else, in particular caching and flushing, leaves it as it was.
\<close>

theorem coins_run_utxo:
  assumes "coins_run over_limit v xs v'" "view_inv v"
  shows "view_inv v' \<and> utxo v' = fold utxo_step xs (utxo v)"
  using coins_run_refines [OF assms] .

theorem coins_run_utxo_witness:
  "utxo (snd (snd (SpendCoin (CacheView uint256_null Map.empty (DBView demo_db)) demo_outpoint))) =
     (utxo (DBView demo_db))(demo_outpoint := None)"
proof -
  let ?v = "CacheView uint256_null Map.empty (DBView demo_db)"
  obtain r c v where s: "SpendCoin ?v demo_outpoint = (r, c, v)"
    by (metis prod_cases3)
  have "coins_run (\<lambda>_. False) (DBView demo_db) [OpNewCache, OpSpend demo_outpoint] v"
    by (rule coins_run.Cons [OF step_new coins_run.Cons [OF step_spend [OF s] coins_run.Nil]])
  moreover have "view_inv (DBView demo_db)"
    using demo_view_inv by (simp add: demo_view_def)
  ultimately show ?thesis
    using coins_run_utxo [of "\<lambda>_. False" "DBView demo_db" "[OpNewCache, OpSpend demo_outpoint]" v] s by simp
qed

text \<open>
  C33: a lookup through any number of caches finds exactly the unspent output of the
  abstract set, and filling the caches on the way changes neither that set nor the invariant.
\<close>

theorem GetCoin_utxo_lookup:
  assumes "view_inv v"
  shows "fst (GetCoin v p) = utxo v p \<and> fst (HaveCoin v p) = (utxo v p \<noteq> None) \<and>
    view_inv (snd (GetCoin v p)) \<and> utxo (snd (GetCoin v p)) = utxo v \<and> utxo (snd (HaveCoin v p)) = utxo v"
  using GetCoin_utxo [OF assms, of p] HaveCoin_utxo [OF assms, of p] by auto

theorem GetCoin_utxo_lookup_witness:
  "view_inv demo_view \<and> fst (GetCoin demo_view demo_outpoint) = None"
  using GetCoin_utxo_lookup [OF demo_view_inv, of demo_outpoint] demo_view_inv
  by (simp add: demo_view_def entry_val_def)

text \<open>
  C34: under the invariant \<open>Flush\<close> never throws for a misapplied FRESH flag. In
  whatever order the entries are written, and however the database splits its batches, the view below
  ends up with the coins that the cache showed, the flushed cache is empty and shows them still, and the
  view below is at the block of the cache.
\<close>

theorem Flush_writes_through:
  assumes "view_inv (CacheView h m b)" "iterates es m"
    "case b of DBView db \<Rightarrow> \<not> uint256_IsNull h \<and> db_old_tip db h \<noteq> None | CacheView _ _ _ \<Rightarrow> \<not> uint256_IsNull h"
  shows "\<exists>b'. Flush over_limit (CacheView h m b) es = Some (CacheView h Map.empty b') \<and>
    view_inv (CacheView h Map.empty b') \<and> utxo b' = utxo (CacheView h m b) \<and> fst (GetBestBlock b') = h"
proof -
  have h: "\<not> uint256_IsNull h"
    using assms(3) by (cases b) simp_all
  moreover have "case b of DBView db \<Rightarrow> \<not> uint256_IsNull h \<and> db_old_tip db h \<noteq> None | CacheView _ _ _ \<Rightarrow> True"
    using assms(3) by (cases b) simp_all
  ultimately show ?thesis
    using Flush_spec [OF assms(1,2), of over_limit] by auto
qed

theorem Flush_writes_through_witness:
  "\<exists>b'. Flush (\<lambda>_. False) demo_view [(demo_outpoint, \<lparr>coin = coinEmpty, flags = DIRTY\<rparr>)] =
       Some (CacheView (replicate 32 2) Map.empty b') \<and>
     view_inv (CacheView (replicate 32 2) Map.empty b') \<and> utxo b' = utxo demo_view \<and>
     fst (GetBestBlock b') = replicate 32 2"
  unfolding demo_view_def
  by (rule Flush_writes_through [OF demo_view_inv [unfolded demo_view_def]])
    (simp_all add: iterates_def uint256_IsNull_def demo_db_def db_old_tip_def db_GetBestBlock_def db_GetHeadBlocks_def)

text \<open>
  C4: the coin database survives a crash between two batches. Of the states that
  \<open>BatchWrite\<close> commits one after the other, all but the last have no best block and the pair of the new
  and the old block as head blocks, so that a restart recognises the transition; writing the same block
  again from such a state finds the same old block and passes its assertions; and the last state is
  consistent: it is at the new block, has no head blocks, and has exactly the dirty entries written.
\<close>

theorem db_crash_safe:
  assumes "\<not> uint256_IsNull h" "db_old_tip db h = Some old_tip" "distinct (map fst es)"
  shows "\<exists>states. db_BatchWrite over_limit db es h = Some (states @
      [\<lparr>db_coins = written (db_coins db) (map_of es), db_best = Some h, db_heads = None\<rparr>]) \<and>
    list_all (\<lambda>st. db_best st = None \<and> db_GetHeadBlocks st = [h, old_tip] \<and> db_old_tip st h = Some old_tip) states"
proof -
  have "db_GetHeadBlocks st = [h, old_tip] \<and> db_old_tip st h = Some old_tip"
    if "db_best st = None" "db_heads st = Some [h, old_tip]" for st :: CoinsDB
    using that by (simp add: db_GetHeadBlocks_def db_old_tip_def db_GetBestBlock_def uint256_IsNull_def uint256_null_def)
  then show ?thesis
    using db_BatchWrite_spec [OF assms, of over_limit] by (auto simp: list_all_iff)
qed

theorem db_crash_safe_witness:
  "\<exists>states. db_BatchWrite (\<lambda>_. True) demo_db [(demo_outpoint, \<lparr>coin = coinEmpty, flags = DIRTY\<rparr>)] (replicate 32 2) =
     Some (states @ [\<lparr>db_coins = written (db_coins demo_db) [demo_outpoint \<mapsto> \<lparr>coin = coinEmpty, flags = DIRTY\<rparr>],
       db_best = Some (replicate 32 2), db_heads = None\<rparr>]) \<and>
    list_all (\<lambda>st. db_best st = None \<and> db_GetHeadBlocks st = [replicate 32 2, replicate 32 1] \<and>
      db_old_tip st (replicate 32 2) = Some (replicate 32 1)) states"
  using db_crash_safe [of "replicate 32 2" demo_db "replicate 32 1" "[(demo_outpoint, \<lparr>coin = coinEmpty, flags = DIRTY\<rparr>)]" "\<lambda>_. True"]
  by (simp add: uint256_IsNull_def demo_db_def db_old_tip_def db_GetBestBlock_def db_GetHeadBlocks_def)

text \<open>
  A coin that is already spent in the cache, and not yet flushed, is "spent" once more: the call
  reports success and hands out an empty coin.
\<close>

lemma SpendCoin_already_spent:
  assumes "m p = Some e" "coin_IsSpent (coin e)" "\<not> is_fresh e"
  shows "SpendCoin (CacheView h m b) p =
    (True, Some (coin e), CacheView h (m(p \<mapsto> \<lparr>coin = coin_Clear (coin e), flags = flags e OR DIRTY\<rparr>)) b)"
  using assms by (simp add: SpendCoin_def)

subsection \<open>Coins in the database\<close>

lemma coin_code:
  fixes h :: "31 word" and cb :: bool
  defines "code \<equiv> ucast h * 2 + of_bool cb :: u32"
  shows "(code AND 1 \<noteq> 0) = cb" "ucast (drop_bit 1 code) = h"
proof -
  have "unat h < 2 ^ 31"
    using unsigned_less [of h, where 'a = nat] by simp
  then have "code = of_nat (2 * unat h + of_bool cb)" and l: "2 * unat h + of_bool cb < 2 ^ 32"
    by (simp_all add: code_def)
  then have u: "unat code = 2 * unat h + of_bool cb"
    using unat_of_nat_u32 [OF l] by simp
  show "(code AND 1 \<noteq> 0) = cb"
    by (cases cb) (simp_all add: and_one_eq word_unat_eq_iff unat_mod u)
  have d: "unat (drop_bit 1 code) = unat h"
    unfolding unat_drop_bit_eq u by (simp add: drop_bit_eq_div)
  then have "unat (ucast (drop_bit 1 code) :: 31 word) = unat h"
    using \<open>unat h < 2 ^ 31\<close> unat_ucast_small [of "drop_bit 1 code", where 'b = 31] by simp
  then show "ucast (drop_bit 1 code) = h"
    by (simp only: word_unat_eq_iff)
qed

text \<open>
  A coin survives the database. For an unspent coin with a value in the money range
  and a script of at most \<open>MAX_SCRIPT_SIZE\<close> bytes, under the law of the public keys, \<open>Serialize\<close> succeeds
  and \<open>Unserialize\<close> returns height, coinbase flag, value and script, whatever the object held before, and
  leaves the rest of the stream.
\<close>

theorem coin_roundtrip:
  assumes "pubkey_law IsFullyValid Decompress" "MoneyRange (nValue (out c))"
    "length (scriptPubKey (out c)) \<le> MAX_SCRIPT_SIZE"
  shows "\<exists>b. coin_Serialize IsFullyValid c = Some b \<and> coin_Unserialize Decompress old (b @ s) = Some (c, s)"
proof -
  have "\<not> coin_IsSpent c"
    using assms(2) by (auto simp: coin_IsSpent_def txout_IsNull_def MoneyRange_def)
  then show ?thesis
    using txout_compression_roundtrip [OF assms, of "out old" s] coin_code [of "coin_nHeight c" "fCoinBase c"]
    by (auto simp: coin_Serialize_def coin_Unserialize_def varint32.unser_ser)
qed

theorem coin_roundtrip_witness:
  "\<exists>b. coin_Serialize (\<lambda>pk. pk = 4 # replicate 64 1)
      (mk_Coin \<lparr>nValue = 1250000000, scriptPubKey = 65 # 4 # replicate 64 1 @ [OP_CHECKSIG]\<rparr> 77 True) = Some b \<and>
    coin_Unserialize (\<lambda>v. if v = 3 # replicate 32 1 then Some (4 # replicate 64 1) else None) coinEmpty (b @ [5]) =
      Some (mk_Coin \<lparr>nValue = 1250000000, scriptPubKey = 65 # 4 # replicate 64 1 @ [OP_CHECKSIG]\<rparr> 77 True, [5])"
  by (rule coin_roundtrip)
    (auto simp: pubkey_law_def mk_Coin_def MoneyRange_def MAX_MONEY_def COIN_def MAX_SCRIPT_SIZE_def)

end
