(* ===== verification/Interpreter.thy ===== *)
theory Interpreter
  imports Script "HOL-Library.Signed_Division" "HOL-Library.Sublist"
begin

section \<open>The script interpreter (script/interpreter.cpp, script/interpreter.h)\<close>

subsection \<open>Errors and flags\<close>

datatype ScriptError =
    SCRIPT_ERR_UNKNOWN_ERROR | SCRIPT_ERR_EVAL_FALSE | SCRIPT_ERR_OP_RETURN
  | SCRIPT_ERR_SCRIPT_SIZE | SCRIPT_ERR_PUSH_SIZE | SCRIPT_ERR_OP_COUNT | SCRIPT_ERR_STACK_SIZE
  | SCRIPT_ERR_SIG_COUNT | SCRIPT_ERR_PUBKEY_COUNT
  | SCRIPT_ERR_VERIFY | SCRIPT_ERR_EQUALVERIFY | SCRIPT_ERR_CHECKMULTISIGVERIFY | SCRIPT_ERR_CHECKSIGVERIFY
  | SCRIPT_ERR_CHECKDATASIGVERIFY | SCRIPT_ERR_NUMEQUALVERIFY
  | SCRIPT_ERR_BAD_OPCODE | SCRIPT_ERR_DISABLED_OPCODE | SCRIPT_ERR_INVALID_STACK_OPERATION
  | SCRIPT_ERR_INVALID_ALTSTACK_OPERATION | SCRIPT_ERR_UNBALANCED_CONDITIONAL
  | SCRIPT_ERR_INVALID_SPLIT_RANGE | SCRIPT_ERR_INVALID_OPERAND_SIZE | SCRIPT_ERR_INVALID_NUMBER_RANGE
  | SCRIPT_ERR_IMPOSSIBLE_ENCODING | SCRIPT_ERR_DIV_BY_ZERO | SCRIPT_ERR_MOD_BY_ZERO
  | SCRIPT_ERR_NEGATIVE_LOCKTIME | SCRIPT_ERR_UNSATISFIED_LOCKTIME
  | SCRIPT_ERR_SIG_HASHTYPE | SCRIPT_ERR_SIG_DER | SCRIPT_ERR_MINIMALDATA | SCRIPT_ERR_SIG_PUSHONLY
  | SCRIPT_ERR_SIG_HIGH_S | SCRIPT_ERR_SIG_NULLDUMMY | SCRIPT_ERR_PUBKEYTYPE | SCRIPT_ERR_CLEANSTACK
  | SCRIPT_ERR_SIG_NULLFAIL | SCRIPT_ERR_DISCOURAGE_UPGRADABLE_NOPS | SCRIPT_ERR_OP_CODESEPARATOR
  | SCRIPT_ERR_SIG_FINDANDDELETE

text \<open>A flag is the position of its bit; a set of flags is a word of 32 bits.\<close>

type_synonym script_flag = nat

definition SCRIPT_VERIFY_P2SH :: script_flag where "SCRIPT_VERIFY_P2SH = 0"
definition SCRIPT_VERIFY_STRICTENC :: script_flag where "SCRIPT_VERIFY_STRICTENC = 1"
definition SCRIPT_VERIFY_DERSIG :: script_flag where "SCRIPT_VERIFY_DERSIG = 2"
definition SCRIPT_VERIFY_LOW_S :: script_flag where "SCRIPT_VERIFY_LOW_S = 3"
definition SCRIPT_VERIFY_NULLDUMMY :: script_flag where "SCRIPT_VERIFY_NULLDUMMY = 4"
definition SCRIPT_VERIFY_SIGPUSHONLY :: script_flag where "SCRIPT_VERIFY_SIGPUSHONLY = 5"
definition SCRIPT_VERIFY_MINIMALDATA :: script_flag where "SCRIPT_VERIFY_MINIMALDATA = 6"
definition SCRIPT_VERIFY_DISCOURAGE_UPGRADABLE_NOPS :: script_flag where "SCRIPT_VERIFY_DISCOURAGE_UPGRADABLE_NOPS = 7"
definition SCRIPT_VERIFY_CLEANSTACK :: script_flag where "SCRIPT_VERIFY_CLEANSTACK = 8"
definition SCRIPT_VERIFY_CHECKLOCKTIMEVERIFY :: script_flag where "SCRIPT_VERIFY_CHECKLOCKTIMEVERIFY = 9"
definition SCRIPT_VERIFY_CHECKSEQUENCEVERIFY :: script_flag where "SCRIPT_VERIFY_CHECKSEQUENCEVERIFY = 10"
definition SCRIPT_VERIFY_NULLFAIL :: script_flag where "SCRIPT_VERIFY_NULLFAIL = 14"
definition SCRIPT_ENABLE_DIP0020_OPCODES :: script_flag where "SCRIPT_ENABLE_DIP0020_OPCODES = 15"
definition SCRIPT_VERIFY_CONST_SCRIPTCODE :: script_flag where "SCRIPT_VERIFY_CONST_SCRIPTCODE = 16"

subsection \<open>The environment and the state\<close>

text \<open>
  The signature checker of the source is an object with virtual methods; here it is a record of functions
  together with the cryptographic functions, all parameters of the interpreter, and the flags.
\<close>

type_synonym valtype = bytes

record script_env =
  env_flags :: u32
  env_CheckSig :: "valtype \<Rightarrow> valtype \<Rightarrow> CScript \<Rightarrow> bool"
  env_CheckLockTime :: "int \<Rightarrow> bool"
  env_CheckSequence :: "int \<Rightarrow> bool"
  env_CheckLowS :: "valtype \<Rightarrow> bool"
  env_PubKeyVerify :: "valtype \<Rightarrow> valtype \<Rightarrow> valtype \<Rightarrow> bool"
  env_ripemd160 :: "valtype \<Rightarrow> valtype"
  env_sha1 :: "valtype \<Rightarrow> valtype"
  env_sha256 :: "valtype \<Rightarrow> valtype"

definition has_flag :: "script_env \<Rightarrow> script_flag \<Rightarrow> bool" where
  "has_flag E f \<longleftrightarrow> bit (env_flags E) f"

text \<open>
  The stacks have their top at the head of the list, so \<open>stacktop(-i)\<close> is the element at \<open>i - 1\<close>; the
  innermost condition of \<open>vfExec\<close> is its head.
\<close>

record eval_state =
  st_stack :: "valtype list"
  st_altstack :: "valtype list"
  st_vfExec :: "bool list"
  st_nOpCount :: int
  st_codehash :: CScript

type_synonym eval_result = "ScriptError + eval_state"

definition vchFalse :: valtype where "vchFalse = []"
definition vchTrue :: valtype where "vchTrue = [1]"

definition bool_vch :: "bool \<Rightarrow> valtype" where
  "bool_vch b = (if b then vchTrue else vchFalse)"

fun CastToBool :: "valtype \<Rightarrow> bool" where
  "CastToBool [] = False"
| "CastToBool (b # bs) = (if b \<noteq> 0 then (if bs = [] \<and> b = 0x80 then False else True) else CastToBool bs)"

subsection \<open>Encodings of keys and signatures\<close>

definition IsCompressedOrUncompressedPubKey :: "valtype \<Rightarrow> bool" where
  "IsCompressedOrUncompressedPubKey k =
     (if length k < 33 then False
      else if k ! 0 = 0x04 then length k = 65
      else if k ! 0 = 0x02 \<or> k ! 0 = 0x03 then length k = 33
      else False)"

definition IsCompressedPubKey :: "valtype \<Rightarrow> bool" where
  "IsCompressedPubKey k = (if length k \<noteq> 33 then False else k ! 0 = 0x02 \<or> k ! 0 = 0x03)"

definition IsValidSignatureEncoding :: "valtype \<Rightarrow> bool" where
  "IsValidSignatureEncoding sig =
     (if length sig < 9 then False
      else if length sig > 73 then False
      else if sig ! 0 \<noteq> 0x30 then False
      else if unat (sig ! 1) \<noteq> length sig - 3 then False
      else let lenR = unat (sig ! 3) in
        if 5 + lenR \<ge> length sig then False
        else let lenS = unat (sig ! (5 + lenR)) in
          if lenR + lenS + 7 \<noteq> length sig then False
          else if sig ! 2 \<noteq> 0x02 then False
          else if lenR = 0 then False
          else if sig ! 4 AND 0x80 \<noteq> 0 then False
          else if lenR > 1 \<and> sig ! 4 = 0x00 \<and> sig ! 5 AND 0x80 = 0 then False
          else if sig ! (lenR + 4) \<noteq> 0x02 then False
          else if lenS = 0 then False
          else if sig ! (lenR + 6) AND 0x80 \<noteq> 0 then False
          else if lenS > 1 \<and> sig ! (lenR + 6) = 0x00 \<and> sig ! (lenR + 7) AND 0x80 = 0 then False
          else True)"

definition SIGHASH_ALL :: int where "SIGHASH_ALL = 1"
definition SIGHASH_NONE :: int where "SIGHASH_NONE = 2"
definition SIGHASH_SINGLE :: int where "SIGHASH_SINGLE = 3"
definition SIGHASH_ANYONECANPAY :: int where "SIGHASH_ANYONECANPAY = 0x80"

text \<open>The checks return the error they set, or nothing where they pass.\<close>

definition IsLowDERSignature :: "script_env \<Rightarrow> valtype \<Rightarrow> ScriptError option" where
  "IsLowDERSignature E vchSig =
     (if \<not> IsValidSignatureEncoding vchSig then Some SCRIPT_ERR_SIG_DER
      else if \<not> env_CheckLowS E (butlast vchSig) then Some SCRIPT_ERR_SIG_HIGH_S
      else None)"

definition IsDefinedHashtypeSignature :: "valtype \<Rightarrow> bool" where
  "IsDefinedHashtypeSignature vchSig =
     (if length vchSig = 0 then False
      else let nHashType = uint (last vchSig AND 0x7f) in \<not> (nHashType < SIGHASH_ALL \<or> nHashType > SIGHASH_SINGLE))"

definition CheckSignatureEncoding :: "script_env \<Rightarrow> valtype \<Rightarrow> ScriptError option" where
  "CheckSignatureEncoding E vchSig =
     (if length vchSig = 0 then None
      else if (has_flag E SCRIPT_VERIFY_DERSIG \<or> has_flag E SCRIPT_VERIFY_LOW_S \<or> has_flag E SCRIPT_VERIFY_STRICTENC) \<and>
              \<not> IsValidSignatureEncoding vchSig then Some SCRIPT_ERR_SIG_DER
      else if has_flag E SCRIPT_VERIFY_LOW_S \<and> IsLowDERSignature E vchSig \<noteq> None then IsLowDERSignature E vchSig
      else if has_flag E SCRIPT_VERIFY_STRICTENC \<and> \<not> IsDefinedHashtypeSignature vchSig then Some SCRIPT_ERR_SIG_HASHTYPE
      else None)"

definition CheckPubKeyEncoding :: "script_env \<Rightarrow> valtype \<Rightarrow> ScriptError option" where
  "CheckPubKeyEncoding E vchPubKey =
     (if has_flag E SCRIPT_VERIFY_STRICTENC \<and> \<not> IsCompressedOrUncompressedPubKey vchPubKey
      then Some SCRIPT_ERR_PUBKEYTYPE else None)"

definition check_encodings :: "script_env \<Rightarrow> valtype \<Rightarrow> valtype \<Rightarrow> ScriptError option" where
  "check_encodings E vchSig vchPubKey =
     (case CheckSignatureEncoding E vchSig of Some e \<Rightarrow> Some e | None \<Rightarrow> CheckPubKeyEncoding E vchPubKey)"

definition CheckMinimalPush :: "valtype \<Rightarrow> u8 \<Rightarrow> bool" where
  "CheckMinimalPush data opcode =
     (if length data = 0 then opcode = OP_0
      else if length data = 1 \<and> data ! 0 \<ge> 1 \<and> data ! 0 \<le> 16 then False
      else if length data = 1 \<and> data ! 0 = 0x81 then False
      else if length data \<le> 75 then unat opcode = length data
      else if length data \<le> 255 then opcode = OP_PUSHDATA1
      else if length data \<le> 65535 then opcode = OP_PUSHDATA2
      else True)"

subsection \<open>FindAndDelete\<close>

text \<open>
  The inner loop skips copies of \<open>b\<close> at the iterator and counts them; \<open>b\<close> is not empty.
\<close>

function skip_copies :: "CScript \<Rightarrow> CScript \<Rightarrow> nat \<Rightarrow> CScript \<times> nat" where
  "skip_copies b pc nFound =
     (if b \<noteq> [] \<and> length pc \<ge> length b \<and> take (length b) pc = b
      then skip_copies b (drop (length b) pc) (nFound + 1) else (pc, nFound))"
  by pat_completeness auto
termination
proof (relation "measure (\<lambda>(b, pc, n). length pc)")
  show "((b, drop (length b) pc, n + 1), b, pc, n) \<in> measure (\<lambda>(b, pc, n). length pc)"
    if "b \<noteq> [] \<and> length pc \<ge> length b \<and> take (length b) pc = b" for b pc :: CScript and n :: nat
  proof -
    have "0 < length b" "length b \<le> length pc"
      using that by simp_all
    then show ?thesis
      by (simp only: in_measure prod.case length_drop)
  qed
qed simp

declare skip_copies.simps [simp del]

lemma skip_copies_length: "skip_copies b pc n = (pc', n') \<Longrightarrow> length pc' \<le> length pc"
proof (induction b pc n rule: skip_copies.induct)
  case (1 b pc n)
  show ?case
    using "1.IH" "1.prems" unfolding skip_copies.simps [of b pc n] by (auto split: if_splits)
qed

function find_and_delete_loop :: "CScript \<Rightarrow> CScript \<Rightarrow> CScript \<Rightarrow> nat \<Rightarrow> CScript \<times> CScript \<times> nat" where
  "find_and_delete_loop b pc result nFound =
     (case skip_copies b pc nFound of (pc2, nFound) \<Rightarrow>
       (case GetScriptOp pc2 of
          (True, opcode, data, pc') \<Rightarrow>
            find_and_delete_loop b pc' (result @ take (length pc2 - length pc') pc2) nFound
        | (False, _) \<Rightarrow> (result, pc2, nFound)))"
  by pat_completeness auto
termination
  by (relation "measure (\<lambda>(b, pc, r, n). length pc)")
    (auto dest!: skip_copies_length [OF sym] GetScriptOp_length [OF sym])

declare find_and_delete_loop.simps [simp del]

definition FindAndDelete :: "CScript \<Rightarrow> CScript \<Rightarrow> nat \<times> CScript" where
  "FindAndDelete script b =
     (if b = [] then (0, script)
      else case find_and_delete_loop b script [] 0 of (result, pc2, nFound) \<Rightarrow>
        (nFound, if nFound > 0 then result @ pc2 else script))"

subsection \<open>The opcodes\<close>

definition invalid_stack :: eval_result where
  "invalid_stack = Inl SCRIPT_ERR_INVALID_STACK_OPERATION"

definition set_stack :: "valtype list \<Rightarrow> eval_state \<Rightarrow> eval_result" where
  "set_stack s st = Inr (st\<lparr>st_stack := s\<rparr>)"

definition push_value :: "valtype \<Rightarrow> eval_state \<Rightarrow> eval_result" where
  "push_value v st = Inr (st\<lparr>st_stack := v # st_stack st\<rparr>)"

definition fRequireMinimal :: "script_env \<Rightarrow> bool" where
  "fRequireMinimal E = has_flag E SCRIPT_VERIFY_MINIMALDATA"

text \<open>The exception of \<open>CScriptNum\<close> is caught at the end of \<open>EvalScript\<close>.\<close>

definition with_num :: "script_env \<Rightarrow> valtype \<Rightarrow> nat \<Rightarrow> (int \<Rightarrow> eval_result) \<Rightarrow> eval_result" where
  "with_num E vch nMaxNumSize f =
     (case CScriptNum vch (fRequireMinimal E) nMaxNumSize of None \<Rightarrow> Inl SCRIPT_ERR_UNKNOWN_ERROR | Some bn \<Rightarrow> f bn)"

definition op_small_int :: "u8 \<Rightarrow> eval_state \<Rightarrow> eval_result" where
  "op_small_int opcode st = push_value (scriptnum_serialize (uint opcode - 80)) st"

definition op_checklocktimeverify :: "script_env \<Rightarrow> eval_state \<Rightarrow> eval_result" where
  "op_checklocktimeverify E st =
     (if \<not> has_flag E SCRIPT_VERIFY_CHECKLOCKTIMEVERIFY then Inr st
      else case st_stack st of
        [] \<Rightarrow> invalid_stack
      | v # _ \<Rightarrow> with_num E v 5 (\<lambda>nLockTime.
          if nLockTime < 0 then Inl SCRIPT_ERR_NEGATIVE_LOCKTIME
          else if \<not> env_CheckLockTime E nLockTime then Inl SCRIPT_ERR_UNSATISFIED_LOCKTIME
          else Inr st))"

definition op_checksequenceverify :: "script_env \<Rightarrow> eval_state \<Rightarrow> eval_result" where
  "op_checksequenceverify E st =
     (if \<not> has_flag E SCRIPT_VERIFY_CHECKSEQUENCEVERIFY then Inr st
      else case st_stack st of
        [] \<Rightarrow> invalid_stack
      | v # _ \<Rightarrow> with_num E v 5 (\<lambda>nSequence.
          if nSequence < 0 then Inl SCRIPT_ERR_NEGATIVE_LOCKTIME
          else if bit nSequence 31 then Inr st
          else if \<not> env_CheckSequence E nSequence then Inl SCRIPT_ERR_UNSATISFIED_LOCKTIME
          else Inr st))"

definition op_upgradable_nop :: "script_env \<Rightarrow> eval_state \<Rightarrow> eval_result" where
  "op_upgradable_nop E st =
     (if has_flag E SCRIPT_VERIFY_DISCOURAGE_UPGRADABLE_NOPS then Inl SCRIPT_ERR_DISCOURAGE_UPGRADABLE_NOPS else Inr st)"

definition op_if :: "bool \<Rightarrow> u8 \<Rightarrow> eval_state \<Rightarrow> eval_result" where
  "op_if fExec opcode st =
     (if fExec then
        (case st_stack st of
           [] \<Rightarrow> Inl SCRIPT_ERR_UNBALANCED_CONDITIONAL
         | vch # s \<Rightarrow>
             let fValue = CastToBool vch; fValue = (if opcode = OP_NOTIF then \<not> fValue else fValue)
             in Inr (st\<lparr>st_stack := s, st_vfExec := fValue # st_vfExec st\<rparr>))
      else Inr (st\<lparr>st_vfExec := False # st_vfExec st\<rparr>))"

definition op_else :: "eval_state \<Rightarrow> eval_result" where
  "op_else st = (case st_vfExec st of [] \<Rightarrow> Inl SCRIPT_ERR_UNBALANCED_CONDITIONAL
     | b # bs \<Rightarrow> Inr (st\<lparr>st_vfExec := (\<not> b) # bs\<rparr>))"

definition op_endif :: "eval_state \<Rightarrow> eval_result" where
  "op_endif st = (case st_vfExec st of [] \<Rightarrow> Inl SCRIPT_ERR_UNBALANCED_CONDITIONAL
     | b # bs \<Rightarrow> Inr (st\<lparr>st_vfExec := bs\<rparr>))"

definition op_verify :: "eval_state \<Rightarrow> eval_result" where
  "op_verify st = (case st_stack st of [] \<Rightarrow> invalid_stack
     | v # s \<Rightarrow> if CastToBool v then set_stack s st else Inl SCRIPT_ERR_VERIFY)"

definition op_toaltstack :: "eval_state \<Rightarrow> eval_result" where
  "op_toaltstack st = (case st_stack st of [] \<Rightarrow> invalid_stack
     | v # s \<Rightarrow> Inr (st\<lparr>st_stack := s, st_altstack := v # st_altstack st\<rparr>))"

definition op_fromaltstack :: "eval_state \<Rightarrow> eval_result" where
  "op_fromaltstack st = (case st_altstack st of [] \<Rightarrow> Inl SCRIPT_ERR_INVALID_ALTSTACK_OPERATION
     | v # a \<Rightarrow> Inr (st\<lparr>st_stack := v # st_stack st, st_altstack := a\<rparr>))"

text \<open>The operations that only rearrange the stack, on the stack with its top first.\<close>

fun op_stack_rot :: "u8 \<Rightarrow> valtype list \<Rightarrow> valtype list option" where
  "op_stack_rot opcode s =
     (if opcode = OP_ROT then (case s of x3 # x2 # x1 # r \<Rightarrow> Some (x1 # x3 # x2 # r) | _ \<Rightarrow> None)
      else if opcode = OP_SWAP then (case s of x2 # x1 # r \<Rightarrow> Some (x1 # x2 # r) | _ \<Rightarrow> None)
      else if opcode = OP_TUCK then (case s of x2 # x1 # r \<Rightarrow> Some (x2 # x1 # x2 # r) | _ \<Rightarrow> None)
      else if opcode = OP_SIZE then
        (case s of x # r \<Rightarrow> Some (scriptnum_serialize (int (length x)) # x # r) | _ \<Rightarrow> None)
      else None)"

fun op_stack :: "u8 \<Rightarrow> valtype list \<Rightarrow> valtype list option" where
  "op_stack opcode s =
     (if opcode = OP_2DROP then (case s of x2 # x1 # r \<Rightarrow> Some r | _ \<Rightarrow> None)
      else if opcode = OP_2DUP then (case s of x2 # x1 # r \<Rightarrow> Some (x2 # x1 # x2 # x1 # r) | _ \<Rightarrow> None)
      else if opcode = OP_3DUP then
        (case s of x3 # x2 # x1 # r \<Rightarrow> Some (x3 # x2 # x1 # x3 # x2 # x1 # r) | _ \<Rightarrow> None)
      else if opcode = OP_2OVER then
        (case s of x4 # x3 # x2 # x1 # r \<Rightarrow> Some (x2 # x1 # x4 # x3 # x2 # x1 # r) | _ \<Rightarrow> None)
      else if opcode = OP_2ROT then
        (case s of x6 # x5 # x4 # x3 # x2 # x1 # r \<Rightarrow> Some (x2 # x1 # x6 # x5 # x4 # x3 # r) | _ \<Rightarrow> None)
      else if opcode = OP_2SWAP then
        (case s of x4 # x3 # x2 # x1 # r \<Rightarrow> Some (x2 # x1 # x4 # x3 # r) | _ \<Rightarrow> None)
      else if opcode = OP_IFDUP then
        (case s of x # r \<Rightarrow> Some (if CastToBool x then x # x # r else x # r) | _ \<Rightarrow> None)
      else if opcode = OP_DEPTH then Some (scriptnum_serialize (int (length s)) # s)
      else if opcode = OP_DROP then (case s of x # r \<Rightarrow> Some r | _ \<Rightarrow> None)
      else if opcode = OP_DUP then (case s of x # r \<Rightarrow> Some (x # x # r) | _ \<Rightarrow> None)
      else if opcode = OP_NIP then (case s of x2 # x1 # r \<Rightarrow> Some (x2 # r) | _ \<Rightarrow> None)
      else if opcode = OP_OVER then (case s of x2 # x1 # r \<Rightarrow> Some (x1 # x2 # x1 # r) | _ \<Rightarrow> None)
      else op_stack_rot opcode s)"

declare op_stack.simps [simp del] op_stack_rot.simps [simp del]

definition op_pick_roll :: "script_env \<Rightarrow> u8 \<Rightarrow> eval_state \<Rightarrow> eval_result" where
  "op_pick_roll E opcode st =
     (if length (st_stack st) < 2 then invalid_stack
      else with_num E (hd (st_stack st)) 4 (\<lambda>bn.
        let n = getint bn; s = tl (st_stack st)
        in if n < 0 \<or> n \<ge> int (length s) then invalid_stack
           else let vch = s ! nat n;
                    s = (if opcode = OP_ROLL then take (nat n) s @ drop (nat n + 1) s else s)
                in set_stack (vch # s) st))"

definition op_equal :: "u8 \<Rightarrow> eval_state \<Rightarrow> eval_result" where
  "op_equal opcode st = (case st_stack st of
     vch2 # vch1 # s \<Rightarrow>
       let fEqual = (vch1 = vch2)
       in if opcode = OP_EQUALVERIFY
          then (if fEqual then set_stack s st else Inl SCRIPT_ERR_EQUALVERIFY)
          else set_stack (bool_vch fEqual # s) st
   | _ \<Rightarrow> invalid_stack)"

definition op_bitwise :: "u8 \<Rightarrow> eval_state \<Rightarrow> eval_result" where
  "op_bitwise opcode st = (case st_stack st of
     vch2 # vch1 # s \<Rightarrow>
       if length vch1 \<noteq> length vch2 then Inl SCRIPT_ERR_INVALID_OPERAND_SIZE
       else set_stack (map2 (\<lambda>a b. if opcode = OP_AND then a AND b else if opcode = OP_OR then a OR b else a XOR b)
         vch1 vch2 # s) st
   | _ \<Rightarrow> invalid_stack)"

definition num_unary :: "u8 \<Rightarrow> int \<Rightarrow> int" where
  "num_unary opcode bn =
     (if opcode = OP_1ADD then bn + 1
      else if opcode = OP_1SUB then bn - 1
      else if opcode = OP_NEGATE then - bn
      else if opcode = OP_ABS then (if bn < 0 then - bn else bn)
      else if opcode = OP_NOT then of_bool (bn = 0)
      else of_bool (bn \<noteq> 0))"

definition op_unary :: "script_env \<Rightarrow> u8 \<Rightarrow> eval_state \<Rightarrow> eval_result" where
  "op_unary E opcode st = (case st_stack st of
     v # s \<Rightarrow> with_num E v 4 (\<lambda>bn. set_stack (scriptnum_serialize (num_unary opcode bn) # s) st)
   | [] \<Rightarrow> invalid_stack)"

definition num_binary :: "u8 \<Rightarrow> int \<Rightarrow> int \<Rightarrow> ScriptError + int" where
  "num_binary opcode bn1 bn2 =
     (if opcode = OP_ADD then Inr (bn1 + bn2)
      else if opcode = OP_SUB then Inr (bn1 - bn2)
      else if opcode = OP_DIV then (if bn2 = 0 then Inl SCRIPT_ERR_DIV_BY_ZERO else Inr (bn1 sdiv bn2))
      else if opcode = OP_MOD then (if bn2 = 0 then Inl SCRIPT_ERR_MOD_BY_ZERO else Inr (bn1 smod bn2))
      else if opcode = OP_BOOLAND then Inr (of_bool (bn1 \<noteq> 0 \<and> bn2 \<noteq> 0))
      else if opcode = OP_BOOLOR then Inr (of_bool (bn1 \<noteq> 0 \<or> bn2 \<noteq> 0))
      else if opcode = OP_NUMEQUAL \<or> opcode = OP_NUMEQUALVERIFY then Inr (of_bool (bn1 = bn2))
      else if opcode = OP_NUMNOTEQUAL then Inr (of_bool (bn1 \<noteq> bn2))
      else if opcode = OP_LESSTHAN then Inr (of_bool (bn1 < bn2))
      else if opcode = OP_GREATERTHAN then Inr (of_bool (bn1 > bn2))
      else if opcode = OP_LESSTHANOREQUAL then Inr (of_bool (bn1 \<le> bn2))
      else if opcode = OP_GREATERTHANOREQUAL then Inr (of_bool (bn1 \<ge> bn2))
      else if opcode = OP_MIN then Inr (if bn1 < bn2 then bn1 else bn2)
      else Inr (if bn1 > bn2 then bn1 else bn2))"

definition op_binary :: "script_env \<Rightarrow> u8 \<Rightarrow> eval_state \<Rightarrow> eval_result" where
  "op_binary E opcode st = (case st_stack st of
     v2 # v1 # s \<Rightarrow>
       with_num E v1 4 (\<lambda>bn1. with_num E v2 4 (\<lambda>bn2.
         case num_binary opcode bn1 bn2 of
           Inl e \<Rightarrow> Inl e
         | Inr bn \<Rightarrow>
             if opcode = OP_NUMEQUALVERIFY
             then (if CastToBool (scriptnum_serialize bn) then set_stack s st else Inl SCRIPT_ERR_NUMEQUALVERIFY)
             else set_stack (scriptnum_serialize bn # s) st))
   | _ \<Rightarrow> invalid_stack)"

definition op_within :: "script_env \<Rightarrow> eval_state \<Rightarrow> eval_result" where
  "op_within E st = (case st_stack st of
     v3 # v2 # v1 # s \<Rightarrow>
       with_num E v1 4 (\<lambda>bn1. with_num E v2 4 (\<lambda>bn2. with_num E v3 4 (\<lambda>bn3.
         set_stack (bool_vch (bn2 \<le> bn1 \<and> bn1 < bn3) # s) st)))
   | _ \<Rightarrow> invalid_stack)"

text \<open>\<open>CHash160\<close> and \<open>CHash256\<close> of hash.h are compositions.\<close>

definition env_hash :: "script_env \<Rightarrow> u8 \<Rightarrow> valtype \<Rightarrow> valtype" where
  "env_hash E opcode v =
     (if opcode = OP_RIPEMD160 then env_ripemd160 E v
      else if opcode = OP_SHA1 then env_sha1 E v
      else if opcode = OP_SHA256 then env_sha256 E v
      else if opcode = OP_HASH160 then env_ripemd160 E (env_sha256 E v)
      else env_sha256 E (env_sha256 E v))"

definition op_hash :: "script_env \<Rightarrow> u8 \<Rightarrow> eval_state \<Rightarrow> eval_result" where
  "op_hash E opcode st = (case st_stack st of
     v # s \<Rightarrow> set_stack (env_hash E opcode v # s) st
   | [] \<Rightarrow> invalid_stack)"

text \<open>The script code with a signature deleted; \<open>None\<close> where the flag for constant script code forbids it.\<close>

definition delete_sig :: "script_env \<Rightarrow> CScript \<Rightarrow> valtype \<Rightarrow> CScript option" where
  "delete_sig E scriptCode vchSig =
     (case FindAndDelete scriptCode (push_data vchSig) of (found, code) \<Rightarrow>
        if found > 0 \<and> has_flag E SCRIPT_VERIFY_CONST_SCRIPTCODE then None else Some code)"

definition op_checksig :: "script_env \<Rightarrow> u8 \<Rightarrow> eval_state \<Rightarrow> eval_result" where
  "op_checksig E opcode st = (case st_stack st of
     vchPubKey # vchSig # s \<Rightarrow>
       (case delete_sig E (st_codehash st) vchSig of
          None \<Rightarrow> Inl SCRIPT_ERR_SIG_FINDANDDELETE
        | Some scriptCode \<Rightarrow>
            (case check_encodings E vchSig vchPubKey of
               Some e \<Rightarrow> Inl e
             | None \<Rightarrow>
                 let fSuccess = env_CheckSig E vchSig vchPubKey scriptCode
                 in if \<not> fSuccess \<and> has_flag E SCRIPT_VERIFY_NULLFAIL \<and> vchSig \<noteq> [] then Inl SCRIPT_ERR_SIG_NULLFAIL
                    else if opcode = OP_CHECKSIGVERIFY
                    then (if fSuccess then set_stack s st else Inl SCRIPT_ERR_CHECKSIGVERIFY)
                    else set_stack (bool_vch fSuccess # s) st))
   | _ \<Rightarrow> invalid_stack)"

definition op_checkdatasig :: "script_env \<Rightarrow> u8 \<Rightarrow> eval_state \<Rightarrow> eval_result" where
  "op_checkdatasig E opcode st = (case st_stack st of
     vchPubKey # vchMessage # vchSig # s \<Rightarrow>
       (case check_encodings E vchSig vchPubKey of
          Some e \<Rightarrow> Inl e
        | None \<Rightarrow>
            let fSuccess = (vchSig \<noteq> [] \<and> env_PubKeyVerify E vchPubKey (env_sha256 E vchMessage) vchSig)
            in if \<not> fSuccess \<and> has_flag E SCRIPT_VERIFY_NULLFAIL \<and> vchSig \<noteq> [] then Inl SCRIPT_ERR_SIG_NULLFAIL
               else if opcode = OP_CHECKDATASIGVERIFY
               then (if fSuccess then set_stack s st else Inl SCRIPT_ERR_CHECKDATASIGVERIFY)
               else set_stack (bool_vch fSuccess # s) st)
   | _ \<Rightarrow> invalid_stack)"

fun delete_sigs :: "script_env \<Rightarrow> CScript \<Rightarrow> valtype list \<Rightarrow> CScript option" where
  "delete_sigs E scriptCode [] = Some scriptCode"
| "delete_sigs E scriptCode (sig # sigs) =
     (case delete_sig E scriptCode sig of None \<Rightarrow> None | Some code \<Rightarrow> delete_sigs E code sigs)"

text \<open>
  The loop over signatures and keys; the code keeps the number of signatures left below the number of
  keys left, so the last case of no key for a signature is not reached.
\<close>

fun multisig_loop :: "script_env \<Rightarrow> CScript \<Rightarrow> valtype list \<Rightarrow> valtype list \<Rightarrow> ScriptError + bool" where
  "multisig_loop E scriptCode [] keys = Inr True"
| "multisig_loop E scriptCode (vchSig # sigs) (vchPubKey # keys) =
     (case check_encodings E vchSig vchPubKey of
        Some e \<Rightarrow> Inl e
      | None \<Rightarrow>
          let sigs' = (if env_CheckSig E vchSig vchPubKey scriptCode then sigs else vchSig # sigs)
          in if length sigs' > length keys then Inr False else multisig_loop E scriptCode sigs' keys)"
| "multisig_loop E scriptCode (vchSig # sigs) [] = Inr False"

text \<open>The arguments are popped one by one; \<open>ikey2\<close> counts down to the signatures.\<close>

fun multisig_cleanup :: "bool \<Rightarrow> nat \<Rightarrow> nat \<Rightarrow> valtype list \<Rightarrow> valtype list option" where
  "multisig_cleanup failed ikey2 0 s = Some s"
| "multisig_cleanup failed ikey2 (Suc i) s =
     (if failed \<and> ikey2 = 0 \<and> hd s \<noteq> [] then None else multisig_cleanup failed (ikey2 - 1) i (tl s))"

definition multisig_finish :: "script_env \<Rightarrow> u8 \<Rightarrow> bool \<Rightarrow> nat \<Rightarrow> nat \<Rightarrow> eval_state \<Rightarrow> eval_result" where
  "multisig_finish E opcode fSuccess nKeysCount nSigsCount st =
     (case multisig_cleanup (\<not> fSuccess \<and> has_flag E SCRIPT_VERIFY_NULLFAIL) (nKeysCount + 2)
             (nKeysCount + nSigsCount + 2) (st_stack st) of
        None \<Rightarrow> Inl SCRIPT_ERR_SIG_NULLFAIL
      | Some [] \<Rightarrow> invalid_stack
      | Some (dummy # s) \<Rightarrow>
          if has_flag E SCRIPT_VERIFY_NULLDUMMY \<and> dummy \<noteq> [] then Inl SCRIPT_ERR_SIG_NULLDUMMY
          else if opcode = OP_CHECKMULTISIGVERIFY
          then (if fSuccess then set_stack s st else Inl SCRIPT_ERR_CHECKMULTISIGVERIFY)
          else set_stack (bool_vch fSuccess # s) st)"

definition multisig_check :: "script_env \<Rightarrow> u8 \<Rightarrow> nat \<Rightarrow> nat \<Rightarrow> eval_state \<Rightarrow> eval_result" where
  "multisig_check E opcode nKeysCount nSigsCount st =
     (let keys = take nKeysCount (drop 1 (st_stack st));
          sigs = take nSigsCount (drop (nKeysCount + 2) (st_stack st))
      in case delete_sigs E (st_codehash st) sigs of
           None \<Rightarrow> Inl SCRIPT_ERR_SIG_FINDANDDELETE
         | Some scriptCode \<Rightarrow>
             (case multisig_loop E scriptCode sigs keys of
                Inl e \<Rightarrow> Inl e
              | Inr fSuccess \<Rightarrow> multisig_finish E opcode fSuccess nKeysCount nSigsCount st))"

definition op_checkmultisig :: "script_env \<Rightarrow> u8 \<Rightarrow> eval_state \<Rightarrow> eval_result" where
  "op_checkmultisig E opcode st =
     (if length (st_stack st) < 1 then invalid_stack
      else with_num E (st_stack st ! 0) 4 (\<lambda>bn.
        let nKeysCount = getint bn
        in if nKeysCount < 0 \<or> nKeysCount > MAX_PUBKEYS_PER_MULTISIG then Inl SCRIPT_ERR_PUBKEY_COUNT
           else let st = st\<lparr>st_nOpCount := st_nOpCount st + nKeysCount\<rparr>
           in if st_nOpCount st > MAX_OPS_PER_SCRIPT then Inl SCRIPT_ERR_OP_COUNT
           else if int (length (st_stack st)) < nKeysCount + 2 then invalid_stack
           else with_num E (st_stack st ! nat (nKeysCount + 1)) 4 (\<lambda>bn.
             let nSigsCount = getint bn
             in if nSigsCount < 0 \<or> nSigsCount > nKeysCount then Inl SCRIPT_ERR_SIG_COUNT
                else if int (length (st_stack st)) < nKeysCount + nSigsCount + 3 then invalid_stack
                else multisig_check E opcode (nat nKeysCount) (nat nSigsCount) st)))"

definition op_cat :: "eval_state \<Rightarrow> eval_result" where
  "op_cat st = (case st_stack st of
     vch2 # vch1 # s \<Rightarrow>
       if length vch1 + length vch2 > MAX_SCRIPT_ELEMENT_SIZE then Inl SCRIPT_ERR_PUSH_SIZE
       else set_stack ((vch1 @ vch2) # s) st
   | _ \<Rightarrow> invalid_stack)"

definition op_split :: "script_env \<Rightarrow> eval_state \<Rightarrow> eval_result" where
  "op_split E st = (case st_stack st of
     v # vch # s \<Rightarrow> with_num E v 4 (\<lambda>bn.
       let nPosition = getint bn
       in if nPosition < 0 \<or> nat nPosition > length vch then Inl SCRIPT_ERR_INVALID_SPLIT_RANGE
          else if nPosition = 0 then set_stack (vch # [] # s) st
          else if nat nPosition = length vch then set_stack ([] # vch # s) st
          else set_stack (drop (nat nPosition) vch # take (nat nPosition) vch # s) st)
   | _ \<Rightarrow> invalid_stack)"

definition num2bin_pad :: "valtype \<Rightarrow> nat \<Rightarrow> valtype" where
  "num2bin_pad rawnum n =
     (let signbit = (if rawnum \<noteq> [] then last rawnum AND 0x80 else 0x00);
          rawnum = (if rawnum \<noteq> [] then rawnum[length rawnum - 1 := last rawnum AND 0x7f] else rawnum)
      in rawnum @ replicate (n - 1 - length rawnum) 0x00 @ [signbit])"

text \<open>A negative size becomes a huge unsigned one.\<close>

definition op_num2bin :: "script_env \<Rightarrow> eval_state \<Rightarrow> eval_result" where
  "op_num2bin E st = (case st_stack st of
     v # num # s \<Rightarrow> with_num E v 4 (\<lambda>bn.
       let sz = unat (word_of_int (getint bn) :: u64)
       in if sz > MAX_SCRIPT_ELEMENT_SIZE then Inl SCRIPT_ERR_PUSH_SIZE
          else let rawnum = snd (MinimallyEncode num)
               in if length rawnum > sz then Inl SCRIPT_ERR_IMPOSSIBLE_ENCODING
                  else if length rawnum = sz then set_stack (rawnum # s) st
                  else set_stack (num2bin_pad rawnum sz # s) st)
   | _ \<Rightarrow> invalid_stack)"

definition op_bin2num :: "eval_state \<Rightarrow> eval_result" where
  "op_bin2num st = (case st_stack st of
     v # s \<Rightarrow>
       let n = snd (MinimallyEncode v)
       in if \<not> IsMinimallyEncoded n 4 then Inl SCRIPT_ERR_INVALID_NUMBER_RANGE else set_stack (n # s) st
   | [] \<Rightarrow> invalid_stack)"

subsection \<open>The instruction loop\<close>

definition is_dip0020_opcode :: "u8 \<Rightarrow> bool" where
  "is_dip0020_opcode opcode \<longleftrightarrow>
     opcode = OP_CAT \<or> opcode = OP_SPLIT \<or> opcode = OP_AND \<or> opcode = OP_OR \<or> opcode = OP_XOR \<or>
     opcode = OP_DIV \<or> opcode = OP_MOD \<or> opcode = OP_NUM2BIN \<or> opcode = OP_BIN2NUM \<or>
     opcode = OP_CHECKDATASIG \<or> opcode = OP_CHECKDATASIGVERIFY"

definition is_disabled_opcode :: "u8 \<Rightarrow> bool" where
  "is_disabled_opcode opcode \<longleftrightarrow>
     opcode = OP_INVERT \<or> opcode = OP_2MUL \<or> opcode = OP_2DIV \<or> opcode = OP_MUL \<or>
     opcode = OP_LSHIFT \<or> opcode = OP_RSHIFT"

definition is_stack_op :: "u8 \<Rightarrow> bool" where
  "is_stack_op opcode \<longleftrightarrow>
     OP_2DROP \<le> opcode \<and> opcode \<le> OP_OVER \<or> opcode = OP_ROT \<or> opcode = OP_SWAP \<or> opcode = OP_TUCK \<or> opcode = OP_SIZE"

definition eval_op :: "script_env \<Rightarrow> bool \<Rightarrow> u8 \<Rightarrow> CScript \<Rightarrow> eval_state \<Rightarrow> eval_result" where
  "eval_op E fExec opcode pc st =
     (if opcode = OP_1NEGATE \<or> OP_1 \<le> opcode \<and> opcode \<le> OP_16 then op_small_int opcode st
      else if opcode = OP_NOP then Inr st
      else if opcode = OP_CHECKLOCKTIMEVERIFY then op_checklocktimeverify E st
      else if opcode = OP_CHECKSEQUENCEVERIFY then op_checksequenceverify E st
      else if opcode = OP_NOP1 \<or> OP_NOP4 \<le> opcode \<and> opcode \<le> OP_NOP10 then op_upgradable_nop E st
      else if opcode = OP_IF \<or> opcode = OP_NOTIF then op_if fExec opcode st
      else if opcode = OP_ELSE then op_else st
      else if opcode = OP_ENDIF then op_endif st
      else if opcode = OP_VERIFY then op_verify st
      else if opcode = OP_RETURN then Inl SCRIPT_ERR_OP_RETURN
      else if opcode = OP_TOALTSTACK then op_toaltstack st
      else if opcode = OP_FROMALTSTACK then op_fromaltstack st
      else if is_stack_op opcode then
        (case op_stack opcode (st_stack st) of None \<Rightarrow> invalid_stack | Some s \<Rightarrow> set_stack s st)
      else if opcode = OP_PICK \<or> opcode = OP_ROLL then op_pick_roll E opcode st
      else if opcode = OP_EQUAL \<or> opcode = OP_EQUALVERIFY then op_equal opcode st
      else if opcode = OP_AND \<or> opcode = OP_OR \<or> opcode = OP_XOR then op_bitwise opcode st
      else if opcode = OP_1ADD \<or> opcode = OP_1SUB \<or> opcode = OP_NEGATE \<or> opcode = OP_ABS \<or>
              opcode = OP_NOT \<or> opcode = OP_0NOTEQUAL then op_unary E opcode st
      else if opcode = OP_ADD \<or> opcode = OP_SUB \<or> opcode = OP_DIV \<or> opcode = OP_MOD \<or>
              OP_BOOLAND \<le> opcode \<and> opcode \<le> OP_MAX then op_binary E opcode st
      else if opcode = OP_WITHIN then op_within E st
      else if OP_RIPEMD160 \<le> opcode \<and> opcode \<le> OP_HASH256 then op_hash E opcode st
      else if opcode = OP_CODESEPARATOR then Inr (st\<lparr>st_codehash := pc\<rparr>)
      else if opcode = OP_CHECKSIG \<or> opcode = OP_CHECKSIGVERIFY then op_checksig E opcode st
      else if opcode = OP_CHECKDATASIG \<or> opcode = OP_CHECKDATASIGVERIFY then op_checkdatasig E opcode st
      else if opcode = OP_CHECKMULTISIG \<or> opcode = OP_CHECKMULTISIGVERIFY then op_checkmultisig E opcode st
      else if opcode = OP_CAT then op_cat st
      else if opcode = OP_SPLIT then op_split E st
      else if opcode = OP_NUM2BIN then op_num2bin E st
      else if opcode = OP_BIN2NUM then op_bin2num st
      else Inl SCRIPT_ERR_BAD_OPCODE)"

definition check_opcode :: "script_env \<Rightarrow> u8 \<Rightarrow> valtype \<Rightarrow> eval_state \<Rightarrow> eval_result" where
  "check_opcode E opcode vchPushValue st =
     (if length vchPushValue > MAX_SCRIPT_ELEMENT_SIZE then Inl SCRIPT_ERR_PUSH_SIZE
      else let st = (if opcode > OP_16 then st\<lparr>st_nOpCount := st_nOpCount st + 1\<rparr> else st)
           in if opcode > OP_16 \<and> st_nOpCount st > MAX_OPS_PER_SCRIPT then Inl SCRIPT_ERR_OP_COUNT
              else if \<not> has_flag E SCRIPT_ENABLE_DIP0020_OPCODES \<and> is_dip0020_opcode opcode then Inl SCRIPT_ERR_DISABLED_OPCODE
              else if is_disabled_opcode opcode then Inl SCRIPT_ERR_DISABLED_OPCODE
              else if opcode = OP_CODESEPARATOR \<and> has_flag E SCRIPT_VERIFY_CONST_SCRIPTCODE then Inl SCRIPT_ERR_OP_CODESEPARATOR
              else Inr st)"

definition exec_opcode :: "script_env \<Rightarrow> u8 \<Rightarrow> valtype \<Rightarrow> CScript \<Rightarrow> eval_state \<Rightarrow> eval_result" where
  "exec_opcode E opcode vchPushValue pc st =
     (let fExec = list_all id (st_vfExec st)
      in if fExec \<and> opcode \<le> OP_PUSHDATA4 then
           (if fRequireMinimal E \<and> \<not> CheckMinimalPush vchPushValue opcode then Inl SCRIPT_ERR_MINIMALDATA
            else push_value vchPushValue st)
         else if fExec \<or> OP_IF \<le> opcode \<and> opcode \<le> OP_ENDIF then eval_op E fExec opcode pc st
         else Inr st)"

definition eval_instr :: "script_env \<Rightarrow> u8 \<Rightarrow> valtype \<Rightarrow> CScript \<Rightarrow> eval_state \<Rightarrow> eval_result" where
  "eval_instr E opcode vchPushValue pc st =
     (case check_opcode E opcode vchPushValue st of
        Inl e \<Rightarrow> Inl e
      | Inr st \<Rightarrow>
          (case exec_opcode E opcode vchPushValue pc st of
             Inl e \<Rightarrow> Inl e
           | Inr st \<Rightarrow>
               if length (st_stack st) + length (st_altstack st) > MAX_STACK_SIZE then Inl SCRIPT_ERR_STACK_SIZE
               else Inr st))"

function eval_loop :: "script_env \<Rightarrow> CScript \<Rightarrow> eval_state \<Rightarrow> eval_result" where
  "eval_loop E pc st =
     (if pc = [] then Inr st
      else case GetScriptOp pc of
        (False, _) \<Rightarrow> Inl SCRIPT_ERR_BAD_OPCODE
      | (True, opcode, vchPushValue, pc') \<Rightarrow>
          (case eval_instr E opcode vchPushValue pc' st of
             Inl e \<Rightarrow> Inl e
           | Inr st \<Rightarrow> eval_loop E pc' st))"
  by pat_completeness auto
termination
  by (relation "measure (\<lambda>(E, pc, st). length pc)") (auto dest: GetScriptOp_length sym)

declare eval_loop.simps [simp del]

definition eval_start :: "valtype list \<Rightarrow> CScript \<Rightarrow> eval_state" where
  "eval_start stack script =
     \<lparr>st_stack = stack, st_altstack = [], st_vfExec = [], st_nOpCount = 0, st_codehash = script\<rparr>"

definition EvalScript :: "script_env \<Rightarrow> valtype list \<Rightarrow> CScript \<Rightarrow> ScriptError + valtype list" where
  "EvalScript E stack script =
     (if length script > MAX_SCRIPT_SIZE then Inl SCRIPT_ERR_SCRIPT_SIZE
      else case eval_loop E script (eval_start stack script) of
        Inl e \<Rightarrow> Inl e
      | Inr st \<Rightarrow> if st_vfExec st \<noteq> [] then Inl SCRIPT_ERR_UNBALANCED_CONDITIONAL else Inr (st_stack st))"

subsection \<open>VerifyScript\<close>

text \<open>The checks on the stack at the end of an evaluation that must leave a true value.\<close>

definition top_is_true :: "valtype list \<Rightarrow> bool" where
  "top_is_true stack = (case stack of [] \<Rightarrow> False | v # _ \<Rightarrow> CastToBool v)"

text \<open>\<open>None\<close> is a failed assertion, which stops the program.\<close>

definition verify_clean :: "script_env \<Rightarrow> valtype list \<Rightarrow> (ScriptError + unit) option" where
  "verify_clean E stack =
     (if has_flag E SCRIPT_VERIFY_CLEANSTACK then
        (if \<not> has_flag E SCRIPT_VERIFY_P2SH then None
         else if length stack \<noteq> 1 then Some (Inl SCRIPT_ERR_CLEANSTACK) else Some (Inr ()))
      else Some (Inr ()))"

definition verify_p2sh :: "script_env \<Rightarrow> CScript \<Rightarrow> valtype list \<Rightarrow> (ScriptError + unit) option" where
  "verify_p2sh E sigScript stackCopy =
     (if \<not> IsPushOnly sigScript then Some (Inl SCRIPT_ERR_SIG_PUSHONLY)
      else case stackCopy of
        [] \<Rightarrow> None
      | pubKey2 # stack \<Rightarrow>
          (case EvalScript E stack pubKey2 of
             Inl e \<Rightarrow> Some (Inl e)
           | Inr stack \<Rightarrow>
               if \<not> top_is_true stack then Some (Inl SCRIPT_ERR_EVAL_FALSE) else verify_clean E stack))"

definition VerifyScript :: "script_env \<Rightarrow> CScript \<Rightarrow> CScript \<Rightarrow> (ScriptError + unit) option" where
  "VerifyScript E sigScript pubScript =
     (if has_flag E SCRIPT_VERIFY_SIGPUSHONLY \<and> \<not> IsPushOnly sigScript then Some (Inl SCRIPT_ERR_SIG_PUSHONLY)
      else case EvalScript E [] sigScript of
        Inl e \<Rightarrow> Some (Inl e)
      | Inr stackCopy \<Rightarrow>
          (case EvalScript E stackCopy pubScript of
             Inl e \<Rightarrow> Some (Inl e)
           | Inr stack \<Rightarrow>
               if \<not> top_is_true stack then Some (Inl SCRIPT_ERR_EVAL_FALSE)
               else if has_flag E SCRIPT_VERIFY_P2SH \<and> IsPayToScriptHash pubScript
               then verify_p2sh E sigScript stackCopy
               else verify_clean E stack))"

subsection \<open>Fewer flags accept more scripts\<close>

definition fewer_flags :: "script_env \<Rightarrow> script_env \<Rightarrow> bool" where
  "fewer_flags E E' \<longleftrightarrow>
     E' = E\<lparr>env_flags := env_flags E'\<rparr> \<and>
     env_flags E' AND env_flags E = env_flags E' \<and>
     has_flag E' SCRIPT_ENABLE_DIP0020_OPCODES = has_flag E SCRIPT_ENABLE_DIP0020_OPCODES"

lemma fewer_flags_has: "fewer_flags E E' \<Longrightarrow> has_flag E' f \<Longrightarrow> has_flag E f"
  unfolding fewer_flags_def has_flag_def by (metis bit_and_iff)

lemma fewer_flags_dip0020:
  "fewer_flags E E' \<Longrightarrow> has_flag E' SCRIPT_ENABLE_DIP0020_OPCODES = has_flag E SCRIPT_ENABLE_DIP0020_OPCODES"
  unfolding fewer_flags_def by blast

lemma fewer_flags_env:
  assumes "fewer_flags E E'"
  shows "env_CheckSig E' = env_CheckSig E" "env_CheckLockTime E' = env_CheckLockTime E"
    "env_CheckSequence E' = env_CheckSequence E" "env_CheckLowS E' = env_CheckLowS E"
    "env_PubKeyVerify E' = env_PubKeyVerify E" "env_ripemd160 E' = env_ripemd160 E"
    "env_sha1 E' = env_sha1 E" "env_sha256 E' = env_sha256 E"
proof -
  obtain f where "E' = E\<lparr>env_flags := f\<rparr>"
    using assms unfolding fewer_flags_def by blast
  then show "env_CheckSig E' = env_CheckSig E" "env_CheckLockTime E' = env_CheckLockTime E"
    "env_CheckSequence E' = env_CheckSequence E" "env_CheckLowS E' = env_CheckLowS E"
    "env_PubKeyVerify E' = env_PubKeyVerify E" "env_ripemd160 E' = env_ripemd160 E"
    "env_sha1 E' = env_sha1 E" "env_sha256 E' = env_sha256 E"
    by simp_all
qed

named_theorems fewer \<open>success with more flags is success with fewer\<close>

lemma CScriptNum_fewer: "CScriptNum vch m n = Some bn \<Longrightarrow> (m' \<Longrightarrow> m) \<Longrightarrow> CScriptNum vch m' n = Some bn"
  unfolding CScriptNum_def by (auto split: if_splits)

lemma with_num_fewer:
  assumes "fewer_flags E E'" "with_num E v n f = Inr r" "\<And>bn. f bn = Inr r \<Longrightarrow> f' bn = Inr r"
  shows "with_num E' v n f' = Inr r"
proof -
  obtain bn where bn: "CScriptNum v (fRequireMinimal E) n = Some bn" "f bn = Inr r"
    using assms(2) unfolding with_num_def by (auto split: option.splits)
  have "CScriptNum v (fRequireMinimal E') n = Some bn"
    using bn(1) by (rule CScriptNum_fewer) (use assms(1) fewer_flags_has in \<open>auto simp: fRequireMinimal_def\<close>)
  then show ?thesis
    using assms(3) bn(2) unfolding with_num_def by simp
qed

lemma check_encodings_fewer:
  assumes "fewer_flags E E'" "check_encodings E s k = None"
  shows "check_encodings E' s k = None"
proof -
  have low: "IsLowDERSignature E' s = IsLowDERSignature E s"
    unfolding IsLowDERSignature_def using assms(1) by (simp add: fewer_flags_env)
  have "CheckSignatureEncoding E s = None" "CheckPubKeyEncoding E k = None"
    using assms(2) unfolding check_encodings_def by (auto split: option.splits)
  moreover note has = fewer_flags_has [OF assms(1)]
  ultimately have "CheckSignatureEncoding E' s = None" "CheckPubKeyEncoding E' k = None"
    unfolding CheckSignatureEncoding_def CheckPubKeyEncoding_def low by (auto split: if_splits dest: has)
  then show ?thesis
    unfolding check_encodings_def by simp
qed

lemma delete_sig_fewer:
  "fewer_flags E E' \<Longrightarrow> delete_sig E c s = Some c' \<Longrightarrow> delete_sig E' c s = Some c'"
  unfolding delete_sig_def by (auto split: prod.splits if_splits dest: fewer_flags_has)

lemma delete_sigs_fewer:
  "fewer_flags E E' \<Longrightarrow> delete_sigs E c ss = Some c' \<Longrightarrow> delete_sigs E' c ss = Some c'"
  by (induction ss arbitrary: c) (auto split: option.splits dest: delete_sig_fewer)

lemma multisig_loop_fewer:
  assumes fl: "fewer_flags E E'"
  shows "multisig_loop E c ss ks = Inr b \<Longrightarrow> multisig_loop E' c ss ks = Inr b"
proof (induction ks arbitrary: ss)
  case Nil
  then show ?case
    by (cases ss) simp_all
next
  case (Cons k ks)
  show ?case
  proof (cases ss)
    case s: (Cons s ss')
    have enc: "check_encodings E s k = None"
      using Cons.prems unfolding s by (auto split: option.splits)
    show ?thesis
      using Cons.prems Cons.IH unfolding s
      by (auto simp: Let_def enc check_encodings_fewer [OF fl enc] fewer_flags_env [OF fl] split: if_splits)
  qed (use Cons.prems in simp)
qed

lemma multisig_finish_fewer:
  assumes "fewer_flags E E'" "multisig_finish E opcode b nk ns st = Inr st'"
  shows "multisig_finish E' opcode b nk ns st = Inr st'"
proof -
  have clean: "multisig_cleanup f' i n s = Some r" if "multisig_cleanup f i n s = Some r" "f' \<Longrightarrow> f" for f f' i n s r
    using that by (induction n arbitrary: i s) (auto split: if_splits)
  obtain d r where r: "multisig_cleanup (\<not> b \<and> has_flag E SCRIPT_VERIFY_NULLFAIL) (nk + 2) (nk + ns + 2) (st_stack st) = Some (d # r)"
    using assms(2) unfolding multisig_finish_def by (auto split: option.splits list.splits simp: invalid_stack_def)
  have "multisig_cleanup (\<not> b \<and> has_flag E' SCRIPT_VERIFY_NULLFAIL) (nk + 2) (nk + ns + 2) (st_stack st) = Some (d # r)"
    using r by (rule clean) (auto dest: fewer_flags_has [OF assms(1)])
  then show ?thesis
    using assms(2) r unfolding multisig_finish_def by (auto dest: fewer_flags_has [OF assms(1)] split: if_splits)
qed

lemma multisig_check_fewer:
  assumes "fewer_flags E E'" "multisig_check E opcode nk ns st = Inr st'"
  shows "multisig_check E' opcode nk ns st = Inr st'"
  using assms(2) unfolding multisig_check_def Let_def
  by (auto split: option.splits sum.splits
      simp: delete_sigs_fewer [OF assms(1)] multisig_loop_fewer [OF assms(1)] multisig_finish_fewer [OF assms(1)])

lemma op_checkmultisig_fewer [fewer]:
  assumes "fewer_flags E E'" "op_checkmultisig E opcode st = Inr st'"
  shows "op_checkmultisig E' opcode st = Inr st'"
  using assms(2) unfolding op_checkmultisig_def Let_def
  by (auto split: if_splits simp: invalid_stack_def
      elim!: with_num_fewer [OF assms(1)] multisig_check_fewer [OF assms(1)])

lemma op_checksig_fewer [fewer]:
  assumes "fewer_flags E E'" "op_checksig E opcode st = Inr st'"
  shows "op_checksig E' opcode st = Inr st'"
  using assms(2) unfolding op_checksig_def Let_def
  by (auto split: list.splits option.splits if_splits
      simp: invalid_stack_def fewer_flags_env [OF assms(1)] delete_sig_fewer [OF assms(1)] check_encodings_fewer [OF assms(1)]
      dest: fewer_flags_has [OF assms(1)])

lemma op_checkdatasig_fewer [fewer]:
  assumes "fewer_flags E E'" "op_checkdatasig E opcode st = Inr st'"
  shows "op_checkdatasig E' opcode st = Inr st'"
  using assms(2) unfolding op_checkdatasig_def Let_def
  by (auto split: list.splits option.splits if_splits
      simp: invalid_stack_def fewer_flags_env [OF assms(1)] check_encodings_fewer [OF assms(1)]
      dest: fewer_flags_has [OF assms(1)])

lemma with_num_Inr:
  "with_num E v n f = Inr r \<Longrightarrow> \<exists>bn. CScriptNum v (fRequireMinimal E) n = Some bn \<and> f bn = Inr r"
  unfolding with_num_def by (auto split: option.splits)

lemma op_checklocktimeverify_fewer [fewer]:
  assumes "fewer_flags E E'" "op_checklocktimeverify E st = Inr st'"
  shows "op_checklocktimeverify E' st = Inr st'"
proof (cases "has_flag E' SCRIPT_VERIFY_CHECKLOCKTIMEVERIFY")
  case True
  then show ?thesis
    using assms(2) fewer_flags_has [OF assms(1) True] unfolding op_checklocktimeverify_def
    by (auto simp: invalid_stack_def fewer_flags_env [OF assms(1)] split: list.splits if_splits
        elim!: with_num_fewer [OF assms(1)])
next
  case False
  then show ?thesis
    using assms(2) unfolding op_checklocktimeverify_def
    by (auto simp: invalid_stack_def split: if_splits list.splits dest!: with_num_Inr)
qed

lemma op_checksequenceverify_fewer [fewer]:
  assumes "fewer_flags E E'" "op_checksequenceverify E st = Inr st'"
  shows "op_checksequenceverify E' st = Inr st'"
proof (cases "has_flag E' SCRIPT_VERIFY_CHECKSEQUENCEVERIFY")
  case True
  then show ?thesis
    using assms(2) fewer_flags_has [OF assms(1) True] unfolding op_checksequenceverify_def
    by (auto simp: invalid_stack_def fewer_flags_env [OF assms(1)] split: list.splits if_splits
        elim!: with_num_fewer [OF assms(1)])
next
  case False
  then show ?thesis
    using assms(2) unfolding op_checksequenceverify_def
    by (auto simp: invalid_stack_def split: if_splits list.splits dest!: with_num_Inr)
qed

lemma op_upgradable_nop_fewer [fewer]:
  "fewer_flags E E' \<Longrightarrow> op_upgradable_nop E st = Inr st' \<Longrightarrow> op_upgradable_nop E' st = Inr st'"
  unfolding op_upgradable_nop_def by (auto split: if_splits dest: fewer_flags_has)

lemma op_pick_roll_fewer [fewer]:
  assumes "fewer_flags E E'" "op_pick_roll E opcode st = Inr st'"
  shows "op_pick_roll E' opcode st = Inr st'"
  using assms(2) unfolding op_pick_roll_def
  by (auto simp: invalid_stack_def split: if_splits elim!: with_num_fewer [OF assms(1)])

lemma op_unary_fewer [fewer]:
  assumes "fewer_flags E E'" "op_unary E opcode st = Inr st'"
  shows "op_unary E' opcode st = Inr st'"
  using assms(2) unfolding op_unary_def
  by (auto simp: invalid_stack_def split: list.splits elim!: with_num_fewer [OF assms(1)])

lemma op_binary_fewer [fewer]:
  assumes "fewer_flags E E'" "op_binary E opcode st = Inr st'"
  shows "op_binary E' opcode st = Inr st'"
  using assms(2) unfolding op_binary_def
  by (auto simp: invalid_stack_def split: list.splits elim!: with_num_fewer [OF assms(1)])

lemma op_within_fewer [fewer]:
  assumes "fewer_flags E E'" "op_within E st = Inr st'"
  shows "op_within E' st = Inr st'"
  using assms(2) unfolding op_within_def
  by (auto simp: invalid_stack_def split: list.splits elim!: with_num_fewer [OF assms(1)])

lemma op_split_fewer [fewer]:
  assumes "fewer_flags E E'" "op_split E st = Inr st'"
  shows "op_split E' st = Inr st'"
  using assms(2) unfolding op_split_def
  by (auto simp: invalid_stack_def split: list.splits elim!: with_num_fewer [OF assms(1)])

lemma op_num2bin_fewer [fewer]:
  assumes "fewer_flags E E'" "op_num2bin E st = Inr st'"
  shows "op_num2bin E' st = Inr st'"
  using assms(2) unfolding op_num2bin_def
  by (auto simp: invalid_stack_def split: list.splits elim!: with_num_fewer [OF assms(1)])

lemma op_hash_fewer [fewer]:
  assumes "fewer_flags E E'" "op_hash E opcode st = Inr st'"
  shows "op_hash E' opcode st = Inr st'"
  using assms(2) unfolding op_hash_def env_hash_def fewer_flags_env [OF assms(1)] .

lemma if_fewer:
  "(if P then a else b) = Inr r \<Longrightarrow> (P \<Longrightarrow> a = Inr r \<Longrightarrow> a' = Inr r) \<Longrightarrow> (\<not> P \<Longrightarrow> b = Inr r \<Longrightarrow> b' = Inr r) \<Longrightarrow>
   (if P then a' else b') = Inr r"
  by (cases P) simp_all

lemma eval_op_fewer:
  assumes "fewer_flags E E'" "eval_op E fExec opcode pc st = Inr st'"
  shows "eval_op E' fExec opcode pc st = Inr st'"
  using assms(2) unfolding eval_op_def by (elim if_fewer) (assumption | erule fewer [OF assms(1)])+

lemma check_opcode_fewer:
  assumes "fewer_flags E E'" "check_opcode E opcode v st = Inr st'"
  shows "check_opcode E' opcode v st = Inr st'"
  using assms(2) unfolding check_opcode_def Let_def fewer_flags_dip0020 [OF assms(1)]
  by (auto split: if_splits dest: fewer_flags_has [OF assms(1)])

lemma exec_opcode_fewer:
  assumes "fewer_flags E E'" "exec_opcode E opcode v pc st = Inr st'"
  shows "exec_opcode E' opcode v pc st = Inr st'"
  using assms(2) unfolding exec_opcode_def Let_def fRequireMinimal_def
  by (auto split: if_splits dest: fewer_flags_has [OF assms(1)] eval_op_fewer [OF assms(1)])

lemma eval_instr_fewer:
  assumes "fewer_flags E E'" "eval_instr E opcode v pc st = Inr st'"
  shows "eval_instr E' opcode v pc st = Inr st'"
  using assms(2) unfolding eval_instr_def
  by (auto split: sum.splits simp: check_opcode_fewer [OF assms(1)] exec_opcode_fewer [OF assms(1)])

lemma eval_loop_fewer:
  assumes "fewer_flags E E'"
  shows "eval_loop E pc st = Inr st' \<Longrightarrow> eval_loop E' pc st = Inr st'"
proof (induction "length pc" arbitrary: pc st rule: less_induct)
  case less
  show ?case
  proof (cases "pc = []")
    case False
    obtain opcode v pc' where op: "GetScriptOp pc = (True, opcode, v, pc')"
      using less.prems False by (subst (asm) eval_loop.simps) (auto split: prod.splits bool.splits)
    then obtain st1 where st1: "eval_instr E opcode v pc' st = Inr st1" "eval_loop E pc' st1 = Inr st'"
      using less.prems False by (subst (asm) eval_loop.simps) (auto split: sum.splits)
    then show ?thesis
      using less.hyps [OF GetScriptOp_length [OF op] st1(2)] eval_instr_fewer [OF assms st1(1)] False op
      by (subst eval_loop.simps) simp
  qed (use less.prems in \<open>simp add: eval_loop.simps\<close>)
qed

lemma EvalScript_fewer:
  assumes "fewer_flags E E'" "EvalScript E stack script = Inr s"
  shows "EvalScript E' stack script = Inr s"
  using assms(2) unfolding EvalScript_def
  by (auto split: if_splits sum.splits simp: eval_loop_fewer [OF assms(1)] dest: eval_loop_fewer [OF assms(1)])

text \<open>The flag for a clean stack goes with the one for script hashes.\<close>

definition clean_needs_p2sh :: "script_env \<Rightarrow> bool" where
  "clean_needs_p2sh E \<longleftrightarrow> \<not> has_flag E SCRIPT_VERIFY_CLEANSTACK \<or> has_flag E SCRIPT_VERIFY_P2SH"

lemma verify_clean_fewer:
  assumes "fewer_flags E E'" "clean_needs_p2sh E'" "verify_clean E s = Some (Inr ())"
  shows "verify_clean E' s = Some (Inr ())"
  using assms(2,3) unfolding verify_clean_def clean_needs_p2sh_def
  by (auto split: if_splits dest: fewer_flags_has [OF assms(1)])

lemma verify_p2sh_fewer:
  assumes "fewer_flags E E'" "clean_needs_p2sh E'" "verify_p2sh E sig s = Some (Inr ())"
  shows "verify_p2sh E' sig s = Some (Inr ())"
  using assms(3) unfolding verify_p2sh_def
  by (auto split: if_splits list.splits sum.splits
      simp: EvalScript_fewer [OF assms(1)] verify_clean_fewer [OF assms(1,2)])

text \<open>
  C6: the verification flags only restrict. Where a spend verifies under a
  set of flags, it verifies under every smaller set that keeps the flag for the extra opcodes and does
  not ask for a clean stack without the script hash rule. A block accepted under the new rules is
  accepted under the old ones.
\<close>

theorem VerifyScript_fewer_flags:
  assumes "fewer_flags E E'" "clean_needs_p2sh E'" "VerifyScript E sig spk = Some (Inr ())"
  shows "VerifyScript E' sig spk = Some (Inr ())"
proof -
  have push: "\<not> (has_flag E SCRIPT_VERIFY_SIGPUSHONLY \<and> \<not> IsPushOnly sig)"
    using assms(3) unfolding VerifyScript_def by (auto split: if_splits)
  obtain s1 where s1: "EvalScript E [] sig = Inr s1"
    using assms(3) push unfolding VerifyScript_def by (auto split: sum.splits if_splits)
  obtain s2 where s2: "EvalScript E s1 spk = Inr s2"
    using assms(3) push s1 unfolding VerifyScript_def by (auto split: sum.splits if_splits)
  have rest: "top_is_true s2"
    "if has_flag E SCRIPT_VERIFY_P2SH \<and> IsPayToScriptHash spk then verify_p2sh E sig s1 = Some (Inr ())
     else verify_clean E s2 = Some (Inr ())"
    using assms(3) push s1 s2 unfolding VerifyScript_def by (auto split: if_splits)
  have push': "\<not> (has_flag E' SCRIPT_VERIFY_SIGPUSHONLY \<and> \<not> IsPushOnly sig)"
    using push fewer_flags_has [OF assms(1)] by blast
  have none: "verify_clean E' s2 = Some (Inr ())" if "\<not> has_flag E' SCRIPT_VERIFY_P2SH"
    using that assms(2) unfolding verify_clean_def clean_needs_p2sh_def by simp
  have "if has_flag E' SCRIPT_VERIFY_P2SH \<and> IsPayToScriptHash spk then verify_p2sh E' sig s1 = Some (Inr ())
     else verify_clean E' s2 = Some (Inr ())"
    using rest(2) none verify_clean_fewer [OF assms(1,2)] verify_p2sh_fewer [OF assms(1,2)] fewer_flags_has [OF assms(1)]
    by (auto split: if_splits)
  then show ?thesis
    using rest(1) push' EvalScript_fewer [OF assms(1) s1] EvalScript_fewer [OF assms(1) s2]
    unfolding VerifyScript_def by (auto split: if_splits)
qed

definition demo_env :: "u32 \<Rightarrow> script_env" where
  "demo_env f = \<lparr>env_flags = f, env_CheckSig = (\<lambda>s k c. s \<noteq> [] \<and> take 2 k = [2, 7]), env_CheckLockTime = (\<lambda>_. True),
     env_CheckSequence = (\<lambda>_. True), env_CheckLowS = (\<lambda>_. True), env_PubKeyVerify = (\<lambda>_ _ _. True),
     env_ripemd160 = (\<lambda>v. take 20 (v @ replicate 20 0)), env_sha1 = (\<lambda>v. take 20 (v @ replicate 20 0)),
     env_sha256 = (\<lambda>v. take 32 (v @ replicate 32 0))\<rparr>"

theorem VerifyScript_fewer_flags_witness:
  "VerifyScript (demo_env 0x141) [OP_1, OP_1] [OP_1ADD, OP_2, OP_EQUALVERIFY] = Some (Inr ()) \<and>
   VerifyScript (demo_env 0x1) [OP_1, OP_1] [OP_1ADD, OP_2, OP_EQUALVERIFY] = Some (Inr ())"
proof -
  have "fewer_flags (demo_env 0x141) (demo_env 0x1)" "clean_needs_p2sh (demo_env 0x1)"
    unfolding fewer_flags_def demo_env_def clean_needs_p2sh_def by (simp_all add: has_flag_def SCRIPT_ENABLE_DIP0020_OPCODES_def SCRIPT_VERIFY_CLEANSTACK_def)
  moreover have "VerifyScript (demo_env 0x141) [OP_1, OP_1] [OP_1ADD, OP_2, OP_EQUALVERIFY] = Some (Inr ())"
    by code_simp
  ultimately show ?thesis
    using VerifyScript_fewer_flags by blast
qed

subsection \<open>The limits\<close>

text \<open>The hash functions have outputs of 20 and 32 bytes; what counts is that they fit in an element.\<close>

definition hash_sizes :: "script_env \<Rightarrow> bool" where
  "hash_sizes E \<longleftrightarrow> (\<forall>v. length (env_ripemd160 E v) = 20 \<and> length (env_sha1 E v) = 20 \<and> length (env_sha256 E v) = 32)"

definition elem_ok :: "valtype \<Rightarrow> bool" where
  "elem_ok v \<longleftrightarrow> length v \<le> MAX_SCRIPT_ELEMENT_SIZE"

definition state_ok :: "eval_state \<Rightarrow> bool" where
  "state_ok st \<longleftrightarrow> list_all elem_ok (st_stack st) \<and> list_all elem_ok (st_altstack st) \<and>
     0 \<le> st_nOpCount st \<and> st_nOpCount st \<le> MAX_OPS_PER_SCRIPT"

definition stack_fits :: "eval_state \<Rightarrow> bool" where
  "stack_fits st \<longleftrightarrow> length (st_stack st) + length (st_altstack st) \<le> MAX_STACK_SIZE"

named_theorems keeps_ok \<open>operations that keep the elements of the stacks within the size limit\<close>

lemma elem_ok_le: "length v \<le> n \<Longrightarrow> n \<le> 520 \<Longrightarrow> elem_ok v"
  unfolding elem_ok_def MAX_SCRIPT_ELEMENT_SIZE_def by simp

lemma elem_ok_serialize:
  assumes "\<bar>n\<bar> < 2 ^ 39"
  shows "elem_ok (scriptnum_serialize n)"
  using length_serialize [of n 4] assms by (intro elem_ok_le [of _ 5]) simp_all

lemma elem_ok_bool: "elem_ok (bool_vch b)"
  unfolding elem_ok_def bool_vch_def vchTrue_def vchFalse_def MAX_SCRIPT_ELEMENT_SIZE_def by simp

lemma state_ok_set: "state_ok st \<Longrightarrow> state_ok (st\<lparr>st_stack := s\<rparr>) \<longleftrightarrow> list_all elem_ok s"
  unfolding state_ok_def by simp

lemma state_ok_stack: "state_ok st \<Longrightarrow> list_all elem_ok (st_stack st)"
  unfolding state_ok_def by simp

lemma with_num4:
  assumes "with_num E v 4 f = Inr r"
  obtains bn where "f bn = Inr r" "\<bar>bn\<bar> < 2 ^ 31" "length v \<le> 4"
proof -
  obtain bn where bn: "CScriptNum v (fRequireMinimal E) 4 = Some bn" "f bn = Inr r"
    using assms unfolding with_num_def by (auto split: option.splits)
  then have v: "length v \<le> 4" "bn = set_vch v"
    unfolding CScriptNum_def by (auto split: if_splits)
  then have "bn = num_val v"
    using set_vch_num_val [of v] by simp
  then have "\<bar>bn\<bar> < 2 ^ 31"
    using num_val_bound [of v 3] v(1) by simp
  then show thesis
    using that [OF bn(2) _ v(1)] by blast
qed

lemma set_stack_Inr: "set_stack s st = Inr st' \<longleftrightarrow> st' = st\<lparr>st_stack := s\<rparr>"
  unfolding set_stack_def by auto

lemma set_stack_ok:
  "set_stack s st = Inr st' \<Longrightarrow> state_ok st \<Longrightarrow> list_all elem_ok s \<Longrightarrow> state_ok st'"
  unfolding set_stack_def by (auto simp: state_ok_set)

lemma op_small_int_ok [keeps_ok]:
  assumes "op_small_int opcode st = Inr st'" "state_ok st"
  shows "state_ok st'"
proof -
  have "0 \<le> uint opcode" "uint opcode < 256"
    using uint_bounded [of opcode] by simp_all
  then have "\<bar>uint opcode - 80\<bar> < 549755813888"
    by linarith
  then have "elem_ok (scriptnum_serialize (uint opcode - 80))"
    by (intro elem_ok_serialize) simp
  then show ?thesis
    using assms unfolding op_small_int_def push_value_def by (auto simp: state_ok_set state_ok_stack)
qed

lemma locktime_ok [keeps_ok]:
  "op_checklocktimeverify E st = Inr st' \<Longrightarrow> state_ok st \<Longrightarrow> state_ok st'"
  "op_checksequenceverify E st = Inr st' \<Longrightarrow> state_ok st \<Longrightarrow> state_ok st'"
  "op_upgradable_nop E st = Inr st' \<Longrightarrow> state_ok st \<Longrightarrow> state_ok st'"
  unfolding op_checklocktimeverify_def op_checksequenceverify_def op_upgradable_nop_def with_num_def invalid_stack_def
  by (auto split: if_splits list.splits option.splits)

lemma control_ok [keeps_ok]:
  "op_if fExec opcode st = Inr st' \<Longrightarrow> state_ok st \<Longrightarrow> state_ok st'"
  "op_else st = Inr st' \<Longrightarrow> state_ok st \<Longrightarrow> state_ok st'"
  "op_endif st = Inr st' \<Longrightarrow> state_ok st \<Longrightarrow> state_ok st'"
  "op_verify st = Inr st' \<Longrightarrow> state_ok st \<Longrightarrow> state_ok st'"
  "op_toaltstack st = Inr st' \<Longrightarrow> state_ok st \<Longrightarrow> state_ok st'"
  "op_fromaltstack st = Inr st' \<Longrightarrow> state_ok st \<Longrightarrow> state_ok st'"
  unfolding op_if_def op_else_def op_endif_def op_verify_def op_toaltstack_def op_fromaltstack_def
    invalid_stack_def set_stack_def state_ok_def Let_def
  by (auto split: if_splits list.splits)

lemma if_elim:
  "(if P then a else b) = r \<Longrightarrow> (P \<Longrightarrow> a = r \<Longrightarrow> Q) \<Longrightarrow> (\<not> P \<Longrightarrow> b = r \<Longrightarrow> Q) \<Longrightarrow> Q"
  by (cases P) simp_all

lemma op_stack_ok:
  assumes "op_stack opcode s = Some s'" "list_all elem_ok s" "length s \<le> MAX_STACK_SIZE"
  shows "list_all elem_ok s'"
proof -
  have depth: "elem_ok (scriptnum_serialize (int (length s)))"
    using assms(3) by (intro elem_ok_serialize) (simp add: MAX_STACK_SIZE_def)
  have sz: "elem_ok (scriptnum_serialize (int (length x)))" if "elem_ok x" for x :: valtype
    using that by (intro elem_ok_serialize) (simp add: elem_ok_def MAX_SCRIPT_ELEMENT_SIZE_def)
  show ?thesis
    using assms(1,2) depth unfolding op_stack.simps [of opcode s] op_stack_rot.simps [of opcode s]
    by (elim if_elim) (auto split: list.splits if_splits simp: sz)
qed

lemma op_stack_case_ok [keeps_ok]:
  assumes "(case op_stack opcode (st_stack st) of None \<Rightarrow> invalid_stack | Some s \<Rightarrow> set_stack s st) = Inr st'"
    "state_ok st" "stack_fits st"
  shows "state_ok st'"
proof -
  obtain s where s: "op_stack opcode (st_stack st) = Some s" "st' = st\<lparr>st_stack := s\<rparr>"
    using assms(1) by (auto split: option.splits simp: invalid_stack_def set_stack_def)
  have "list_all elem_ok s"
    using op_stack_ok [OF s(1)] assms(2,3) unfolding state_ok_def stack_fits_def by simp
  then show ?thesis
    using s(2) assms(2) by (simp add: state_ok_set)
qed

lemma op_pick_roll_ok [keeps_ok]:
  assumes "op_pick_roll E opcode st = Inr st'" "state_ok st"
  shows "state_ok st'"
proof -
  obtain n where n: "0 \<le> n" "n < int (length (tl (st_stack st)))"
    "st' = st\<lparr>st_stack := tl (st_stack st) ! nat n #
       (if opcode = OP_ROLL then take (nat n) (tl (st_stack st)) @ drop (nat n + 1) (tl (st_stack st))
        else tl (st_stack st))\<rparr>"
  proof -
    from assms(1) obtain bn where
      "(let n = getint bn; s = tl (st_stack st)
        in if n < 0 \<or> n \<ge> int (length s) then invalid_stack
           else let vch = s ! nat n;
                    s = (if opcode = OP_ROLL then take (nat n) s @ drop (nat n + 1) s else s)
                in set_stack (vch # s) st) = Inr st'"
      unfolding op_pick_roll_def by (auto simp: invalid_stack_def elim!: if_elim with_num4)
    then have "0 \<le> getint bn" "getint bn < int (length (tl (st_stack st)))"
      "st' = st\<lparr>st_stack := tl (st_stack st) ! nat (getint bn) #
         (if opcode = OP_ROLL then take (nat (getint bn)) (tl (st_stack st)) @ drop (nat (getint bn) + 1) (tl (st_stack st))
          else tl (st_stack st))\<rparr>"
      unfolding Let_def by (auto simp: invalid_stack_def set_stack_Inr elim!: if_elim)
    then show thesis
      using that by blast
  qed
  have "list_all elem_ok (tl (st_stack st))"
    using state_ok_stack [OF assms(2)] by (cases "st_stack st") simp_all
  then show ?thesis
    using n(1,2) unfolding n(3) state_ok_set [OF assms(2)]
    by (auto simp: list_all_iff dest: in_set_takeD in_set_dropD intro: nth_mem)
qed

lemma op_equal_ok [keeps_ok]: "op_equal opcode st = Inr st' \<Longrightarrow> state_ok st \<Longrightarrow> state_ok st'"
  unfolding op_equal_def Let_def
  by (auto split: list.splits if_splits simp: invalid_stack_def set_stack_Inr state_ok_set elem_ok_bool
      dest: state_ok_stack)

lemma op_bitwise_ok [keeps_ok]: "op_bitwise opcode st = Inr st' \<Longrightarrow> state_ok st \<Longrightarrow> state_ok st'"
  unfolding op_bitwise_def
  by (auto split: list.splits if_splits simp: invalid_stack_def set_stack_Inr state_ok_set elem_ok_def
      dest: state_ok_stack)

lemma op_unary_ok [keeps_ok]:
  assumes "op_unary E opcode st = Inr st'" "state_ok st"
  shows "state_ok st'"
proof -
  obtain v s where s: "st_stack st = v # s"
    using assms(1) unfolding op_unary_def by (auto split: list.splits simp: invalid_stack_def)
  then obtain bn where bn: "\<bar>bn\<bar> < 2 ^ 31" "st' = st\<lparr>st_stack := scriptnum_serialize (num_unary opcode bn) # s\<rparr>"
    using assms(1) unfolding op_unary_def by (auto simp: set_stack_Inr elim: with_num4)
  have "\<bar>num_unary opcode bn\<bar> < 2 ^ 39"
    using bn(1) unfolding num_unary_def by (auto simp: of_bool_def)
  then show ?thesis
    using state_ok_stack [OF assms(2)] s unfolding bn(2) state_ok_set [OF assms(2)] by (simp add: elem_ok_serialize)
qed

lemma num_binary_bound:
  assumes "\<bar>a\<bar> < 2 ^ 31" "\<bar>b\<bar> < 2 ^ 31" "num_binary opcode a b = Inr n"
  shows "\<bar>n\<bar> < 2 ^ 39"
  using assms sdiv_int_range [of a b] smod_int_range [of b a] unfolding num_binary_def
  by (elim if_elim) (auto simp: of_bool_def)

lemma op_binary_ok [keeps_ok]:
  assumes "op_binary E opcode st = Inr st'" "state_ok st"
  shows "state_ok st'"
proof -
  obtain v2 v1 s where s: "st_stack st = v2 # v1 # s"
    using assms(1) unfolding op_binary_def by (auto split: list.splits simp: invalid_stack_def)
  then obtain bn1 bn2 n where bn: "\<bar>bn1\<bar> < 2 ^ 31" "\<bar>bn2\<bar> < 2 ^ 31" "num_binary opcode bn1 bn2 = Inr n"
    "st' = st\<lparr>st_stack := s\<rparr> \<or> st' = st\<lparr>st_stack := scriptnum_serialize n # s\<rparr>"
    using assms(1) unfolding op_binary_def
    by (auto simp: set_stack_Inr split: sum.splits if_splits elim!: with_num4)
  then show ?thesis
    using state_ok_stack [OF assms(2)] s num_binary_bound [OF bn(1-3)] assms(2)
    by (auto simp: elem_ok_serialize state_ok_set)
qed

lemma op_within_ok [keeps_ok]:
  assumes "op_within E st = Inr st'" "state_ok st"
  shows "state_ok st'"
  using assms state_ok_stack [OF assms(2)] unfolding op_within_def
  by (auto split: list.splits simp: invalid_stack_def set_stack_Inr state_ok_set elem_ok_bool elim!: with_num4)

lemma op_hash_ok [keeps_ok]:
  assumes "op_hash E opcode st = Inr st'" "state_ok st" "hash_sizes E"
  shows "state_ok st'"
proof -
  have "elem_ok (env_hash E opcode v)" for v
    using assms(3) unfolding hash_sizes_def env_hash_def elem_ok_def MAX_SCRIPT_ELEMENT_SIZE_def by simp
  then show ?thesis
    using assms(1,2) state_ok_stack [OF assms(2)] unfolding op_hash_def
    by (auto split: list.splits simp: invalid_stack_def set_stack_Inr state_ok_set)
qed

lemma op_checksig_ok [keeps_ok]: "op_checksig E opcode st = Inr st' \<Longrightarrow> state_ok st \<Longrightarrow> state_ok st'"
  unfolding op_checksig_def Let_def
  by (auto split: list.splits if_splits option.splits simp: invalid_stack_def set_stack_Inr state_ok_set elem_ok_bool
      dest: state_ok_stack)

lemma op_checkdatasig_ok [keeps_ok]: "op_checkdatasig E opcode st = Inr st' \<Longrightarrow> state_ok st \<Longrightarrow> state_ok st'"
  unfolding op_checkdatasig_def Let_def
  by (auto split: list.splits if_splits option.splits simp: invalid_stack_def set_stack_Inr state_ok_set elem_ok_bool
      dest: state_ok_stack)

lemma multisig_cleanup_drop: "multisig_cleanup f i n s = Some r \<Longrightarrow> r = drop n s"
  by (induction n arbitrary: i s) (auto split: if_splits simp: drop_Suc)

lemma multisig_check_stack:
  assumes "multisig_check E opcode nk ns st = Inr st'"
  obtains s b where "st' = st\<lparr>st_stack := s\<rparr>"
    "s = drop (nk + ns + 3) (st_stack st) \<or> s = bool_vch b # drop (nk + ns + 3) (st_stack st)"
proof -
  obtain b where "multisig_finish E opcode b nk ns st = Inr st'"
    using assms unfolding multisig_check_def Let_def by (auto split: option.splits sum.splits)
  then obtain d r where r: "multisig_cleanup (\<not> b \<and> has_flag E SCRIPT_VERIFY_NULLFAIL) (nk + 2) (nk + ns + 2) (st_stack st) = Some (d # r)"
    "st' = st\<lparr>st_stack := r\<rparr> \<or> st' = st\<lparr>st_stack := bool_vch b # r\<rparr>"
    unfolding multisig_finish_def by (auto split: option.splits list.splits if_splits simp: invalid_stack_def set_stack_Inr)
  have "r = drop (nk + ns + 3) (st_stack st)"
    using multisig_cleanup_drop [OF r(1), symmetric] by (simp add: drop_Suc tl_drop [symmetric] numeral_3_eq_3)
  then show thesis
    using that r(2) by blast
qed

lemma op_checkmultisig_ok [keeps_ok]:
  assumes "op_checkmultisig E opcode st = Inr st'" "state_ok st"
  shows "state_ok st'"
proof -
  obtain k nk ns where k: "0 \<le> k" "st_nOpCount st + k \<le> MAX_OPS_PER_SCRIPT"
    "multisig_check E opcode nk ns (st\<lparr>st_nOpCount := st_nOpCount st + k\<rparr>) = Inr st'"
    using assms(1) unfolding op_checkmultisig_def Let_def
    by (auto simp: invalid_stack_def not_less elim!: if_elim with_num4) blast
  then have ok: "state_ok (st\<lparr>st_nOpCount := st_nOpCount st + k\<rparr>)"
    using assms(2) unfolding state_ok_def by simp
  have "list_all elem_ok (drop n (st_stack st))" for n
    using state_ok_stack [OF assms(2)] by (auto simp: list_all_iff dest: in_set_dropD)
  then show ?thesis
    using ok by (rule_tac multisig_check_stack [OF k(3)]) (auto simp: state_ok_def elem_ok_bool)
qed

lemma op_cat_ok [keeps_ok]: "op_cat st = Inr st' \<Longrightarrow> state_ok st \<Longrightarrow> state_ok st'"
  unfolding op_cat_def
  by (auto split: list.splits if_splits simp: invalid_stack_def set_stack_Inr state_ok_set elem_ok_def
      dest: state_ok_stack)

lemma op_split_ok [keeps_ok]:
  assumes "op_split E st = Inr st'" "state_ok st"
  shows "state_ok st'"
  using assms state_ok_stack [OF assms(2)] unfolding op_split_def Let_def
  by (auto split: list.splits simp: invalid_stack_def set_stack_Inr state_ok_set elem_ok_def elim!: with_num4 if_elim)

lemma length_num2bin_pad: "length rawnum < n \<Longrightarrow> length (num2bin_pad rawnum n) = n"
  unfolding num2bin_pad_def Let_def by simp

lemma op_num2bin_ok [keeps_ok]:
  assumes "op_num2bin E st = Inr st'" "state_ok st"
  shows "state_ok st'"
  using assms state_ok_stack [OF assms(2)] unfolding op_num2bin_def Let_def
  by (auto split: list.splits simp: invalid_stack_def set_stack_Inr state_ok_set elem_ok_def length_num2bin_pad
      elim!: with_num4 if_elim)

lemma op_bin2num_ok [keeps_ok]:
  assumes "op_bin2num st = Inr st'" "state_ok st"
  shows "state_ok st'"
  using assms state_ok_stack [OF assms(2)] unfolding op_bin2num_def Let_def
  by (auto split: list.splits if_splits
      simp: invalid_stack_def set_stack_Inr state_ok_set IsMinimallyEncoded_iff intro: elem_ok_le)

lemma eval_op_ok:
  assumes "eval_op E fExec opcode pc st = Inr st'" "state_ok st" "stack_fits st" "hash_sizes E"
  shows "state_ok st'"
proof -
  have "state_ok (st\<lparr>st_codehash := pc\<rparr>)"
    using assms(2) unfolding state_ok_def by simp
  then show ?thesis
    using assms unfolding eval_op_def by (elim if_elim) (auto dest: keeps_ok)
qed

lemma check_opcode_ok:
  assumes "check_opcode E opcode v st = Inr st1" "state_ok st" "stack_fits st"
  shows "state_ok st1" "stack_fits st1" "length v \<le> MAX_SCRIPT_ELEMENT_SIZE"
  using assms unfolding check_opcode_def Let_def state_ok_def stack_fits_def by (auto split: if_splits)

lemma eval_instr_ok:
  assumes "eval_instr E opcode v pc st = Inr st'" "state_ok st" "stack_fits st" "hash_sizes E"
  shows "state_ok st'" "stack_fits st'"
proof -
  obtain st1 where st1: "check_opcode E opcode v st = Inr st1" "exec_opcode E opcode v pc st1 = Inr st'"
    "stack_fits st'"
    using assms(1) unfolding eval_instr_def stack_fits_def by (auto split: sum.splits if_splits)
  note ok = check_opcode_ok [OF st1(1) assms(2,3)]
  show "state_ok st'"
    using st1(2) ok state_ok_stack [OF ok(1)] eval_op_ok [OF _ ok(1,2) assms(4)] unfolding exec_opcode_def Let_def
    by (auto simp: push_value_def state_ok_set elem_ok_def elim!: if_elim)
  show "stack_fits st'"
    using st1(3) .
qed

text \<open>One turn of the loop as a step on the rest of the script and the state.\<close>

inductive eval_step :: "script_env \<Rightarrow> CScript \<times> eval_state \<Rightarrow> CScript \<times> eval_state \<Rightarrow> bool" for E where
  instr: "pc \<noteq> [] \<Longrightarrow> GetScriptOp pc = (True, opcode, v, pc') \<Longrightarrow> eval_instr E opcode v pc' st = Inr st' \<Longrightarrow>
    eval_step E (pc, st) (pc', st')"

inductive_cases eval_stepE: "eval_step E (pc, st) c"

lemma eval_loop_steps: "eval_loop E pc st = Inr st' \<longleftrightarrow> (eval_step E)\<^sup>*\<^sup>* (pc, st) ([], st')"
proof (induction "length pc" arbitrary: pc st rule: less_induct)
  case less
  show ?case
  proof (cases "pc = []")
    case True
    have "(eval_step E)\<^sup>*\<^sup>* ([], st) ([], st') \<longleftrightarrow> st = st'"
      by (auto elim: converse_rtranclpE eval_stepE)
    then show ?thesis
      using True by (simp add: eval_loop.simps)
  next
    case False
    show ?thesis
    proof
      assume run: "eval_loop E pc st = Inr st'"
      obtain opcode v pc' where op: "GetScriptOp pc = (True, opcode, v, pc')"
        using run False by (subst (asm) eval_loop.simps) (auto split: prod.splits bool.splits)
      then obtain st1 where st1: "eval_instr E opcode v pc' st = Inr st1" "eval_loop E pc' st1 = Inr st'"
        using run False by (subst (asm) eval_loop.simps) (auto split: sum.splits)
      then have "eval_step E (pc, st) (pc', st1)"
        using False op by (intro instr)
      then show "(eval_step E)\<^sup>*\<^sup>* (pc, st) ([], st')"
        using less [OF GetScriptOp_length [OF op], of st1] st1(2) by (meson converse_rtranclp_into_rtranclp)
    next
      assume "(eval_step E)\<^sup>*\<^sup>* (pc, st) ([], st')"
      then obtain pc' st1 where s: "eval_step E (pc, st) (pc', st1)" "(eval_step E)\<^sup>*\<^sup>* (pc', st1) ([], st')"
        using False by (cases rule: converse_rtranclpE) auto
      from s(1) obtain opcode v where op: "GetScriptOp pc = (True, opcode, v, pc')" "eval_instr E opcode v pc' st = Inr st1"
        by (auto elim: eval_stepE)
      then show "eval_loop E pc st = Inr st'"
        using False s(2) less [OF GetScriptOp_length [OF op(1)], of st1] by (subst eval_loop.simps) simp
    qed
  qed
qed

lemma eval_steps_ok:
  assumes "hash_sizes E" "(eval_step E)\<^sup>*\<^sup>* (pc, st) (pc', st')" "state_ok st" "stack_fits st"
  shows "state_ok st' \<and> stack_fits st'"
  using assms(2)
proof (induction "(pc', st')" arbitrary: pc' st' rule: rtranclp_induct)
  case (step c)
  then show ?case
    using eval_instr_ok [OF _ _ _ assms(1)] by (cases c) (auto elim!: eval_stepE)
qed (use assms(3,4) in simp)

text \<open>
  C16: in every state an evaluation reaches from a stack within the limits, the main
  and the alternative stack together hold at most 1000 elements of at most 520 bytes each, and at most
  201 operations are counted, those of the keys of a multi-signature check included. In particular a
  successful evaluation ends in such a state, with the whole script consumed.
\<close>

theorem EvalScript_limits:
  assumes "hash_sizes E" "list_all elem_ok stack" "length stack \<le> MAX_STACK_SIZE"
  shows "((eval_step E)\<^sup>*\<^sup>* (script, eval_start stack script) (pc, st) \<longrightarrow>
      list_all elem_ok (st_stack st @ st_altstack st) \<and>
      length (st_stack st) + length (st_altstack st) \<le> 1000 \<and> 0 \<le> st_nOpCount st \<and> st_nOpCount st \<le> 201) \<and>
    (EvalScript E stack script = Inr stack' \<longrightarrow>
      list_all elem_ok stack' \<and> length stack' \<le> 1000 \<and>
      (\<exists>st. (eval_step E)\<^sup>*\<^sup>* (script, eval_start stack script) ([], st) \<and> stack' = st_stack st))"
proof -
  have "state_ok (eval_start stack script)" "stack_fits (eval_start stack script)"
    using assms(2,3) unfolding eval_start_def state_ok_def stack_fits_def MAX_OPS_PER_SCRIPT_def by simp_all
  note reach = eval_steps_ok [OF assms(1) _ this, unfolded state_ok_def stack_fits_def MAX_STACK_SIZE_def MAX_OPS_PER_SCRIPT_def]
  show ?thesis
  proof (intro conjI [where Q = "_ \<longrightarrow> _"] impI)
    assume "EvalScript E stack script = Inr stack'"
    then obtain st where "eval_loop E script (eval_start stack script) = Inr st" "stack' = st_stack st"
      unfolding EvalScript_def by (auto split: if_splits sum.splits)
    then show "list_all elem_ok stack' \<and> length stack' \<le> 1000 \<and>
      (\<exists>st. (eval_step E)\<^sup>*\<^sup>* (script, eval_start stack script) ([], st) \<and> stack' = st_stack st)"
      using reach unfolding eval_loop_steps by fastforce
  qed (use reach in auto)
qed

subsection \<open>Running short scripts\<close>

lemma GetScriptOp_plain: "opcode > OP_PUSHDATA4 \<Longrightarrow> GetScriptOp (opcode # pc) = (True, opcode, [], pc)"
  by (simp flip: not_less)

lemma eval_loop_Nil [simp]: "eval_loop E [] st = Inr st"
  by (simp add: eval_loop.simps)

lemma eval_loop_plain:
  assumes "opcode > OP_PUSHDATA4"
  shows "eval_loop E (opcode # pc) st =
     (case eval_instr E opcode [] pc st of Inl e \<Rightarrow> Inl e | Inr st \<Rightarrow> eval_loop E pc st)"
  unfolding eval_loop.simps [of E "opcode # pc" st] GetScriptOp_plain [OF assms] by simp

lemma eval_instr_plain:
  assumes "opcode > OP_16" "list_all id (st_vfExec st)"
    "\<not> (opcode = OP_CODESEPARATOR \<and> has_flag E SCRIPT_VERIFY_CONST_SCRIPTCODE)"
    "\<not> is_dip0020_opcode opcode" "\<not> is_disabled_opcode opcode"
    "st_nOpCount st < MAX_OPS_PER_SCRIPT"
  shows "eval_instr E opcode [] pc st =
    (case eval_op E True opcode pc (st\<lparr>st_nOpCount := st_nOpCount st + 1\<rparr>) of
       Inl e \<Rightarrow> Inl e
     | Inr st \<Rightarrow> if length (st_stack st) + length (st_altstack st) > MAX_STACK_SIZE then Inl SCRIPT_ERR_STACK_SIZE else Inr st)"
proof -
  have "opcode > OP_PUSHDATA4"
    using assms(1) by (rule less_trans [rotated]) simp
  then have "\<not> opcode \<le> OP_PUSHDATA4"
    by simp
  then show ?thesis
    using assms unfolding eval_instr_def check_opcode_def exec_opcode_def Let_def by auto
qed

lemma starts_with_hash160_fails:
  "script ! 0 = OP_HASH160 \<Longrightarrow> script \<noteq> [] \<Longrightarrow> EvalScript E [] script \<noteq> Inr s"
  by (cases script)
    (auto simp: EvalScript_def eval_loop_plain eval_instr_plain eval_start_def is_dip0020_opcode_def
      is_disabled_opcode_def MAX_OPS_PER_SCRIPT_def eval_op_def is_stack_op_def op_hash_def invalid_stack_def)

lemma starts_with_return_fails:
  "script ! 0 = OP_RETURN \<Longrightarrow> script \<noteq> [] \<Longrightarrow> EvalScript E stack script \<noteq> Inr s"
  by (cases script)
    (auto simp: EvalScript_def eval_loop_plain eval_instr_plain eval_start_def is_dip0020_opcode_def
      is_disabled_opcode_def MAX_OPS_PER_SCRIPT_def eval_op_def)

text \<open>
  C26: what \<open>IsUnspendable\<close> reports cannot be spent: no input script verifies against
  such an output under any flags and any signature checker, so the coins database may leave it out.
\<close>

theorem IsUnspendable_never_spent:
  assumes "IsUnspendable spk"
  shows "VerifyScript E sig spk \<noteq> Some (Inr ())"
proof -
  have "EvalScript E stack spk \<noteq> Inr s" for stack s
    using assms starts_with_return_fails [of spk] unfolding IsUnspendable_def by (auto simp: EvalScript_def)
  then show ?thesis
    unfolding VerifyScript_def by (auto split: sum.splits)
qed

theorem IsUnspendable_never_spent_witness:
  "IsUnspendable [OP_RETURN, OP_1] \<and> VerifyScript (demo_env 0) [OP_1] [OP_RETURN, OP_1] \<noteq> Some (Inr ())"
  using IsUnspendable_never_spent [of "[OP_RETURN, OP_1]" "demo_env 0" "[OP_1]"] by (simp add: IsUnspendable_def)

text \<open>
  C29: the two assertions of \<open>VerifyScript\<close> hold whenever the flag for a clean stack
  comes with the one for script hashes: on every pair of scripts the function returns, either success or
  an error. The stack it restores for a script hash is not empty, since hashing on an empty stack failed before.
\<close>

theorem VerifyScript_no_assertion:
  assumes "clean_needs_p2sh E"
  shows "\<exists>r. VerifyScript E sig spk = Some r"
proof -
  have clean: "verify_clean E s \<noteq> None" for s
    using assms unfolding verify_clean_def clean_needs_p2sh_def by auto
  have p2sh: "verify_p2sh E sig s1 \<noteq> None"
    if "EvalScript E s1 spk = Inr s2" "IsPayToScriptHash spk" for s1 s2
  proof -
    have "s1 \<noteq> []"
      using that starts_with_hash160_fails [of spk E s2] unfolding IsPayToScriptHash_def by (cases spk) auto
    then show ?thesis
      using clean unfolding verify_p2sh_def by (auto split: list.splits sum.splits)
  qed
  show ?thesis
    using clean p2sh unfolding VerifyScript_def by (auto split: sum.splits)
qed

theorem VerifyScript_no_assertion_witness:
  "clean_needs_p2sh (demo_env 0x101) \<and> (\<exists>r. VerifyScript (demo_env 0x101) [OP_1] [OP_1] = Some r)"
  using VerifyScript_no_assertion [of "demo_env 0x101" "[OP_1]" "[OP_1]"]
  by (simp add: clean_needs_p2sh_def has_flag_def demo_env_def SCRIPT_VERIFY_P2SH_def)

text \<open>
  The opcodes of DIP 20 are the exception to the rule that flags restrict: setting their flag makes a
  spend verify that does not without it.
\<close>

lemma dip0020_flag_accepts_more:
  "VerifyScript (demo_env 0) [OP_1, OP_1] [OP_CAT] = Some (Inl SCRIPT_ERR_DISABLED_OPCODE) \<and>
   VerifyScript (demo_env 0x8000) [OP_1, OP_1] [OP_CAT] = Some (Inr ())"
  by (intro conjI) code_simp+

text \<open>
  C31: the loop of a multi-signature check, which goes through the keys once and gives up early. With no more signatures than keys, as the caller checks, a pass that ends without an error has succeeded exactly when
  the signatures can be assigned to keys in order, no key used twice, each well encoded with its key under the flags and valid for it. The only errors are those of
  the encodings of a signature and a key.
\<close>

theorem multisig_matches:
  assumes "length sigs \<le> length keys"
  shows "case multisig_loop E scriptCode sigs keys of
      Inr ok \<Rightarrow> ok \<longleftrightarrow> list_emb (\<lambda>s k. check_encodings E s k = None \<and> env_CheckSig E s k scriptCode) sigs keys
    | Inl e \<Rightarrow> \<exists>s\<in>set sigs. \<exists>k\<in>set keys. check_encodings E s k = Some e"
  using assms
proof (induction keys arbitrary: sigs)
  case (Cons k ks)
  show ?case
  proof (cases sigs)
    case s: (Cons s ss)
    let ?P = "\<lambda>s k. check_encodings E s k = None \<and> env_CheckSig E s k scriptCode"
    have len: "\<not> list_emb ?P (s # ss) ks" if "length (s # ss) > length ks"
      using that list_emb_length [of ?P "s # ss" ks] by auto
    show ?thesis
    proof (cases "check_encodings E s k")
      case enc: None
      show ?thesis
      proof (cases "env_CheckSig E s k scriptCode")
        case True
        then show ?thesis
          using Cons.IH [of ss] Cons.prems s enc by (auto split: sum.splits)
      next
        case False
        then show ?thesis
          using Cons.IH [of "s # ss"] Cons.prems s enc len by (auto simp: Let_def split: sum.splits)
      qed
    qed (use s in auto)
  qed simp
qed simp

theorem multisig_matches_witness:
  "multisig_loop (demo_env 0) [] [[1], [2]] [[2, 7], [9], [2, 7, 7]] = Inr True \<and>
   list_emb (\<lambda>s k. check_encodings (demo_env 0) s k = None \<and> env_CheckSig (demo_env 0) s k []) [[1], [2]] [[2, 7], [9], [2, 7, 7]]"
proof -
  have "multisig_loop (demo_env 0) [] [[1], [2]] [[2, 7], [9], [2, 7, 7]] = Inr True"
    by code_simp
  then show ?thesis
    using multisig_matches [of "[[1], [2]]" "[[2, 7], [9], [2, 7, 7]]" "demo_env 0" "[]"] by simp
qed
theorem EvalScript_limits_witness:
  "hash_sizes (demo_env 0) \<and> EvalScript (demo_env 0) [[7]] [OP_DUP, OP_SHA256, OP_SIZE] = Inr [[32], 7 # replicate 31 0, [7]] \<and>
   length [[32], 7 # replicate 31 0, [7]] \<le> 1000"
proof -
  have "hash_sizes (demo_env 0)"
    by (auto simp: hash_sizes_def demo_env_def min_def)
  moreover have "EvalScript (demo_env 0) [[7]] [OP_DUP, OP_SHA256, OP_SIZE] = Inr [[32], 7 # replicate 31 0, [7]]"
    by code_simp
  ultimately show ?thesis
    using EvalScript_limits [of "demo_env 0" "[[7]]" "[OP_DUP, OP_SHA256, OP_SIZE]" _ _ "[[32], 7 # replicate 31 0, [7]]"]
    by (simp add: elem_ok_def MAX_SCRIPT_ELEMENT_SIZE_def MAX_STACK_SIZE_def)
qed

end
