(* ===== verification/Tx_Verify.thy ===== *)
theory Tx_Verify
  imports Coins Interpreter
begin

section \<open>Consensus checks of transactions (consensus/validation.h, tx_check.cpp, tx_verify.cpp)\<close>

text \<open>
  The checks take the validation state and return it with their result, as the code fills the state it is given.
  \<open>None\<close> is a failed assertion or an exception. The debug message of the state, text for the log, is left out.
  The counts of signature operations and the amounts stay far below the limits of their types and are integers.
\<close>

unbundle bit_operations_syntax

subsection \<open>The validation state\<close>

datatype mode_state = MODE_VALID | MODE_INVALID | MODE_ERROR

record CValidationState =
  mode :: mode_state
  nDoS :: int
  strRejectReason :: string
  chRejectCode :: u32
  corruptionPossible :: bool

definition state_init :: CValidationState where
  "state_init = \<lparr>mode = MODE_VALID, nDoS = 0, strRejectReason = [], chRejectCode = 0, corruptionPossible = False\<rparr>"

definition REJECT_INVALID :: u32 where "REJECT_INVALID = 0x10"
definition REJECT_OBSOLETE :: u32 where "REJECT_OBSOLETE = 0x11"
definition REJECT_NONSTANDARD :: u32 where "REJECT_NONSTANDARD = 0x40"
definition REJECT_CHECKPOINT :: u32 where "REJECT_CHECKPOINT = 0x43"

definition DoS :: "int \<Rightarrow> u32 \<Rightarrow> string \<Rightarrow> bool \<Rightarrow> CValidationState \<Rightarrow> CValidationState" where
  "DoS level code reason corruptionIn state =
     (let state = state\<lparr>chRejectCode := code, strRejectReason := reason, corruptionPossible := corruptionIn\<rparr>
      in if mode state = MODE_ERROR then state else state\<lparr>nDoS := nDoS state + level, mode := MODE_INVALID\<rparr>)"

definition Invalid :: "u32 \<Rightarrow> string \<Rightarrow> CValidationState \<Rightarrow> CValidationState" where
  "Invalid code reason state = DoS 0 code reason False state"

definition state_Error :: "string \<Rightarrow> CValidationState \<Rightarrow> CValidationState" where
  "state_Error reason state =
     (if mode state = MODE_VALID then state\<lparr>strRejectReason := reason, mode := MODE_ERROR\<rparr> else state\<lparr>mode := MODE_ERROR\<rparr>)"

definition state_IsValid :: "CValidationState \<Rightarrow> bool" where
  "state_IsValid state \<longleftrightarrow> mode state = MODE_VALID"

definition IsInvalid :: "CValidationState \<Rightarrow> int option" where
  "IsInvalid state = (if mode state = MODE_INVALID then Some (nDoS state) else None)"

definition state_IsError :: "CValidationState \<Rightarrow> bool" where
  "state_IsError state \<longleftrightarrow> mode state = MODE_ERROR"

subsection \<open>Checks without context\<close>

definition MAX_LEGACY_BLOCK_SIZE :: nat where "MAX_LEGACY_BLOCK_SIZE = 1000000"
definition MAX_TX_EXTRA_PAYLOAD :: nat where "MAX_TX_EXTRA_PAYLOAD = 10000"
definition COINBASE_MATURITY :: int where "COINBASE_MATURITY = 100"

text \<open>The loops over outputs and inputs; the result is the reason of the first failure.\<close>

fun check_vout :: "CAmount \<Rightarrow> CTxOut list \<Rightarrow> string option" where
  "check_vout nValueOut [] = None"
| "check_vout nValueOut (txout # txouts) =
     (if nValue txout < 0 then Some ''bad-txns-vout-negative''
      else if nValue txout > MAX_MONEY then Some ''bad-txns-vout-toolarge''
      else let nValueOut = nValueOut + nValue txout
       in if \<not> MoneyRange nValueOut then Some ''bad-txns-txouttotal-toolarge''
          else check_vout nValueOut txouts)"

fun duplicate_inputs :: "COutPoint set \<Rightarrow> CTxIn list \<Rightarrow> bool" where
  "duplicate_inputs vInOutPoints [] = False"
| "duplicate_inputs vInOutPoints (txin # txins) =
     (if prevout txin \<in> vInOutPoints then True else duplicate_inputs (insert (prevout txin) vInOutPoints) txins)"

definition CheckTransaction :: "CTransaction \<Rightarrow> CValidationState \<Rightarrow> bool \<times> CValidationState" where
  "CheckTransaction tx state =
     (let allowEmptyTxInOut = (nType tx = TRANSACTION_QUORUM_COMMITMENT);
          reject = (\<lambda>level reason. (False, DoS level REJECT_INVALID reason False state))
      in if \<not> allowEmptyTxInOut \<and> vin tx = [] then reject 10 ''bad-txns-vin-empty''
         else if \<not> allowEmptyTxInOut \<and> vout tx = [] then reject 10 ''bad-txns-vout-empty''
         else if GetTotalSize tx > MAX_LEGACY_BLOCK_SIZE then reject 100 ''bad-txns-oversize''
         else if length (vExtraPayload tx) > MAX_TX_EXTRA_PAYLOAD then reject 100 ''bad-txns-payload-oversize''
         else case check_vout 0 (vout tx) of
           Some reason \<Rightarrow> reject 100 reason
         | None \<Rightarrow>
             if duplicate_inputs {} (vin tx) then reject 100 ''bad-txns-inputs-duplicate''
             else if tx_IsCoinBase tx then
               (let minCbSize = (if nType tx = TRANSACTION_COINBASE then 1 else 2 :: nat);
                    sz = length (scriptSig (vin tx ! 0))
                in if sz < minCbSize \<or> sz > 100 then reject 100 ''bad-cb-length'' else (True, state))
             else if list_ex (\<lambda>txin. outpoint_IsNull (prevout txin)) (vin tx) then reject 10 ''bad-txns-prevout-null''
             else (True, state))"

subsection \<open>Lock times\<close>

definition IsFinalTx :: "CTransaction \<Rightarrow> int \<Rightarrow> int \<Rightarrow> bool" where
  "IsFinalTx tx nBlockHeight nBlockTime =
     (if nLockTime tx = 0 then True
      else if uint (nLockTime tx) < (if uint (nLockTime tx) < LOCKTIME_THRESHOLD then nBlockHeight else nBlockTime) then True
      else list_all (\<lambda>txin. nSequence txin = SEQUENCE_FINAL) (vin tx))"

definition LOCKTIME_VERIFY_SEQUENCE :: u32 where "LOCKTIME_VERIFY_SEQUENCE = 1"
definition LOCKTIME_MEDIAN_TIME_PAST :: u32 where "LOCKTIME_MEDIAN_TIME_PAST = 2"

text \<open>One round of the loop over the inputs: the new entry of \<open>prevHeights\<close> and the two bounds.\<close>

definition sequence_lock :: "block_store \<Rightarrow> bptr \<Rightarrow> CTxIn \<Rightarrow> int \<Rightarrow> int \<times> int \<Rightarrow> (int \<times> int \<times> int) option" where
  "sequence_lock st block txin nCoinHeight bounds =
     (case bounds of (nMinHeight, nMinTime) \<Rightarrow>
        if nSequence txin AND SEQUENCE_LOCKTIME_DISABLE_FLAG \<noteq> 0 then Some (0, nMinHeight, nMinTime)
        else if nSequence txin AND SEQUENCE_LOCKTIME_TYPE_FLAG \<noteq> 0
        then (case GetAncestor st block (max (nCoinHeight - 1) 0) of
                Some (Some a) \<Rightarrow>
                  map_option (\<lambda>nCoinTime. (nCoinHeight, nMinHeight,
                      max nMinTime (nCoinTime + uint (push_bit SEQUENCE_LOCKTIME_GRANULARITY (nSequence txin AND SEQUENCE_LOCKTIME_MASK)) - 1)))
                    (GetMedianTimePast st a)
              | _ \<Rightarrow> None)
        else Some (nCoinHeight, max nMinHeight (nCoinHeight + uint (nSequence txin AND SEQUENCE_LOCKTIME_MASK) - 1), nMinTime))"

fun sequence_loop :: "block_store \<Rightarrow> bptr \<Rightarrow> CTxIn list \<Rightarrow> int list \<Rightarrow> int \<times> int \<Rightarrow> (int list \<times> int \<times> int) option" where
  "sequence_loop st block (txin # txins) (h # hs) bounds =
     (case sequence_lock st block txin h bounds of
        None \<Rightarrow> None
      | Some (h', bounds) \<Rightarrow> map_option (\<lambda>(hs', r). (h' # hs', r)) (sequence_loop st block txins hs bounds))"
| "sequence_loop st block _ hs bounds = Some (hs, bounds)"

definition CalculateSequenceLocks ::
  "block_store \<Rightarrow> CTransaction \<Rightarrow> u32 \<Rightarrow> int list \<Rightarrow> bptr \<Rightarrow> (int list \<times> int \<times> int) option" where
  "CalculateSequenceLocks st tx fl prevHeights block =
     (if length prevHeights \<noteq> length (vin tx) then None
      else let fEnforceBIP68 = ((word_of_int (tx_nVersion tx) :: u32) \<ge> 2 \<and> fl AND LOCKTIME_VERIFY_SEQUENCE \<noteq> 0)
       in if \<not> fEnforceBIP68 then Some (prevHeights, -1, -1)
          else sequence_loop st block (vin tx) prevHeights (-1, -1))"

definition EvaluateSequenceLocks :: "block_store \<Rightarrow> bptr \<Rightarrow> int \<times> int \<Rightarrow> bool option" where
  "EvaluateSequenceLocks st block lockPair =
     do { b \<leftarrow> st block;
          prev \<leftarrow> pprev b;
          nBlockTime \<leftarrow> GetMedianTimePast st prev;
          Some (\<not> (fst lockPair \<ge> nHeight b \<or> snd lockPair \<ge> nBlockTime)) }"

definition SequenceLocks :: "block_store \<Rightarrow> CTransaction \<Rightarrow> u32 \<Rightarrow> int list \<Rightarrow> bptr \<Rightarrow> (bool \<times> int list) option" where
  "SequenceLocks st tx fl prevHeights block =
     do { (prevHeights, lockPair) \<leftarrow> CalculateSequenceLocks st tx fl prevHeights block;
          r \<leftarrow> EvaluateSequenceLocks st block lockPair;
          Some (r, prevHeights) }"

subsection \<open>Signature operations\<close>

definition GetLegacySigOpCount :: "CTransaction \<Rightarrow> int" where
  "GetLegacySigOpCount tx =
     fold (\<lambda>txout n. n + GetSigOpCount (scriptPubKey txout) False) (vout tx)
       (fold (\<lambda>txin n. n + GetSigOpCount (scriptSig txin) False) (vin tx) 0)"

fun p2sh_sigop_loop :: "CCoinsView \<Rightarrow> int \<Rightarrow> CTxIn list \<Rightarrow> (int \<times> CCoinsView) option" where
  "p2sh_sigop_loop v nSigOps [] = Some (nSigOps, v)"
| "p2sh_sigop_loop v nSigOps (txin # txins) =
     (case AccessCoin v (prevout txin) of (c, v) \<Rightarrow>
        if coin_IsSpent c then None
        else p2sh_sigop_loop v
          (if IsPayToScriptHash (scriptPubKey (out c)) then nSigOps + GetSigOpCountP2SH (scriptPubKey (out c)) (scriptSig txin)
           else nSigOps) txins)"

definition GetP2SHSigOpCount :: "CTransaction \<Rightarrow> CCoinsView \<Rightarrow> (int \<times> CCoinsView) option" where
  "GetP2SHSigOpCount tx inputs = (if tx_IsCoinBase tx then Some (0, inputs) else p2sh_sigop_loop inputs 0 (vin tx))"

definition GetTransactionSigOpCount :: "CTransaction \<Rightarrow> CCoinsView \<Rightarrow> u32 \<Rightarrow> (int \<times> CCoinsView) option" where
  "GetTransactionSigOpCount tx inputs fl =
     (let nSigOps = GetLegacySigOpCount tx
      in if tx_IsCoinBase tx then Some (nSigOps, inputs)
         else if bit fl SCRIPT_VERIFY_P2SH
         then map_option (\<lambda>(n, inputs). (nSigOps + n, inputs)) (GetP2SHSigOpCount tx inputs)
         else Some (nSigOps, inputs))"

subsection \<open>Inputs\<close>

text \<open>The loop of \<open>CheckTxInputs\<close>: the value of the inputs, or the changed state.\<close>

fun check_inputs_loop :: "CCoinsView \<Rightarrow> int \<Rightarrow> CValidationState \<Rightarrow> CAmount \<Rightarrow> CTxIn list \<Rightarrow>
    ((CValidationState + CAmount) \<times> CCoinsView) option" where
  "check_inputs_loop v nSpendHeight state nValueIn [] = Some (Inr nValueIn, v)"
| "check_inputs_loop v nSpendHeight state nValueIn (txin # txins) =
     (case AccessCoin v (prevout txin) of (c, v) \<Rightarrow>
        if coin_IsSpent c then None
        else if fCoinBase c \<and> nSpendHeight - uint (coin_nHeight c) < COINBASE_MATURITY
        then Some (Inl (Invalid REJECT_INVALID ''bad-txns-premature-spend-of-coinbase'' state), v)
        else let nValueIn = nValueIn + nValue (out c)
         in if \<not> MoneyRange (nValue (out c)) \<or> \<not> MoneyRange nValueIn
            then Some (Inl (DoS 100 REJECT_INVALID ''bad-txns-inputvalues-outofrange'' False state), v)
            else check_inputs_loop v nSpendHeight state nValueIn txins)"

text \<open>The result is the fee, or the changed state with the result false.\<close>

definition CheckTxInputs :: "CTransaction \<Rightarrow> CValidationState \<Rightarrow> CCoinsView \<Rightarrow> int \<Rightarrow> ((CValidationState + CAmount) \<times> CCoinsView) option" where
  "CheckTxInputs tx state inputs nSpendHeight =
     (case HaveInputs inputs tx of (have, inputs) \<Rightarrow>
        if \<not> have then Some (Inl (DoS 100 REJECT_INVALID ''bad-txns-inputs-missingorspent'' False state), inputs)
        else case check_inputs_loop inputs nSpendHeight state 0 (vin tx) of
          None \<Rightarrow> None
        | Some (Inl state, inputs) \<Rightarrow> Some (Inl state, inputs)
        | Some (Inr nValueIn, inputs) \<Rightarrow>
            (case GetValueOut tx of
               None \<Rightarrow> None
             | Some value_out \<Rightarrow>
                 if nValueIn < value_out
                 then Some (Inl (DoS 100 REJECT_INVALID ''bad-txns-in-belowout'' False state), inputs)
                 else let txfee_aux = nValueIn - value_out
                  in if \<not> MoneyRange txfee_aux
                     then Some (Inl (DoS 100 REJECT_INVALID ''bad-txns-fee-outofrange'' False state), inputs)
                     else Some (Inr txfee_aux, inputs)))"

subsection \<open>What a transaction that passes the checks satisfies\<close>

definition total_value :: "CTxOut list \<Rightarrow> CAmount" where
  "total_value outs = sum_list (map nValue outs)"

lemma total_value_simps [simp]: "total_value [] = 0" "total_value (o' # os) = nValue o' + total_value os"
  "total_value (os @ os') = total_value os + total_value os'"
  by (simp_all add: total_value_def)

lemma total_value_nonneg: "list_all (\<lambda>o'. 0 \<le> nValue o') os \<Longrightarrow> 0 \<le> total_value os"
  by (induction os) simp_all

lemma check_vout_iff:
  "0 \<le> acc \<Longrightarrow> acc \<le> MAX_MONEY \<Longrightarrow>
   check_vout acc os = None \<longleftrightarrow> list_all (\<lambda>o'. 0 \<le> nValue o') os \<and> acc + total_value os \<le> MAX_MONEY"
proof (induction acc os rule: check_vout.induct)
  case (2 acc o' os)
  then show ?case
    using total_value_nonneg [of os] by (auto simp: MoneyRange_def Let_def)
qed simp

lemma GetValueOut_loop_total:
  "0 \<le> acc \<Longrightarrow> acc + total_value os \<le> MAX_MONEY \<Longrightarrow> list_all (\<lambda>o'. 0 \<le> nValue o') os \<Longrightarrow>
   GetValueOut_loop acc os = Some (acc + total_value os)"
proof (induction acc os rule: GetValueOut_loop.induct)
  case (2 acc o' os)
  then show ?case
    using total_value_nonneg [of os] by (auto simp: MoneyRange_def)
qed (simp add: MoneyRange_def)

lemma GetValueOut_loop_Some:
  "GetValueOut_loop acc os = Some x \<Longrightarrow> x = acc + total_value os \<and> list_all (\<lambda>o'. 0 \<le> nValue o') os \<and> MoneyRange x"
  by (induction acc os rule: GetValueOut_loop.induct) (auto simp: MoneyRange_def split: if_splits)

lemma duplicate_inputs_iff:
  "\<not> duplicate_inputs seen ins \<longleftrightarrow> distinct (map prevout ins) \<and> seen \<inter> set (map prevout ins) = {}"
  by (induction seen ins rule: duplicate_inputs.induct) auto

definition tx_ok :: "CTransaction \<Rightarrow> bool" where
  "tx_ok tx \<longleftrightarrow>
     (nType tx \<noteq> TRANSACTION_QUORUM_COMMITMENT \<longrightarrow> vin tx \<noteq> [] \<and> vout tx \<noteq> []) \<and>
     GetTotalSize tx \<le> 1000000 \<and> length (vExtraPayload tx) \<le> 10000 \<and>
     list_all (\<lambda>o'. 0 \<le> nValue o') (vout tx) \<and> total_value (vout tx) \<le> MAX_MONEY \<and>
     distinct (map prevout (vin tx)) \<and>
     (case vin tx of
        [i] \<Rightarrow> outpoint_IsNull (prevout i) \<longrightarrow>
          length (scriptSig i) \<in> {(if nType tx = TRANSACTION_COINBASE then 1 else 2)..100}
      | ins \<Rightarrow> \<forall>i\<in>set ins. \<not> outpoint_IsNull (prevout i))"

lemma coinbase_cases:
  "tx_IsCoinBase tx \<longleftrightarrow> (\<exists>i. vin tx = [i] \<and> outpoint_IsNull (prevout i))"
  by (cases "vin tx" rule: remdups_adj.cases) (auto simp: tx_IsCoinBase_def)

lemma DoS_mode: "mode state \<noteq> MODE_ERROR \<Longrightarrow> mode (DoS level code reason c state) = MODE_INVALID"
    "mode state \<noteq> MODE_ERROR \<Longrightarrow> nDoS (DoS level code reason c state) = nDoS state + level"
    "mode state = MODE_ERROR \<Longrightarrow> mode (DoS level code reason c state) = MODE_ERROR"
  by (simp_all add: DoS_def Let_def)

lemma CheckTransaction_iff: "fst (CheckTransaction tx state) \<longleftrightarrow> tx_ok tx"
proof -
  have money: "check_vout 0 (vout tx) = None \<longleftrightarrow> list_all (\<lambda>o'. 0 \<le> nValue o') (vout tx) \<and> total_value (vout tx) \<le> MAX_MONEY"
    by (simp add: check_vout_iff MAX_MONEY_def COIN_def)
  have dup: "duplicate_inputs {} (vin tx) \<longleftrightarrow> \<not> distinct (map prevout (vin tx))"
    using duplicate_inputs_iff [of "{}" "vin tx"] by auto
  have cb: "(case vin tx of
        [i] \<Rightarrow> outpoint_IsNull (prevout i) \<longrightarrow>
          length (scriptSig i) \<in> {(if nType tx = TRANSACTION_COINBASE then 1 else 2)..100}
      | ins \<Rightarrow> \<forall>i\<in>set ins. \<not> outpoint_IsNull (prevout i)) \<longleftrightarrow>
     (if tx_IsCoinBase tx
      then (if nType tx = TRANSACTION_COINBASE then 1 else 2) \<le> length (scriptSig (vin tx ! 0)) \<and> length (scriptSig (vin tx ! 0)) \<le> 100
      else \<not> list_ex (\<lambda>txin. outpoint_IsNull (prevout txin)) (vin tx))"
    by (cases "vin tx" rule: remdups_adj.cases) (auto simp: tx_IsCoinBase_def list_ex_iff)
  show ?thesis
    unfolding CheckTransaction_def tx_ok_def cb money [symmetric] conj_assoc [symmetric] Let_def dup
    by (auto simp: MAX_LEGACY_BLOCK_SIZE_def MAX_TX_EXTRA_PAYLOAD_def Suc_le_eq split: option.split)
qed

lemma CheckTransaction_state:
  "CheckTransaction tx state = (True, state) \<or>
   (\<exists>level reason. level \<in> {10, 100} \<and> CheckTransaction tx state = (False, DoS level REJECT_INVALID reason False state))"
proof -
  define ok where "ok r \<longleftrightarrow> r = (True, state) \<or> (\<exists>level reason. level \<in> {10, 100} \<and> r = (False, DoS level REJECT_INVALID reason False state))" for r
  have "ok (True, state)" "ok (False, DoS 10 REJECT_INVALID reason False state)" "ok (False, DoS 100 REJECT_INVALID reason False state)" for reason
    by (auto simp: ok_def)
  then have "ok (CheckTransaction tx state)"
    unfolding CheckTransaction_def Let_def by (simp split: option.split)
  then show ?thesis
    by (simp add: ok_def)
qed

subsection \<open>Views that the checks read\<close>

text \<open>A cache in order; \<open>same_coins\<close> says that a call changed nothing but what the caches hold.\<close>

definition coins_ok :: "CCoinsView \<Rightarrow> bool" where
  "coins_ok v \<longleftrightarrow> view_inv v \<and> (\<exists>h m b. v = CacheView h m b)"

definition same_coins :: "CCoinsView \<Rightarrow> CCoinsView \<Rightarrow> bool" where
  "same_coins v v' \<longleftrightarrow> coins_ok v' \<and> utxo v' = utxo v \<and> hashBlock v' = hashBlock v"

lemma same_coins_trans: "same_coins v v' \<Longrightarrow> same_coins v' v'' \<Longrightarrow> same_coins v v''"
  by (simp add: same_coins_def)

lemma same_coins_refl: "coins_ok v \<Longrightarrow> same_coins v v"
  by (simp add: same_coins_def)

lemma same_coinsD: "same_coins v v' \<Longrightarrow> coins_ok v'" "same_coins v v' \<Longrightarrow> utxo v' = utxo v"
  by (simp_all add: same_coins_def)

lemma access_ok:
  assumes "coins_ok v"
  obtains c v' where "AccessCoin v p = (c, v')" "same_coins v v'" "utxo v p = (if coin_IsSpent c then None else Some c)"
proof -
  obtain h m b where v: "v = CacheView h m b" "view_inv (CacheView h m b)"
    using assms by (auto simp: coins_ok_def)
  from AccessCoin_utxo [OF v(2), of p] show thesis
    using that by (auto simp: v(1) same_coins_def coins_ok_def simp del: utxo.simps view_inv.simps)
qed

lemma HaveCoin_CacheView:
  assumes "coins_ok v"
  obtains v' where "HaveCoin v p = (utxo v p \<noteq> None, v')" "same_coins v v'"
proof -
  obtain h m b where v: "v = CacheView h m b" "view_inv (CacheView h m b)"
    using assms by (auto simp: coins_ok_def)
  obtain m' b' where f: "FetchCoin (CacheView h m b) p = (m' p, CacheView h m' b')"
      "view_inv (CacheView h m' b')" "utxo (CacheView h m' b') = utxo (CacheView h m b)" "m' p = None \<longrightarrow> utxo b' p = None"
    by (rule FetchCoin_spec [OF v(2), where p = p])
  have "snd (HaveCoin v p) = CacheView h m' b'"
    using f(1) by (simp add: HaveCoin_def v(1))
  moreover have "fst (HaveCoin v p) = (utxo v p \<noteq> None)"
    using HaveCoin_utxo [of v p] v by auto
  ultimately show thesis
    using that [of "CacheView h m' b'"] f(2,3)
    by (cases "HaveCoin v p") (auto simp: v(1) same_coins_def coins_ok_def simp del: utxo.simps view_inv.simps)
qed

lemma have_inputs_ok:
  "coins_ok v \<Longrightarrow> \<exists>v'. have_inputs_loop v ins = (list_all (\<lambda>i. utxo v (prevout i) \<noteq> None) ins, v') \<and> same_coins v v'"
proof (induction ins arbitrary: v)
  case (Cons i ins)
  obtain v' where v': "HaveCoin v (prevout i) = (utxo v (prevout i) \<noteq> None, v')" "same_coins v v'"
    by (rule HaveCoin_CacheView [OF Cons.prems])
  show ?case
    using Cons.IH [OF same_coinsD(1) [OF v'(2)]] v' same_coins_trans [OF v'(2)] same_coinsD(2) [OF v'(2)]
    by (auto split: prod.split)
qed (simp add: same_coins_refl)

lemma HaveInputs_ok:
  assumes "coins_ok v"
  obtains v' where "HaveInputs v tx = (tx_IsCoinBase tx \<or> list_all (\<lambda>i. utxo v (prevout i) \<noteq> None) (vin tx), v')" "same_coins v v'"
  using have_inputs_ok [OF assms, of "vin tx"] same_coins_refl [OF assms] that by (cases "tx_IsCoinBase tx") (auto simp: HaveInputs_def)

subsection \<open>What a transaction with valid inputs satisfies\<close>

definition coins_total :: "Coin list \<Rightarrow> CAmount" where
  "coins_total cs = sum_list (map (\<lambda>c. nValue (out c)) cs)"

lemma coins_total_simps [simp]: "coins_total [] = 0" "coins_total (c # cs) = nValue (out c) + coins_total cs"
  by (simp_all add: coins_total_def)

definition spends :: "(COutPoint \<Rightarrow> Coin option) \<Rightarrow> CTxIn list \<Rightarrow> Coin list \<Rightarrow> bool" where
  "spends u ins cs \<longleftrightarrow> list_all2 (\<lambda>i c. u (prevout i) = Some c) ins cs"

definition coin_spendable :: "int \<Rightarrow> Coin \<Rightarrow> bool" where
  "coin_spendable nSpendHeight c \<longleftrightarrow> 0 \<le> nValue (out c) \<and> (fCoinBase c \<longrightarrow> uint (coin_nHeight c) + 100 \<le> nSpendHeight)"

lemma coins_total_nonneg: "list_all (coin_spendable n) cs \<Longrightarrow> 0 \<le> coins_total cs"
  by (induction cs) (simp_all add: coin_spendable_def)

lemma check_inputs_spec:
  assumes "coins_ok v" "spends (utxo v) ins cs" "0 \<le> acc" "acc \<le> MAX_MONEY" "mode state \<noteq> MODE_ERROR"
  shows "\<exists>r v'. check_inputs_loop v nSpendHeight state acc ins = Some (r, v') \<and> same_coins v v' \<and>
    (if list_all (coin_spendable nSpendHeight) cs \<and> acc + coins_total cs \<le> MAX_MONEY then r = Inr (acc + coins_total cs)
     else \<exists>st. r = Inl st \<and> mode st = MODE_INVALID)"
  using assms
proof (induction ins arbitrary: v acc cs)
  case Nil
  then show ?case
    by (auto simp: spends_def same_coins_refl)
next
  case (Cons i ins)
  obtain c ds where cs: "cs = c # ds" "utxo v (prevout i) = Some c" "spends (utxo v) ins ds"
    using Cons.prems(2) by (auto simp: spends_def list_all2_Cons1)
  obtain c' v' where a: "AccessCoin v (prevout i) = (c', v')" "same_coins v v'" "utxo v (prevout i) = (if coin_IsSpent c' then None else Some c')"
    by (rule access_ok [OF Cons.prems(1)])
  then have c': "c' = c" "\<not> coin_IsSpent c"
    using cs(2) by (auto split: if_splits)
  let ?bad = "fCoinBase c \<and> nSpendHeight - uint (coin_nHeight c) < 100"
  let ?range = "MoneyRange (nValue (out c)) \<and> MoneyRange (acc + nValue (out c))"
  have inv: "\<not> (list_all (coin_spendable nSpendHeight) cs \<and> acc + coins_total cs \<le> MAX_MONEY)" if "?bad \<or> \<not> ?range"
    using that Cons.prems(3,4) coins_total_nonneg [of nSpendHeight ds] by (auto simp: cs(1) coin_spendable_def MoneyRange_def)
  show ?case
  proof (cases "?bad \<or> \<not> ?range")
    case True
    then show ?thesis
      using a(1,2) c' inv [OF True] DoS_mode(1) [OF Cons.prems(5)] by (auto simp: COINBASE_MATURITY_def Invalid_def Let_def)
  next
    case False
    have "list_all (coin_spendable nSpendHeight) cs \<longleftrightarrow> list_all (coin_spendable nSpendHeight) ds"
      using False by (auto simp: cs(1) coin_spendable_def MoneyRange_def)
    moreover have "check_inputs_loop v nSpendHeight state acc (i # ins) = check_inputs_loop v' nSpendHeight state (acc + nValue (out c)) ins"
      using a(1) c' False by (auto simp: COINBASE_MATURITY_def Let_def)
    moreover have "0 \<le> acc + nValue (out c)" "acc + nValue (out c) \<le> MAX_MONEY"
      using False by (auto simp: MoneyRange_def)
    from Cons.IH [OF same_coinsD(1) [OF a(2)] _ this Cons.prems(5), of ds]
    have "\<exists>r v''. check_inputs_loop v' nSpendHeight state (acc + nValue (out c)) ins = Some (r, v'') \<and> same_coins v' v'' \<and>
      (if list_all (coin_spendable nSpendHeight) ds \<and> acc + nValue (out c) + coins_total ds \<le> MAX_MONEY
       then r = Inr (acc + nValue (out c) + coins_total ds) else \<exists>st. r = Inl st \<and> mode st = MODE_INVALID)"
      using cs(3) same_coinsD(2) [OF a(2)] by simp
    ultimately show ?thesis
      using same_coins_trans [OF a(2)] by (auto simp: cs(1) add.assoc)
  qed
qed

lemma spends_ex: "list_all (\<lambda>i. u (prevout i) \<noteq> None) ins \<longleftrightarrow> (\<exists>cs. spends u ins cs)"
  by (induction ins) (auto simp: spends_def list_all2_Cons1)

lemma spends_unique: "spends u ins cs \<Longrightarrow> spends u ins ds \<Longrightarrow> cs = ds"
  by (induction ins arbitrary: cs ds) (auto simp: spends_def list_all2_Cons1)

lemma CheckTxInputs_spec:
  assumes "coins_ok v" "\<not> tx_IsCoinBase tx" "GetValueOut tx \<noteq> None" "mode state \<noteq> MODE_ERROR"
  shows "\<exists>r v'. CheckTxInputs tx state v nSpendHeight = Some (r, v') \<and> same_coins v v' \<and>
    (case r of
       Inr fee \<Rightarrow> \<exists>cs. spends (utxo v) (vin tx) cs \<and> list_all (coin_spendable nSpendHeight) cs \<and> coins_total cs \<le> MAX_MONEY \<and>
         coins_total cs = total_value (vout tx) + fee \<and> 0 \<le> fee
     | Inl state' \<Rightarrow> mode state' = MODE_INVALID \<and>
         \<not> (\<exists>cs. spends (utxo v) (vin tx) cs \<and> list_all (coin_spendable nSpendHeight) cs \<and> coins_total cs \<le> MAX_MONEY \<and>
              total_value (vout tx) \<le> coins_total cs))"
proof -
  obtain v1 where "HaveInputs v tx = (tx_IsCoinBase tx \<or> list_all (\<lambda>i. utxo v (prevout i) \<noteq> None) (vin tx), v1)" "same_coins v v1"
    by (rule HaveInputs_ok [OF assms(1)])
  with assms(2) have v1: "HaveInputs v tx = (list_all (\<lambda>i. utxo v (prevout i) \<noteq> None) (vin tx), v1)" "same_coins v v1"
    by simp_all
  obtain value_out where g: "GetValueOut tx = Some value_out"
    using assms(3) by auto
  then have vo: "GetValueOut tx = Some value_out" "value_out = total_value (vout tx)" "0 \<le> value_out" "value_out \<le> MAX_MONEY"
    using GetValueOut_loop_Some [OF g [unfolded GetValueOut_def]] by (simp_all add: MoneyRange_def)
  show ?thesis
  proof (cases "list_all (\<lambda>i. utxo v (prevout i) \<noteq> None) (vin tx)")
    case False
    then have "\<nexists>cs. spends (utxo v) (vin tx) cs"
      unfolding spends_ex .
    then show ?thesis
      using v1 DoS_mode(1) [OF assms(4)] False by (auto simp: CheckTxInputs_def)
  next
    case True
    then obtain cs where cs: "spends (utxo v) (vin tx) cs"
      unfolding spends_ex by blast
    have all: "(\<exists>cs. spends (utxo v) (vin tx) cs \<and> P cs) \<longleftrightarrow> P cs" for P
      using spends_unique [OF cs] cs by blast
    have "0 \<le> (0 :: int)" "0 \<le> MAX_MONEY"
      by (simp_all add: MAX_MONEY_def COIN_def)
    from check_inputs_spec [OF same_coinsD(1) [OF v1(2)] _ this assms(4), of "vin tx" cs nSpendHeight] obtain r v2
      where r: "check_inputs_loop v1 nSpendHeight state 0 (vin tx) = Some (r, v2)" "same_coins v1 v2"
        "if list_all (coin_spendable nSpendHeight) cs \<and> coins_total cs \<le> MAX_MONEY then r = Inr (coins_total cs)
         else \<exists>st. r = Inl st \<and> mode st = MODE_INVALID"
      using cs same_coinsD(2) [OF v1(2)] by auto
    have same: "same_coins v v2"
      by (rule same_coins_trans [OF v1(2) r(2)])
    show ?thesis
    proof (cases "list_all (coin_spendable nSpendHeight) cs \<and> coins_total cs \<le> MAX_MONEY")
      case bad: False
      then show ?thesis
        using r same True v1(1) unfolding all by (auto simp: CheckTxInputs_def)
    next
      case ok: True
      then have "CheckTxInputs tx state v nSpendHeight =
          (if coins_total cs < value_out then Some (Inl (DoS 100 REJECT_INVALID ''bad-txns-in-belowout'' False state), v2)
           else Some (Inr (coins_total cs - value_out), v2))"
        using r True v1(1) vo by (auto simp: CheckTxInputs_def Let_def MoneyRange_def)
      then show ?thesis
        using ok same vo(2) DoS_mode(1) [OF assms(4)] unfolding all by (auto split: sum.split)
    qed
  qed
qed

subsection \<open>Relative lock times\<close>

lemma median_defined:
  assumes "wf_store st" "st p = Some b"
  shows "GetMedianTimePast st p \<noteq> None"
  using past_times_value [OF assms] by (auto simp: GetMedianTimePast_def)

text \<open>What BIP 68 asks of an input of a transaction in a block, given the height of the block of its coin.\<close>

definition relative_lock_met :: "block_store \<Rightarrow> bptr \<Rightarrow> CTxIn \<Rightarrow> int \<Rightarrow> bool" where
  "relative_lock_met st block txin h \<longleftrightarrow>
     (let units = uint (nSequence txin) mod 2 ^ 16
      in if bit (nSequence txin) 31 then True
         else if bit (nSequence txin) 22
         then (\<exists>b q a start now. st block = Some b \<and> pprev b = Some q \<and> prev_n st (nat (nHeight b - max (h - 1) 0)) block = Some a \<and>
                 GetMedianTimePast st a = Some start \<and> GetMedianTimePast st q = Some now \<and> start + 512 * units \<le> now)
         else (\<exists>b. st block = Some b \<and> h + units \<le> nHeight b))"

lemma median_nonneg:
  assumes "GetMedianTimePast st p = Some t"
  shows "0 \<le> t"
proof -
  have times: "past_times st n p = Some ts \<Longrightarrow> (\<forall>t\<in>set ts. 0 \<le> t) \<and> (0 < n \<and> p \<noteq> None \<longrightarrow> ts \<noteq> [])" for n p ts
    by (induction st n p arbitrary: ts rule: past_times.induct) (auto simp: GetBlockTime_def split: option.splits)
  obtain ts where ts: "past_times st nMedianTimeSpan (Some p) = Some ts" "t = sort ts ! (length ts div 2)"
    using assms by (auto simp: GetMedianTimePast_def)
  then have "ts \<noteq> []" "\<forall>t\<in>set ts. 0 \<le> t"
    using times [OF ts(1)] by (auto simp: nMedianTimeSpan_def)
  moreover have "length ts div 2 < length (sort ts)"
    using \<open>ts \<noteq> []\<close> by simp
  then have "t \<in> set (sort ts)"
    unfolding ts(2) by (rule nth_mem)
  ultimately show ?thesis
    by simp
qed

lemma sequence_bits:
  "x AND SEQUENCE_LOCKTIME_DISABLE_FLAG \<noteq> 0 \<longleftrightarrow> bit x 31" "x AND SEQUENCE_LOCKTIME_TYPE_FLAG \<noteq> 0 \<longleftrightarrow> bit x 22"
  "uint (x AND SEQUENCE_LOCKTIME_MASK) = uint x mod 2 ^ 16"
  "uint (push_bit SEQUENCE_LOCKTIME_GRANULARITY (x AND SEQUENCE_LOCKTIME_MASK)) = 512 * (uint x mod 2 ^ 16)" for x :: u32
proof -
  show "x AND SEQUENCE_LOCKTIME_DISABLE_FLAG \<noteq> 0 \<longleftrightarrow> bit x 31" "x AND SEQUENCE_LOCKTIME_TYPE_FLAG \<noteq> 0 \<longleftrightarrow> bit x 22"
    using bit_iff_and_push_bit_not_eq_0 [of x 31] bit_iff_and_push_bit_not_eq_0 [of x 22]
    by (simp_all add: SEQUENCE_LOCKTIME_DISABLE_FLAG_def SEQUENCE_LOCKTIME_TYPE_FLAG_def)
  have m: "x AND SEQUENCE_LOCKTIME_MASK = take_bit 16 x"
    by (simp add: SEQUENCE_LOCKTIME_MASK_def take_bit_eq_mask mask_eq_exp_minus_1)
  show k: "uint (x AND SEQUENCE_LOCKTIME_MASK) = uint x mod 2 ^ 16"
    unfolding m unsigned_take_bit_eq by (rule take_bit_eq_mod)
  have "uint x mod 2 ^ 16 < 2 ^ 16" "0 \<le> uint x mod 2 ^ 16"
    by (simp_all only: pos_mod_bound pos_mod_sign zero_less_power zero_less_numeral)
  then show "uint (push_bit SEQUENCE_LOCKTIME_GRANULARITY (x AND SEQUENCE_LOCKTIME_MASK)) = 512 * (uint x mod 2 ^ 16)"
    unfolding unsigned_push_bit_eq k SEQUENCE_LOCKTIME_GRANULARITY_def by (simp add: push_bit_eq_mult take_bit_eq_mod)
qed

lemma sequence_lock_spec:
  assumes "wf_store st" "st block = Some b" "pprev b = Some q" "GetMedianTimePast st q = Some now" "h \<le> nHeight b"
  shows "\<exists>h' mh' mt'. sequence_lock st block txin h (mh, mt) = Some (h', mh', mt') \<and>
    (mh' < nHeight b \<and> mt' < now \<longleftrightarrow> mh < nHeight b \<and> mt < now \<and> relative_lock_met st block txin h)"
proof -
  have le: "max (h - 1) 0 \<le> nHeight b" "0 \<le> nHeight b"
    using assms(5) wf_storeD(3) [OF assms(1,2)] by auto
  obtain a where a: "prev_n st (nat (nHeight b - max (h - 1) 0)) block = Some a"
    using prev_n_defined [OF assms(1,2), of "nat (nHeight b - max (h - 1) 0)"] le by auto
  then obtain ab where ab: "st a = Some ab"
    using prev_n_height [OF assms(1,2) a] by auto
  obtain start where start: "GetMedianTimePast st a = Some start"
    using median_defined [OF assms(1) ab] by auto
  have anc: "GetAncestor st block (max (h - 1) 0) = Some (Some a)"
    using GetAncestor_value [OF assms(1,2), of "max (h - 1) 0"] le a by auto
  show ?thesis
    unfolding sequence_lock_def relative_lock_met_def sequence_bits anc
    using assms(2-4) a start by (auto simp: Let_def)
qed

lemma sequence_loop_spec:
  assumes "wf_store st" "st block = Some b" "pprev b = Some q" "GetMedianTimePast st q = Some now"
    and "list_all (\<lambda>h. h \<le> nHeight b) hs" "length txins = length hs"
  shows "\<exists>hs' mh' mt'. sequence_loop st block txins hs (mh, mt) = Some (hs', mh', mt') \<and>
    (mh' < nHeight b \<and> mt' < now \<longleftrightarrow> mh < nHeight b \<and> mt < now \<and> list_all2 (relative_lock_met st block) txins hs)"
  using assms(5,6)
proof (induction txins arbitrary: hs mh mt)
  case (Cons i ins)
  obtain h hs0 where hs: "hs = h # hs0" "h \<le> nHeight b" "list_all (\<lambda>h. h \<le> nHeight b) hs0" "length ins = length hs0"
    using Cons.prems by (cases hs) auto
  obtain h' mh' mt' where l: "sequence_lock st block i h (mh, mt) = Some (h', mh', mt')"
      "mh' < nHeight b \<and> mt' < now \<longleftrightarrow> mh < nHeight b \<and> mt < now \<and> relative_lock_met st block i h"
    using sequence_lock_spec [OF assms(1-4) hs(2)] by blast
  from Cons.IH [OF hs(3,4), of mh' mt'] show ?case
    using l by (auto simp: hs(1))
qed simp

lemma SequenceLocks_value:
  assumes "wf_store st" "st block = Some b" "pprev b \<noteq> None"
    and "length hs = length (vin tx)" "list_all (\<lambda>h. h \<le> nHeight b) hs"
  shows "\<exists>hs'. SequenceLocks st tx fl hs block =
    Some ((word_of_int (tx_nVersion tx) :: u32) \<ge> 2 \<and> bit fl 0 \<longrightarrow> list_all2 (relative_lock_met st block) (vin tx) hs, hs')"
proof -
  obtain q where q: "pprev b = Some q"
    using assms(3) by auto
  obtain c where "st q = Some c"
    by (rule wf_prevD [OF assms(1,2) q])
  then obtain now where now: "GetMedianTimePast st q = Some now"
    using median_defined [OF assms(1)] by auto
  have "-1 < now" "-1 < nHeight b"
    using median_nonneg [OF now] wf_storeD(3) [OF assms(1,2)] by simp_all
  then show ?thesis
    using sequence_loop_spec [OF assms(1,2) q now assms(5), of "vin tx" "-1" "-1"] assms(2,4) q now
      bit_iff_and_push_bit_not_eq_0 [of fl 0]
    by (auto simp: SequenceLocks_def CalculateSequenceLocks_def EvaluateSequenceLocks_def LOCKTIME_VERIFY_SEQUENCE_def not_le split: if_splits)
qed

text \<open>
  C27: the accumulated bounds decide exactly the rule of BIP 68. For a block of a well-formed block tree and coins that are not
  above it, the check returns and accepts if and only if relative lock times are not enforced or every input meets its own:
  enough blocks since the block of its coin, or enough units of 512 seconds between the median time before its coin and
  the one before this block.
\<close>

theorem SequenceLocks_bip68:
  assumes "wf_store st" "st block = Some b" "pprev b \<noteq> None"
    and "length hs = length (vin tx)" "list_all (\<lambda>h. h \<le> nHeight b) hs"
  shows "\<exists>hs'. SequenceLocks st tx fl hs block =
    Some ((word_of_int (tx_nVersion tx) :: u32) \<ge> 2 \<and> bit fl 0 \<longrightarrow> list_all2 (relative_lock_met st block) (vin tx) hs, hs')"
  by (rule SequenceLocks_value [OF assms])

definition lock_tx :: CTransaction where
  "lock_tx = tx_empty\<lparr>tx_nVersion := 2, vin := [\<lparr>prevout = demo_outpoint, scriptSig = [], nSequence = 2\<rparr>],
     vout := [\<lparr>nValue = 40, scriptPubKey = [0x51]\<rparr>]\<rparr>"

theorem SequenceLocks_bip68_witness: "\<exists>hs'. SequenceLocks demo_store lock_tx 1 [1] 3 = Some (True, hs')"
proof -
  have b: "demo_store 3 = Some (demo_block (Some 2) (Some 1) 3 40)"
    by (simp add: demo_store_def)
  have bits: "\<not> bit (2 :: u32) 31" "\<not> bit (2 :: u32) 22" "bit (1 :: u32) 0"
    by simp_all
  have "list_all2 (relative_lock_met demo_store 3) (vin lock_tx) [1]"
    unfolding lock_tx_def relative_lock_met_def using b bits by simp
  then show ?thesis
    using SequenceLocks_bip68 [OF demo_wf b, of "[1]" lock_tx 1] by (simp add: lock_tx_def)
qed

text \<open>
  C30: the checks accept exactly the transactions with inputs and outputs (quorum commitments may have none), within the size limits,
  whose outputs are not negative and sum to at most all the money, that spend no outpoint twice, and whose coinbase script has its size or
  whose inputs all name an output. Then the state is untouched and the sum of the outputs is defined; else the state becomes invalid, with ten or
  a hundred points, unless it had an error already.
\<close>

theorem CheckTransaction_correct:
  "(fst (CheckTransaction tx state) \<longleftrightarrow> tx_ok tx) \<and>
   (tx_ok tx \<longrightarrow> snd (CheckTransaction tx state) = state \<and> GetValueOut tx = Some (total_value (vout tx))) \<and>
   (\<not> tx_ok tx \<and> mode state \<noteq> MODE_ERROR \<longrightarrow>
      mode (snd (CheckTransaction tx state)) = MODE_INVALID \<and> nDoS (snd (CheckTransaction tx state)) - nDoS state \<in> {10, 100})"
proof -
  have "GetValueOut tx = Some (total_value (vout tx))" if "tx_ok tx"
    using that GetValueOut_loop_total [of 0 "vout tx"] by (simp add: tx_ok_def GetValueOut_def)
  then show ?thesis
    using CheckTransaction_iff [of tx state] CheckTransaction_state [of tx state] DoS_mode(1,2) [of state] by fastforce
qed

lemmas wire_sizes = ser_vector_def ser_txin_def ser_txout_def ser_outpoint_def ser_uint256_def ser_bytes_def WriteCompactSize_def
  ser_writedata8_def ser_writedata16_def ser_writedata32_def ser_writedata64_def

theorem CheckTransaction_correct_witness:
  "tx_ok lock_tx \<and> CheckTransaction lock_tx state_init = (True, state_init) \<and> GetValueOut lock_tx = Some 40 \<and>
   mode (snd (CheckTransaction (lock_tx\<lparr>vin := vin lock_tx @ vin lock_tx\<rparr>) state_init)) = MODE_INVALID"
proof -
  have ok: "tx_ok lock_tx"
    by (simp add: tx_ok_def lock_tx_def tx_empty_def demo_outpoint_def outpoint_IsNull_def GetTotalSize_def tx_Serialize_def wire_sizes MAX_MONEY_def COIN_def
        uint256_IsNull_def)
  have "\<not> tx_ok (lock_tx\<lparr>vin := vin lock_tx @ vin lock_tx\<rparr>)"
    by (simp add: tx_ok_def lock_tx_def)
  then show ?thesis
    using CheckTransaction_correct [of lock_tx state_init] CheckTransaction_correct [of "lock_tx\<lparr>vin := vin lock_tx @ vin lock_tx\<rparr>" state_init] ok
    by (cases "CheckTransaction lock_tx state_init") (auto simp: state_init_def lock_tx_def)
qed

text \<open>
  C3: no transaction creates money. For a transaction whose outputs have a sum, the check returns and does not change the set of unspent outputs. It accepts
  exactly when every input spends an unspent output, coinbases among them with a hundred blocks on top, no value is negative, the values sum to at most all the money
  and to at least the outputs; the fee is what is left over and is not negative. In every other case the state becomes invalid.
\<close>

theorem CheckTxInputs_correct:
  assumes "coins_ok v" "\<not> tx_IsCoinBase tx" "GetValueOut tx \<noteq> None" "mode state \<noteq> MODE_ERROR"
  shows "\<exists>r v'. CheckTxInputs tx state v nSpendHeight = Some (r, v') \<and> coins_ok v' \<and> utxo v' = utxo v \<and>
    (case r of
       Inr fee \<Rightarrow> \<exists>cs. spends (utxo v) (vin tx) cs \<and> list_all (coin_spendable nSpendHeight) cs \<and> coins_total cs \<le> MAX_MONEY \<and>
         coins_total cs = total_value (vout tx) + fee \<and> 0 \<le> fee
     | Inl state' \<Rightarrow> mode state' = MODE_INVALID \<and>
         \<not> (\<exists>cs. spends (utxo v) (vin tx) cs \<and> list_all (coin_spendable nSpendHeight) cs \<and> coins_total cs \<le> MAX_MONEY \<and>
              total_value (vout tx) \<le> coins_total cs))"
  using CheckTxInputs_spec [OF assms, of nSpendHeight] unfolding same_coins_def by blast

theorem CheckTxInputs_correct_witness:
  "\<exists>v'. CheckTxInputs lock_tx state_init (CacheView uint256_null Map.empty (DBView demo_db)) 7 = Some (Inr 660, v')"
proof -
  let ?v = "CacheView uint256_null Map.empty (DBView demo_db)"
  have u: "utxo ?v demo_outpoint = Some demo_coin"
    by (simp add: demo_db_def)
  have "view_inv (DBView demo_db)"
    using demo_view_inv by (simp add: demo_view_def)
  then have ok: "coins_ok ?v"
    by (simp add: coins_ok_def)
  have vo: "GetValueOut lock_tx = Some 40" "\<not> tx_IsCoinBase lock_tx" "mode state_init \<noteq> MODE_ERROR"
    by (simp_all add: GetValueOut_def lock_tx_def MoneyRange_def MAX_MONEY_def COIN_def coinbase_cases demo_outpoint_def
        outpoint_IsNull_def NULL_INDEX_def state_init_def)
  have s: "spends (utxo ?v) (vin lock_tx) cs \<longleftrightarrow> cs = [demo_coin]" for cs
    using u by (auto simp: spends_def lock_tx_def list_all2_Cons1 simp del: utxo.simps)
  have c: "coin_spendable 7 demo_coin" "nValue (out demo_coin) = 700" "700 \<le> MAX_MONEY"
    by (simp_all add: coin_spendable_def demo_coin_def mk_Coin_def MAX_MONEY_def COIN_def)
  have "total_value (vout lock_tx) = 40"
    by (simp add: lock_tx_def)
  then show ?thesis
    using CheckTxInputs_correct [OF ok vo(2) _ vo(3), of 7] vo(1) c unfolding s split_sum_ex by auto
qed

end
