(* ===== verification/Sighash.thy ===== *)
theory Sighash
  imports Tx_Verify Hash
begin

section \<open>Signature hashes and the checks that scripts ask for (script/interpreter.cpp, pubkey.h)\<close>

text \<open>
  The hash that a signature signs is computed over the spending transaction as the hash type changes it. The code serializes the changed transaction without building it.
  Verification of a signature by secp256k1 is the parameter \<open>ecdsa_verify\<close> (key, hash, signature).
\<close>

unbundle bit_operations_syntax

subsection \<open>Signature hashes\<close>

text \<open>The wrapper: the transaction, the script, the index and the flags taken from the hash type.\<close>

record CTransactionSignatureSerializer =
  txTo :: CTransaction
  scriptCode :: CScript
  sig_nIn :: nat
  fAnyoneCanPay :: bool
  fHashSingle :: bool
  fHashNone :: bool

definition mk_serializer :: "CTransaction \<Rightarrow> CScript \<Rightarrow> nat \<Rightarrow> u32 \<Rightarrow> CTransactionSignatureSerializer" where
  "mk_serializer txToIn scriptCodeIn nInIn nHashTypeIn =
     \<lparr>txTo = txToIn, scriptCode = scriptCodeIn, sig_nIn = nInIn,
      fAnyoneCanPay = (uint nHashTypeIn AND SIGHASH_ANYONECANPAY \<noteq> 0),
      fHashSingle = (uint (nHashTypeIn AND 0x1f) = SIGHASH_SINGLE), fHashNone = (uint (nHashTypeIn AND 0x1f) = SIGHASH_NONE)\<rparr>"

function count_separators :: "bytes \<Rightarrow> nat \<Rightarrow> nat" where
  "count_separators it n =
     (case GetScriptOp it of
        (True, opcode, data, it') \<Rightarrow> count_separators it' (if opcode = OP_CODESEPARATOR then n + 1 else n)
      | (False, _) \<Rightarrow> n)"
  by pat_completeness auto
termination
  by (relation "measure (\<lambda>(it, n). length it)") (auto dest: GetScriptOp_length sym)

declare count_separators.simps [simp del]

text \<open>The pieces written: up to each separator, and from the last one to where the parsing stops.\<close>

function write_pieces :: "bytes \<Rightarrow> bytes \<Rightarrow> bytes" where
  "write_pieces itBegin it =
     (case GetScriptOp it of
        (True, opcode, data, it') \<Rightarrow>
          if opcode = OP_CODESEPARATOR then take (length itBegin - length it' - 1) itBegin @ write_pieces it' it'
          else write_pieces itBegin it'
      | (False, _, _, it') \<Rightarrow> if itBegin \<noteq> [] then take (length itBegin - length it') itBegin else [])"
  by pat_completeness auto
termination
  by (relation "measure (\<lambda>(b, it). length it)") (auto dest: GetScriptOp_length sym)

declare write_pieces.simps [simp del]

definition SerializeScriptCode :: "CTransactionSignatureSerializer \<Rightarrow> bytes" where
  "SerializeScriptCode t =
     WriteCompactSize (of_nat (length (scriptCode t) - count_separators (scriptCode t) 0)) @ write_pieces (scriptCode t) (scriptCode t)"

definition SerializeInput :: "CTransactionSignatureSerializer \<Rightarrow> nat \<Rightarrow> bytes" where
  "SerializeInput t nInput =
     (let nInput = (if fAnyoneCanPay t then sig_nIn t else nInput); i = vin (txTo t) ! nInput
      in ser_outpoint (prevout i) @
         (if nInput \<noteq> sig_nIn t then ser_bytes [] else SerializeScriptCode t) @
         (if nInput \<noteq> sig_nIn t \<and> (fHashSingle t \<or> fHashNone t) then ser_writedata32 0 else ser_writedata32 (nSequence i)))"

definition SerializeOutput :: "CTransactionSignatureSerializer \<Rightarrow> nat \<Rightarrow> bytes" where
  "SerializeOutput t nOutput =
     (if fHashSingle t \<and> nOutput \<noteq> sig_nIn t then ser_txout txout_null else ser_txout (vout (txTo t) ! nOutput))"

definition SerializeTx :: "CTransactionSignatureSerializer \<Rightarrow> bytes" where
  "SerializeTx t =
     (let tx = txTo t;
          nInputs = (if fAnyoneCanPay t then 1 else length (vin tx));
          nOutputs = (if fHashNone t then 0 else if fHashSingle t then sig_nIn t + 1 else length (vout tx))
      in ser_writedata32 (n32bitVersion (tx_nVersion tx) (nType tx)) @
         WriteCompactSize (of_nat nInputs) @ concat (map (SerializeInput t) [0..<nInputs]) @
         WriteCompactSize (of_nat nOutputs) @ concat (map (SerializeOutput t) [0..<nOutputs]) @
         ser_writedata32 (nLockTime tx) @
         (if tx_nVersion tx = 3 \<and> nType tx \<noteq> TRANSACTION_NORMAL then ser_bytes (vExtraPayload tx) else []))"

definition uint256_one :: uint256 where
  "uint256_one = 1 # replicate 31 0"

text \<open>\<open>None\<close> is the failed assertion on the index.\<close>

definition SignatureHash :: "CScript \<Rightarrow> CTransaction \<Rightarrow> nat \<Rightarrow> u32 \<Rightarrow> uint256 option" where
  "SignatureHash code tx nIn nHashType =
     (if \<not> nIn < length (vin tx) then None
      else if uint (nHashType AND 0x1f) = SIGHASH_SINGLE \<and> nIn \<ge> length (vout tx) then Some uint256_one
      else Some (hash256 (SerializeTx (mk_serializer tx code nIn nHashType) @ ser_writedata32 nHashType)))"

definition GetPrevoutHash :: "CTransaction \<Rightarrow> uint256" where
  "GetPrevoutHash tx = hash256 (concat (map (ser_outpoint \<circ> prevout) (vin tx)))"

definition GetSequenceHash :: "CTransaction \<Rightarrow> uint256" where
  "GetSequenceHash tx = hash256 (concat (map (ser_writedata32 \<circ> nSequence) (vin tx)))"

definition GetOutputsHash :: "CTransaction \<Rightarrow> uint256" where
  "GetOutputsHash tx = hash256 (concat (map ser_txout (vout tx)))"

subsection \<open>Public keys\<close>

definition pubkey_GetLen :: "u8 \<Rightarrow> nat" where
  "pubkey_GetLen chHeader = (if chHeader = 2 \<or> chHeader = 3 then 33 else if chHeader = 4 \<or> chHeader = 6 \<or> chHeader = 7 then 65 else 0)"

text \<open>The key that the constructor leaves: the bytes, or invalid.\<close>

definition CPubKey :: "bytes \<Rightarrow> bytes option" where
  "CPubKey b =
     (let len = (if b = [] then 0 else pubkey_GetLen (b ! 0))
      in if len \<noteq> 0 \<and> len = length b then Some b else None)"

subsection \<open>The checker of a transaction\<close>

definition CheckSig :: "(bytes \<Rightarrow> uint256 \<Rightarrow> bytes \<Rightarrow> bool) \<Rightarrow> CTransaction \<Rightarrow> nat \<Rightarrow> valtype \<Rightarrow> valtype \<Rightarrow> CScript \<Rightarrow> bool" where
  "CheckSig ecdsa_verify tx nIn vchSigIn vchPubKey code =
     (case CPubKey vchPubKey of
        None \<Rightarrow> False
      | Some pubkey \<Rightarrow>
          if vchSigIn = [] then False
          else let nHashType = ucast (last vchSigIn) :: u32; vchSig = butlast vchSigIn
           in case SignatureHash code tx nIn nHashType of
                None \<Rightarrow> False
              | Some sighash \<Rightarrow> ecdsa_verify pubkey sighash vchSig)"

definition CheckLockTime :: "CTransaction \<Rightarrow> nat \<Rightarrow> int \<Rightarrow> bool" where
  "CheckLockTime tx nIn n =
     (let txLock = uint (nLockTime tx)
      in if \<not> ((txLock < LOCKTIME_THRESHOLD \<and> n < LOCKTIME_THRESHOLD) \<or> (txLock \<ge> LOCKTIME_THRESHOLD \<and> n \<ge> LOCKTIME_THRESHOLD)) then False
         else if n > txLock then False
         else if SEQUENCE_FINAL = nSequence (vin tx ! nIn) then False
         else True)"

definition CheckSequence :: "CTransaction \<Rightarrow> nat \<Rightarrow> int \<Rightarrow> bool" where
  "CheckSequence tx nIn n =
     (let txToSequence = uint (nSequence (vin tx ! nIn))
      in if (word_of_int (tx_nVersion tx) :: u32) < 2 then False
         else if txToSequence AND uint SEQUENCE_LOCKTIME_DISABLE_FLAG \<noteq> 0 then False
         else let nLockTimeMask = uint (SEQUENCE_LOCKTIME_TYPE_FLAG OR SEQUENCE_LOCKTIME_MASK);
                  txToSequenceMasked = txToSequence AND nLockTimeMask;
                  nSequenceMasked = n AND nLockTimeMask;
                  type_flag = uint SEQUENCE_LOCKTIME_TYPE_FLAG
          in if \<not> ((txToSequenceMasked < type_flag \<and> nSequenceMasked < type_flag) \<or>
                    (txToSequenceMasked \<ge> type_flag \<and> nSequenceMasked \<ge> type_flag)) then False
             else if nSequenceMasked > txToSequenceMasked then False
             else True)"

text \<open>
  The environment of the interpreter for an input of a transaction. Low S values and key pairs are checked by
  secp256k1, the parameters \<open>low_s\<close> and \<open>data_verify\<close>.
\<close>

definition tx_script_env :: "(bytes \<Rightarrow> uint256 \<Rightarrow> bytes \<Rightarrow> bool) \<Rightarrow> (valtype \<Rightarrow> bool) \<Rightarrow> (valtype \<Rightarrow> valtype \<Rightarrow> valtype \<Rightarrow> bool) \<Rightarrow>
    CTransaction \<Rightarrow> nat \<Rightarrow> u32 \<Rightarrow> script_env" where
  "tx_script_env ecdsa_verify low_s data_verify tx nIn fl =
     \<lparr>env_flags = fl, env_CheckSig = CheckSig ecdsa_verify tx nIn, env_CheckLockTime = CheckLockTime tx nIn,
      env_CheckSequence = CheckSequence tx nIn, env_CheckLowS = low_s, env_PubKeyVerify = data_verify,
      env_ripemd160 = rmd_spec, env_sha1 = sha1_spec, env_sha256 = sha256_spec\<rparr>"

subsection \<open>What a signature signs\<close>

text \<open>The script without its separators, for a script that parses to its end.\<close>

function parses :: "bytes \<Rightarrow> bool" where
  "parses it \<longleftrightarrow> it = [] \<or> (case GetScriptOp it of (True, opcode, data, it') \<Rightarrow> parses it' | (False, _) \<Rightarrow> False)"
  by pat_completeness auto
termination
  by (relation "measure length") (auto dest: GetScriptOp_length sym)

declare parses.simps [simp del]

function without_separators :: "bytes \<Rightarrow> bytes" where
  "without_separators it =
     (case GetScriptOp it of
        (True, opcode, data, it') \<Rightarrow> (if opcode = OP_CODESEPARATOR then [] else take (length it - length it') it) @ without_separators it'
      | (False, _) \<Rightarrow> [])"
  by pat_completeness auto
termination
  by (relation "measure length") (auto dest: GetScriptOp_length sym)

declare without_separators.simps [simp del]

lemma read_push_size_suffix: "read_push_size opcode pc = Some (n, pc') \<Longrightarrow> \<exists>c. pc = c @ pc'"
  by (auto simp: read_push_size_def split: if_splits) (metis append_take_drop_id)+

lemma GetScriptOp_chunk:
  assumes "GetScriptOp it = (True, opcode, data, it')"
  shows "it = take (length it - length it') it @ it'" "opcode = OP_CODESEPARATOR \<Longrightarrow> it = OP_CODESEPARATOR # it'"
proof -
  obtain a pc where it: "it = a # pc"
    using assms by (cases it) auto
  have "\<exists>c. it = c @ it'"
  proof (cases "a \<le> OP_PUSHDATA4")
    case True
    then obtain n pc' where r: "read_push_size a pc = Some (n, pc')" "it' = drop n pc'"
      using assms unfolding it by (auto split: if_splits option.splits)
    then obtain c where "pc = c @ pc'"
      using read_push_size_suffix by blast
    then have "it = (a # c @ take n pc') @ it'"
      unfolding it r(2) by simp
    then show ?thesis
      by blast
  next
    case False
    then have "it = [a] @ it'"
      using assms unfolding it by simp
    then show ?thesis
      by blast
  qed
  then show "it = take (length it - length it') it @ it'"
    by auto
  show "it = OP_CODESEPARATOR # it'" if "opcode = OP_CODESEPARATOR"
    using assms that by (cases it) (auto split: if_splits option.splits prod.splits)
qed

lemma pieces_without:
  "parses it \<Longrightarrow> write_pieces (pre @ it) it = pre @ without_separators it"
proof (induction it arbitrary: pre rule: without_separators.induct)
  case (1 it)
  show ?case
  proof (cases "it = []")
    case True
    then show ?thesis
      by (simp add: write_pieces.simps [of pre] without_separators.simps [of "[]"])
  next
    case False
    then obtain opcode data it' where g: "GetScriptOp it = (True, opcode, data, it')" "parses it'"
      using "1.prems" parses.simps [of it] by (auto split: prod.splits bool.splits)
    note ch = GetScriptOp_chunk [OF g(1)]
    have IH: "write_pieces (pre' @ it') it' = pre' @ without_separators it'" for pre'
      using "1.IH" [OF g(1) [symmetric] refl refl refl] g(2) by simp
    show ?thesis
    proof (cases "opcode = OP_CODESEPARATOR")
      case True
      then have "write_pieces (pre @ it) it = pre @ write_pieces it' it'"
        using g(1) ch(2) by (subst write_pieces.simps) simp
      then show ?thesis
        using IH [of "[]"] g(1) True by (subst without_separators.simps) simp
    next
      case False
      have "write_pieces (pre @ it) it = write_pieces ((pre @ take (length it - length it') it) @ it') it'"
        using g(1) False ch(1) by (subst write_pieces.simps) simp
      then show ?thesis
        unfolding IH using g(1) False by (subst without_separators.simps) simp
    qed
  qed
qed

lemma count_without: "parses it \<Longrightarrow> length (without_separators it) + count_separators it n = length it + n"
proof (induction it n rule: count_separators.induct)
  case (1 it n)
  show ?case
  proof (cases "it = []")
    case True
    then show ?thesis
      by (simp add: count_separators.simps [of "[]"] without_separators.simps [of "[]"])
  next
    case False
    then obtain opcode data it' where g: "GetScriptOp it = (True, opcode, data, it')" "parses it'"
      using "1.prems" parses.simps [of it] by (auto split: prod.splits bool.splits)
    note ch = GetScriptOp_chunk [OF g(1)]
    have len: "length it' < length it"
      by (rule GetScriptOp_length [OF g(1)])
    have IH: "length (without_separators it') + count_separators it' (if opcode = OP_CODESEPARATOR then n + 1 else n) =
        length it' + (if opcode = OP_CODESEPARATOR then n + 1 else n)"
      using "1.IH" [OF g(1) [symmetric] refl refl refl] g(2) by simp
    show ?thesis
      using IH g(1) ch(2) len by (subst without_separators.simps, subst count_separators.simps) (auto split: if_splits)
  qed
qed

lemma script_code_bytes:
  assumes "parses (scriptCode t)"
  shows "SerializeScriptCode t = ser_bytes (without_separators (scriptCode t))"
proof -
  have "length (without_separators (scriptCode t)) = length (scriptCode t) - count_separators (scriptCode t) 0"
    using count_without [OF assms, of 0] by simp
  then show ?thesis
    using pieces_without [OF assms, of "[]"] by (simp add: SerializeScriptCode_def ser_bytes_def)
qed

text \<open>The transaction as the hash type changes it: a copy with the inputs and outputs that are not signed blanked or left out.\<close>

definition signed_input :: "CTransaction \<Rightarrow> CScript \<Rightarrow> nat \<Rightarrow> u32 \<Rightarrow> nat \<Rightarrow> CTxIn" where
  "signed_input tx code nIn ty k =
     (let i = vin tx ! k
      in if k = nIn then i\<lparr>scriptSig := without_separators code\<rparr>
         else i\<lparr>scriptSig := [], nSequence := (if uint (ty AND 0x1f) \<in> {SIGHASH_NONE, SIGHASH_SINGLE} then 0 else nSequence i)\<rparr>)"

definition signed_tx :: "CTransaction \<Rightarrow> CScript \<Rightarrow> nat \<Rightarrow> u32 \<Rightarrow> CTransaction" where
  "signed_tx tx code nIn ty =
     tx\<lparr>vin := (if bit ty 7 then [signed_input tx code nIn ty nIn] else map (signed_input tx code nIn ty) [0..<length (vin tx)]),
        vout := (if uint (ty AND 0x1f) = SIGHASH_NONE then []
                 else if uint (ty AND 0x1f) = SIGHASH_SINGLE then replicate nIn txout_null @ [vout tx ! nIn] else vout tx)\<rparr>"

lemma anyone_bit: "uint ty AND SIGHASH_ANYONECANPAY \<noteq> 0 \<longleftrightarrow> bit ty 7" for ty :: u32
  using bit_iff_and_push_bit_not_eq_0 [of "uint ty" 7] by (simp add: SIGHASH_ANYONECANPAY_def bit_uint_iff)

lemma SerializeInput_eq:
  assumes "parses code"
  shows "SerializeInput (mk_serializer tx code nIn ty) k = ser_txin (signed_input tx code nIn ty (if bit ty 7 then nIn else k))"
proof -
  show ?thesis
    using script_code_bytes [of "mk_serializer tx code nIn ty"] assms
    by (auto simp: SerializeInput_def mk_serializer_def signed_input_def ser_txin_def Let_def anyone_bit)
qed

lemma SerializeTx_eq:
  assumes "parses code" "nIn < length (vin tx)" "uint (ty AND 0x1f) = SIGHASH_SINGLE \<longrightarrow> nIn < length (vout tx)"
  shows "SerializeTx (mk_serializer tx code nIn ty) = tx_Serialize (signed_tx tx code nIn ty)"
proof -
  let ?t = "mk_serializer tx code nIn ty"
  have any: "fAnyoneCanPay ?t \<longleftrightarrow> bit ty 7"
    by (simp add: mk_serializer_def anyone_bit)
  have ins: "WriteCompactSize (of_nat n) @ concat (map (SerializeInput ?t) [0..<n]) @ rest = ser_vector ser_txin (vin (signed_tx tx code nIn ty)) @ rest"
    if "n = (if fAnyoneCanPay ?t then 1 else length (vin tx))" for n rest
  proof -
    have "map (SerializeInput ?t) [0..<n] = map ser_txin (vin (signed_tx tx code nIn ty))"
      using that assms(2) any by (auto simp: signed_tx_def SerializeInput_eq [OF assms(1)] intro!: map_cong)
    moreover have "n = length (vin (signed_tx tx code nIn ty))"
      using that any by (simp add: signed_tx_def)
    ultimately show ?thesis
      by (simp add: ser_vector_def)
  qed
  have outs: "WriteCompactSize (of_nat n) @ concat (map (SerializeOutput ?t) [0..<n]) @ rest = ser_vector ser_txout (vout (signed_tx tx code nIn ty)) @ rest"
    if "n = (if fHashNone ?t then 0 else if fHashSingle ?t then nIn + 1 else length (vout tx))" for n rest
  proof -
    have "map (SerializeOutput ?t) [0..<n] = map ser_txout (vout (signed_tx tx code nIn ty))"
      using that assms(3) by (intro nth_equalityI) (auto simp: signed_tx_def SerializeOutput_def mk_serializer_def nth_append less_Suc_eq split: if_splits)
    moreover have "n = length (vout (signed_tx tx code nIn ty))"
      using that by (auto simp: signed_tx_def mk_serializer_def)
    ultimately show ?thesis
      by (simp add: ser_vector_def)
  qed
  have t: "txTo ?t = tx" "sig_nIn ?t = nIn"
    by (simp_all add: mk_serializer_def)
  show ?thesis
    unfolding SerializeTx_def Let_def t ins [OF refl] outs [OF refl] tx_Serialize_def by (simp add: signed_tx_def)
qed

text \<open>
  C12: a signature signs the transaction that its hash type describes. For an input of the transaction (and an output with its index, for \<open>SIGHASH_SINGLE\<close>) and a script that
  parses, the hash computed without a copy is the double hash of the serialized copy: the script without separators
  in the input signed and no script in the others; only that input if anyone can pay; no outputs, or only the one with the same
  index after blank ones, and sequence numbers of the others zero, if the type says so; and the hash type at the end. Without an output of that index the hash is the constant one.
\<close>

theorem SignatureHash_signs:
  assumes "parses code" "nIn < length (vin tx)"
  shows "SignatureHash code tx nIn ty =
    Some (if uint (ty AND 0x1f) = SIGHASH_SINGLE \<and> length (vout tx) \<le> nIn then uint256_one
          else hash256 (tx_Serialize (signed_tx tx code nIn ty) @ ser_writedata32 ty))"
  using SerializeTx_eq [OF assms] assms(2) by (auto simp: SignatureHash_def)

theorem SignatureHash_signs_witness:
  "SignatureHash [OP_CODESEPARATOR, 0x51] lock_tx 0 1 =
     Some (hash256 (tx_Serialize (lock_tx\<lparr>vin := [(vin lock_tx ! 0)\<lparr>scriptSig := [0x51]\<rparr>]\<rparr>) @ [1, 0, 0, 0]))"
proof -
  have p: "parses [OP_CODESEPARATOR, 0x51]" "without_separators [OP_CODESEPARATOR, 0x51] = [0x51]"
    by (simp_all add: parses.simps without_separators.simps)
  have w: "ser_writedata32 1 = [1, 0, 0, 0]"
    by code_simp
  have "signed_tx lock_tx [OP_CODESEPARATOR, 0x51] 0 1 = lock_tx\<lparr>vin := [(vin lock_tx ! 0)\<lparr>scriptSig := [0x51]\<rparr>]\<rparr>"
    by (simp add: signed_tx_def signed_input_def p(2) lock_tx_def SIGHASH_NONE_def SIGHASH_SINGLE_def)
  then show ?thesis
    using SignatureHash_signs [OF p(1), of 0 lock_tx 1] w by (simp add: lock_tx_def SIGHASH_SINGLE_def)
qed

subsection \<open>Lock times in scripts\<close>

lemma masked_sequence:
  "x AND 0x40ffff = (if bit x 22 then 0x400000 else 0) + x mod 2 ^ 16" for x :: int
proof -
  have "x AND 2 ^ k = (if bit x k then 2 ^ k else 0)" for k
    by (rule bit_eqI) (auto simp: bit_and_iff bit_exp_iff)
  from this [of 22] have b: "x AND 0x400000 = (if bit x 22 then 0x400000 else 0)"
    by simp
  have m: "x AND 0xffff = x mod 2 ^ 16"
    using take_bit_eq_mask [of 16 x] by (simp add: mask_eq_exp_minus_1 take_bit_eq_mod)
  have "x AND 0x40ffff = (x AND 0x400000) OR (x AND 0xffff)"
    using ring_bit_operations_class.bit.conj_disj_distrib [where x = x and y = "0x400000" and z = "0xffff :: int"] by simp
  also have "\<dots> = (x AND 0x400000) + (x AND 0xffff)"
    by (rule disjunctive_add_eq_or [symmetric]) (simp add: and.assoc and.left_commute)
  finally show ?thesis
    unfolding b m .
qed

lemma sequence_consts:
  "x AND uint SEQUENCE_LOCKTIME_DISABLE_FLAG \<noteq> 0 \<longleftrightarrow> bit x 31"
  "uint (SEQUENCE_LOCKTIME_TYPE_FLAG OR SEQUENCE_LOCKTIME_MASK) = 0x40ffff" "uint SEQUENCE_LOCKTIME_TYPE_FLAG = 0x400000"
  using bit_iff_and_push_bit_not_eq_0 [of x 31]
  by (simp_all add: SEQUENCE_LOCKTIME_DISABLE_FLAG_def SEQUENCE_LOCKTIME_TYPE_FLAG_def SEQUENCE_LOCKTIME_MASK_def)

lemma CheckSequence_weaker:
  assumes "CheckSequence tx nIn n" "\<not> bit n 31" "relative_lock_met st block (vin tx ! nIn) h"
  shows "relative_lock_met st block ((vin tx ! nIn)\<lparr>nSequence := word_of_int n\<rparr>) h"
proof -
  let ?s = "nSequence (vin tx ! nIn)" and ?w = "word_of_int n :: u32"
  have w: "bit ?w 31 = bit n 31" "bit ?w 22 = bit n 22" "uint ?w mod 2 ^ 16 = n mod 2 ^ 16"
    by (simp_all add: bit_simps uint_word_of_int mod_mod_cancel)
  have "n mod 2 ^ 16 < 2 ^ 16" "0 \<le> n mod 2 ^ 16" "uint ?s mod 2 ^ 16 < 2 ^ 16" "0 \<le> uint ?s mod 2 ^ 16"
    by simp_all
  then have "\<not> bit ?s 31" "bit n 22 = bit ?s 22" "n mod 2 ^ 16 \<le> uint ?s mod 2 ^ 16"
    using assms(1) by (auto simp: CheckSequence_def Let_def sequence_consts masked_sequence bit_uint_iff split: if_splits)
  then show ?thesis
    using assms(2,3) w unfolding relative_lock_met_def Let_def by (auto intro: order_trans)
qed

text \<open>
  C15: the locks that scripts ask for cannot be bypassed. If the script check of an absolute lock passes on an input of a transaction that is final at
  a height and time, then the lock, unless it is zero, is below that height, or that time when it is a time. And if the check of a relative lock passes
  and the transaction's own sequence locks are met in a block, then the relative lock of the script is met there as well, counted from the coin that the input spends.
\<close>

theorem locks_enforced:
  assumes "nIn < length (vin tx)" "0 \<le> n"
  shows "(CheckLockTime tx nIn n \<and> IsFinalTx tx height time \<longrightarrow> n = 0 \<or> n < (if n < LOCKTIME_THRESHOLD then height else time)) \<and>
    (CheckSequence tx nIn n \<and> \<not> bit n 31 \<and> length hs = length (vin tx) \<and> bit fl 0 \<and> SequenceLocks st tx fl hs block = Some (True, hs') \<and>
       wf_store st \<and> st block = Some b \<and> pprev b \<noteq> None \<and> list_all (\<lambda>h. h \<le> nHeight b) hs \<longrightarrow>
     relative_lock_met st block ((vin tx ! nIn)\<lparr>nSequence := word_of_int n\<rparr>) (hs ! nIn))"
proof (intro conjI impI)
  assume a: "CheckLockTime tx nIn n \<and> IsFinalTx tx height time"
  have "vin tx ! nIn \<in> set (vin tx)"
    using assms(1) by simp
  moreover have "nSequence (vin tx ! nIn) \<noteq> SEQUENCE_FINAL"
    using a by (auto simp: CheckLockTime_def Let_def split: if_splits)
  ultimately have "\<not> list_all (\<lambda>i. nSequence i = SEQUENCE_FINAL) (vin tx)"
    by (auto simp: list_all_iff)
  then show "n = 0 \<or> n < (if n < LOCKTIME_THRESHOLD then height else time)"
    using a assms(2) by (auto simp: CheckLockTime_def IsFinalTx_def Let_def split: if_splits)
next
  assume a: "CheckSequence tx nIn n \<and> \<not> bit n 31 \<and> length hs = length (vin tx) \<and> bit fl 0 \<and> SequenceLocks st tx fl hs block = Some (True, hs') \<and>
       wf_store st \<and> st block = Some b \<and> pprev b \<noteq> None \<and> list_all (\<lambda>h. h \<le> nHeight b) hs"
  have v: "(word_of_int (tx_nVersion tx) :: u32) \<ge> 2"
    using a by (auto simp: CheckSequence_def Let_def split: if_splits)
  have "list_all2 (relative_lock_met st block) (vin tx) hs"
    using SequenceLocks_value [of st block b hs tx fl] a v by auto
  then have "relative_lock_met st block (vin tx ! nIn) (hs ! nIn)"
    using assms(1) by (simp add: list_all2_conv_all_nth)
  then show "relative_lock_met st block ((vin tx ! nIn)\<lparr>nSequence := word_of_int n\<rparr>) (hs ! nIn)"
    using CheckSequence_weaker [of tx nIn n] a assms(2) by blast
qed

theorem locks_enforced_witness:
  "CheckLockTime (lock_tx\<lparr>nLockTime := 5\<rparr>) 0 4 \<and> IsFinalTx (lock_tx\<lparr>nLockTime := 5\<rparr>) 7 0 \<and> (4 = (0 :: int) \<or> (4 :: int) < 7) \<and>
   CheckSequence lock_tx 0 2 \<and> relative_lock_met demo_store 3 ((vin lock_tx ! 0)\<lparr>nSequence := 2\<rparr>) 1"
proof -
  have c: "CheckLockTime (lock_tx\<lparr>nLockTime := 5\<rparr>) 0 4" "IsFinalTx (lock_tx\<lparr>nLockTime := 5\<rparr>) 7 0" "CheckSequence lock_tx 0 2"
    by (simp_all add: CheckLockTime_def IsFinalTx_def CheckSequence_def lock_tx_def LOCKTIME_THRESHOLD_def SEQUENCE_FINAL_def
        SEQUENCE_LOCKTIME_DISABLE_FLAG_def SEQUENCE_LOCKTIME_TYPE_FLAG_def SEQUENCE_LOCKTIME_MASK_def)
  have b: "demo_store 3 = Some (demo_block (Some 2) (Some 1) 3 40)" "0 < length (vin lock_tx)" "length (vin lock_tx) = 1"
    by (simp_all add: demo_store_def lock_tx_def)
  have s: "SequenceLocks demo_store lock_tx 1 [1] 3 = Some (True, [1])"
    by code_simp
  show ?thesis
    using locks_enforced [of 0 "lock_tx\<lparr>nLockTime := 5\<rparr>" 4 7 0 "[]" 0 demo_store 0 "[]"] c b
      locks_enforced [OF b(2), of 2 0 0 "[1]" 1 demo_store 3 "[1]" "demo_block (Some 2) (Some 1) 3 40"] s demo_wf
    by (simp add: LOCKTIME_THRESHOLD_def)
qed

end
