(* ===== verification/Rewards.thy ===== *)
theory Rewards
  imports Sighash
begin

section \<open>Block rewards (validation.cpp, masternode/payments.cpp, governance/classes.cpp)\<close>

text \<open>
  The subsidy, the share of the masternodes, the superblocks, and the checks of what a coinbase may pay. Two of the amounts are computed in double
  precision: the model rounds the product to 53 bits, to even on a tie, and cuts the fraction off as the conversion to an integer does. The flags of other subsystems
  (synchronisation, governance, sporks) and the triggers of governance are arguments.
\<close>

subsection \<open>Products in double precision\<close>

text \<open>The length in bits, and rounding of a natural to the 53 bits of a double, to even on a tie.\<close>

fun bit_length :: "nat \<Rightarrow> nat" where
  "bit_length n = (if n = 0 then 0 else Suc (bit_length (n div 2)))"

declare bit_length.simps [simp del]

definition round53 :: "nat \<Rightarrow> nat" where
  "round53 n =
     (let k = bit_length n - 53; q = n div 2 ^ k; r = n mod 2 ^ k
      in (if 2 * r > 2 ^ k \<or> (2 * r = 2 ^ k \<and> odd q) then q + 1 else q) * 2 ^ k)"

text \<open>\<open>(int64_t)(v * c)\<close> for \<open>v \<ge> 0\<close> and the double \<open>c = m / 2 ^ e\<close>.\<close>

definition mul_double :: "int \<Rightarrow> nat \<Rightarrow> nat \<Rightarrow> int" where
  "mul_double v m e = int (round53 (round53 (nat v) * m) div 2 ^ e)"

text \<open>The literals 0.1, 0.5 and 0.7 as the doubles next to them.\<close>

definition COIN_0_1 :: CAmount where "COIN_0_1 = mul_double COIN 7205759403792794 56"
definition COIN_0_5 :: CAmount where "COIN_0_5 = mul_double COIN 4503599627370496 53"

subsection \<open>The subsidy\<close>

definition GetBlockSubsidy :: "int \<Rightarrow> CAmount" where
  "GetBlockSubsidy nPrevHeight =
     (let nHeight = nPrevHeight + 1
      in if nHeight = 0 then 0 * COIN
         else if nHeight = 1 then 7500000 * COIN
         else if nHeight > 1 \<and> nHeight \<le> 5000 then COIN_0_1
         else if nHeight > 5000 \<and> nHeight \<le> 250000 then 9 * COIN
         else if nHeight > 250000 \<and> nHeight \<le> 500000 then 8 * COIN
         else if nHeight > 500000 \<and> nHeight \<le> 750000 then 7 * COIN
         else if nHeight > 750000 \<and> nHeight \<le> 1000000 then 6 * COIN
         else if nHeight > 1000000 \<and> nHeight \<le> 1250000 then 5 * COIN
         else if nHeight > 1250000 \<and> nHeight \<le> 1500000 then 4 * COIN
         else if nHeight > 1500000 \<and> nHeight \<le> 1750000 then 3 * COIN
         else if nHeight > 1750000 \<and> nHeight \<le> 2000000 then 2 * COIN
         else if nHeight > 2000000 \<and> nHeight \<le> 2250000 then 1 * COIN
         else if nHeight > 2250000 then COIN_0_5
         else 0)"

definition GetMasternodePayment :: "int \<Rightarrow> CAmount \<Rightarrow> CAmount" where
  "GetMasternodePayment nBlockHeight blockValue = (if nBlockHeight > 200 then mul_double blockValue 6305039478318694 53 else 0)"

subsection \<open>Superblocks\<close>

record RewardParams =
  nBudgetPaymentsStartBlock :: int
  nBudgetPaymentsCycleBlocks :: int
  nBudgetPaymentsWindowBlocks :: int
  nSuperblockStartBlock :: int
  nSuperblockStartHash :: uint256
  nSuperblockCycle :: int
  DIP0003EnforcementHeight :: int

definition IsValidBlockHeight :: "RewardParams \<Rightarrow> int \<Rightarrow> bool" where
  "IsValidBlockHeight params nBlockHeight \<longleftrightarrow>
     nBlockHeight \<ge> nSuperblockStartBlock params \<and> nBlockHeight mod nSuperblockCycle params = 0"

definition GetNearestSuperblocksHeights :: "RewardParams \<Rightarrow> int \<Rightarrow> int \<times> int" where
  "GetNearestSuperblocksHeights params nBlockHeight =
     (let cycle = nSuperblockCycle params;
          nFirstSuperblockOffset = (cycle - nSuperblockStartBlock params mod cycle) mod cycle;
          nFirstSuperblock = nSuperblockStartBlock params + nFirstSuperblockOffset
      in if nBlockHeight < nFirstSuperblock then (0, nFirstSuperblock)
         else let last = nBlockHeight - nBlockHeight mod cycle in (last, last + cycle))"

definition GetPaymentsLimit :: "RewardParams \<Rightarrow> int \<Rightarrow> CAmount" where
  "GetPaymentsLimit params nBlockHeight =
     (if \<not> IsValidBlockHeight params nBlockHeight then 0
      else GetBlockSubsidy (nBlockHeight - 1) * nSuperblockCycle params)"

record CGovernancePayment =
  pay_script :: CScript
  pay_nAmount :: CAmount

text \<open>
  A trigger as the manager sees it: the height, whether the governance object is still known, its cached funding flag and
  its absolute yes count, which are computed from the votes, and the payments. \<open>None\<close> is a null pointer among the triggers.
\<close>

record CSuperblock =
  sb_nBlockHeight :: int
  sb_hasObject :: bool
  sb_fCachedFunding :: bool
  sb_nYesCount :: int
  vecPayments :: "CGovernancePayment list"

definition IsSuperblockTriggered :: "RewardParams \<Rightarrow> CSuperblock option list \<Rightarrow> int \<Rightarrow> bool" where
  "IsSuperblockTriggered params vecTriggers nBlockHeight \<longleftrightarrow>
     IsValidBlockHeight params nBlockHeight \<and>
     list_ex (\<lambda>t. case t of None \<Rightarrow> False
        | Some s \<Rightarrow> sb_hasObject s \<and> nBlockHeight = sb_nBlockHeight s \<and> sb_fCachedFunding s) vecTriggers"

definition best_superblock_step :: "int \<Rightarrow> CSuperblock option \<Rightarrow> CSuperblock option \<times> int \<Rightarrow> CSuperblock option \<times> int" where
  "best_superblock_step nBlockHeight t best =
     (case t of
        None \<Rightarrow> best
      | Some s \<Rightarrow>
          if nBlockHeight \<noteq> sb_nBlockHeight s then best
          else if \<not> sb_hasObject s then best
          else if sb_nYesCount s > snd best then (Some s, sb_nYesCount s) else best)"

definition GetBestSuperblock :: "RewardParams \<Rightarrow> CSuperblock option list \<Rightarrow> int \<Rightarrow> CSuperblock option" where
  "GetBestSuperblock params vecTriggers nBlockHeight =
     (if \<not> IsValidBlockHeight params nBlockHeight then None
      else let (best, nYesCount) = fold (best_superblock_step nBlockHeight) vecTriggers (None, 0)
       in if nYesCount > 0 then best else None)"

definition GetPaymentsTotalAmount :: "CSuperblock \<Rightarrow> CAmount" where
  "GetPaymentsTotalAmount s = fold (\<lambda>p n. n + pay_nAmount p) (vecPayments s) 0"

text \<open>The search for a payment from an index on: the index of the first match.\<close>

fun find_payment :: "CGovernancePayment \<Rightarrow> nat \<Rightarrow> CTxOut list \<Rightarrow> nat option" where
  "find_payment payment j [] = None"
| "find_payment payment j (o' # os) =
     (if pay_script payment = scriptPubKey o' \<and> pay_nAmount payment = nValue o' then Some j else find_payment payment (j + 1) os)"

fun match_payments :: "CTxOut list \<Rightarrow> nat \<Rightarrow> CGovernancePayment list \<Rightarrow> bool" where
  "match_payments outs nVoutIndex [] = True"
| "match_payments outs nVoutIndex (payment # payments) =
     (case find_payment payment nVoutIndex (drop nVoutIndex outs) of
        None \<Rightarrow> False
      | Some j \<Rightarrow> match_payments outs j payments)"

text \<open>\<open>None\<close> is the exception of \<open>GetValueOut\<close>.\<close>

definition superblock_IsValid :: "RewardParams \<Rightarrow> CSuperblock \<Rightarrow> CTransaction \<Rightarrow> int \<Rightarrow> CAmount \<Rightarrow> bool option" where
  "superblock_IsValid params s txNew nBlockHeight blockReward =
     (if \<not> IsValidBlockHeight params nBlockHeight then Some False
      else if int (length (vout txNew)) - int (length (vecPayments s)) < 0 then Some False
      else if GetPaymentsTotalAmount s > GetPaymentsLimit params nBlockHeight then Some False
      else case GetValueOut txNew of
        None \<Rightarrow> None
      | Some nBlockValue \<Rightarrow>
          if nBlockValue > blockReward + GetPaymentsTotalAmount s then Some False
          else Some (match_payments (vout txNew) 0 (vecPayments s)))"

definition manager_IsValid :: "RewardParams \<Rightarrow> CSuperblock option list \<Rightarrow> CTransaction \<Rightarrow> int \<Rightarrow> CAmount \<Rightarrow> bool option" where
  "manager_IsValid params vecTriggers txNew nBlockHeight blockReward =
     (case GetBestSuperblock params vecTriggers nBlockHeight of
        Some s \<Rightarrow> superblock_IsValid params s txNew nBlockHeight blockReward
      | None \<Rightarrow> Some False)"

definition GetSuperblockPayments :: "RewardParams \<Rightarrow> CSuperblock option list \<Rightarrow> int \<Rightarrow> CTxOut list option" where
  "GetSuperblockPayments params vecTriggers nBlockHeight =
     map_option (\<lambda>s. map (\<lambda>p. \<lparr>nValue = pay_nAmount p, scriptPubKey = pay_script p\<rparr>) (vecPayments s))
       (GetBestSuperblock params vecTriggers nBlockHeight)"

subsection \<open>What a coinbase may pay\<close>

record payment_env =
  IsSynced :: bool
  fDisableGovernance :: bool
  AreSuperblocksEnabled :: bool
  ActiveTriggers :: "CSuperblock option list"

definition IsOldBudgetBlockValueValid :: "RewardParams \<Rightarrow> payment_env \<Rightarrow> CTransaction \<Rightarrow> int \<Rightarrow> CAmount \<Rightarrow> bool option" where
  "IsOldBudgetBlockValueValid params env cb nBlockHeight blockReward =
     (case GetValueOut cb of
        None \<Rightarrow> None
      | Some valueOut \<Rightarrow>
          let isBlockRewardValueMet = (valueOut \<le> blockReward)
          in if nBlockHeight < nBudgetPaymentsStartBlock params then Some False
             else if nBlockHeight \<ge> nSuperblockStartBlock params then Some False
             else let nOffset = nBlockHeight mod nBudgetPaymentsCycleBlocks params
              in if nBlockHeight \<ge> nBudgetPaymentsStartBlock params \<and> nOffset < nBudgetPaymentsWindowBlocks params
                 then (if IsSynced env then Some isBlockRewardValueMet else Some True)
                 else Some isBlockRewardValueMet)"

definition IsBlockValueValid :: "RewardParams \<Rightarrow> payment_env \<Rightarrow> CTransaction \<Rightarrow> int \<Rightarrow> CAmount \<Rightarrow> bool option" where
  "IsBlockValueValid params env cb nBlockHeight blockReward =
     (case GetValueOut cb of
        None \<Rightarrow> None
      | Some valueOut \<Rightarrow>
          let isBlockRewardValueMet = (valueOut \<le> blockReward)
          in if nBlockHeight < nBudgetPaymentsStartBlock params then Some isBlockRewardValueMet
             else if nBlockHeight < nSuperblockStartBlock params then IsOldBudgetBlockValueValid params env cb nBlockHeight blockReward
             else let nSuperblockMaxValue = blockReward + GetPaymentsLimit params nBlockHeight
              in if \<not> IsValidBlockHeight params nBlockHeight then Some isBlockRewardValueMet
                 else if \<not> valueOut \<le> nSuperblockMaxValue then Some False
                 else if \<not> IsSynced env \<or> fDisableGovernance env then Some True
                 else if \<not> AreSuperblocksEnabled env then Some isBlockRewardValueMet
                 else if \<not> IsSuperblockTriggered params (ActiveTriggers env) nBlockHeight then Some isBlockRewardValueMet
                 else (case manager_IsValid params (ActiveTriggers env) cb nBlockHeight blockReward of
                         None \<Rightarrow> None
                       | Some ok \<Rightarrow> if \<not> ok then Some False else Some True))"

text \<open>The masternode to pay: the share of its operator in hundredths of a percent, and the two scripts. The product with the share is one of 64-bit integers.\<close>

record mn_payee =
  nOperatorReward :: int
  scriptPayout :: CScript
  scriptOperatorPayout :: CScript

definition GetBlockTxOuts :: "mn_payee option \<Rightarrow> int \<Rightarrow> CAmount \<Rightarrow> CTxOut list option" where
  "GetBlockTxOuts dmnPayee nBlockHeight blockReward =
     (case dmnPayee of
        None \<Rightarrow> None
      | Some payee \<Rightarrow>
          let masternodeReward = GetMasternodePayment nBlockHeight blockReward;
              operatorReward = (if nOperatorReward payee \<noteq> 0 \<and> scriptOperatorPayout payee \<noteq> []
                                then sint (word_of_int (masternodeReward * nOperatorReward payee) :: u64) sdiv 10000 else 0);
              masternodeReward = masternodeReward - operatorReward
          in Some ((if masternodeReward > 0 then [\<lparr>nValue = masternodeReward, scriptPubKey = scriptPayout payee\<rparr>] else []) @
                   (if operatorReward > 0 then [\<lparr>nValue = operatorReward, scriptPubKey = scriptOperatorPayout payee\<rparr>] else [])))"

text \<open>Whether a script has one destination, as \<open>Solver\<close> finds it: a script hash, a key of valid form or a key hash, and none for data, several keys and other scripts.\<close>

definition MatchPayToPubkey :: "CScript \<Rightarrow> bytes option" where
  "MatchPayToPubkey s =
     (if length s = 67 \<and> s ! 0 = 65 \<and> last s = OP_CHECKSIG then CPubKey (take 65 (drop 1 s))
      else if length s = 35 \<and> s ! 0 = 33 \<and> last s = OP_CHECKSIG then CPubKey (take 33 (drop 1 s))
      else None)"

definition ExtractDestination :: "CScript \<Rightarrow> bool" where
  "ExtractDestination s =
     (if IsPayToScriptHash s then True
      else if length s \<ge> 1 \<and> s ! 0 = OP_RETURN \<and> IsPushOnly (drop 1 s) then False
      else MatchPayToPubkey s \<noteq> None \<or> IsPayToPublicKeyHash s)"

text \<open>The first payment that is missing decides; the code asserts that its script has a destination.\<close>

definition IsTransactionValid :: "RewardParams \<Rightarrow> mn_payee option \<Rightarrow> CTransaction \<Rightarrow> int \<Rightarrow> CAmount \<Rightarrow> bool option" where
  "IsTransactionValid params dmnPayee txNew nBlockHeight blockReward =
     (if \<not> nBlockHeight \<ge> DIP0003EnforcementHeight params then Some True
      else case GetBlockTxOuts dmnPayee nBlockHeight blockReward of
        None \<Rightarrow> Some True
      | Some voutMasternodePayments \<Rightarrow>
          (case filter (\<lambda>txout. txout \<notin> set (vout txNew)) voutMasternodePayments of
             [] \<Rightarrow> Some True
           | txout # _ \<Rightarrow> if \<not> ExtractDestination (scriptPubKey txout) then None else Some False))"

definition IsBlockPayeeValid :: "RewardParams \<Rightarrow> payment_env \<Rightarrow> mn_payee option \<Rightarrow> CTransaction \<Rightarrow> int \<Rightarrow> CAmount \<Rightarrow> bool option" where
  "IsBlockPayeeValid params env dmnPayee txNew nBlockHeight blockReward =
     (if fDisableGovernance env then Some True
      else if nBlockHeight < nSuperblockStartBlock params then Some True
      else do { superblock_ok \<leftarrow>
                  (if AreSuperblocksEnabled env \<and> IsSuperblockTriggered params (ActiveTriggers env) nBlockHeight
                   then manager_IsValid params (ActiveTriggers env) txNew nBlockHeight blockReward else Some True);
                if \<not> superblock_ok then Some False
                else IsTransactionValid params dmnPayee txNew nBlockHeight blockReward })"

text \<open>The payments of a new block; the first output is the miner's.\<close>

definition FillBlockPayments :: "RewardParams \<Rightarrow> payment_env \<Rightarrow> mn_payee option \<Rightarrow> CTransaction \<Rightarrow> int \<Rightarrow> CAmount \<Rightarrow> CTransaction" where
  "FillBlockPayments params env dmnPayee txNew nBlockHeight blockReward =
     (let voutSuperblock = (if AreSuperblocksEnabled env \<and> IsSuperblockTriggered params (ActiveTriggers env) nBlockHeight
                            then (case GetSuperblockPayments params (ActiveTriggers env) nBlockHeight of None \<Rightarrow> [] | Some outs \<Rightarrow> outs) else []);
          voutMasternode = (case GetBlockTxOuts dmnPayee nBlockHeight blockReward of None \<Rightarrow> [] | Some outs \<Rightarrow> outs);
          outs = vout txNew @ voutMasternode @ voutSuperblock
      in txNew\<lparr>vout := fold (\<lambda>txout outs. outs[0 := (outs ! 0)\<lparr>nValue := nValue (outs ! 0) - nValue txout\<rparr>]) voutMasternode outs\<rparr>)"

subsection \<open>Rounding\<close>

lemma bit_length_le: "n < 2 ^ k \<Longrightarrow> bit_length n \<le> k"
proof (induction k arbitrary: n)
  case 0
  then show ?case
    by (simp add: bit_length.simps)
next
  case (Suc k)
  then have "n div 2 < 2 ^ k"
    by (simp add: less_mult_imp_div_less)
  from Suc.IH [OF this] show ?case
    by (subst bit_length.simps) simp
qed

lemma round53_error: "n < 2 ^ (53 + k) \<Longrightarrow> 2 * round53 n \<le> 2 * n + 2 ^ k \<and> 2 * n \<le> 2 * round53 n + 2 ^ k"
proof -
  assume n: "n < 2 ^ (53 + k)"
  define P where "P = (2 :: nat) ^ (bit_length n - 53)"
  define K where "K = (2 :: nat) ^ k"
  define q where "q = n div P"
  define r where "r = n mod P"
  have P: "P \<le> K" "0 < P"
    using bit_length_le [OF n] unfolding P_def K_def by (auto intro!: power_increasing)
  then have r: "r < P" "n = q * P + r"
    unfolding q_def r_def by (simp_all only: div_mult_mod_eq mod_less_divisor)
  have "round53 n = (if 2 * r > P \<or> (2 * r = P \<and> odd q) then q + 1 else q) * P"
    unfolding round53_def Let_def P_def q_def r_def by (rule refl)
  then show ?thesis
    using P r unfolding K_def [symmetric] by (auto simp: distrib_right split: if_splits)
qed

lemma round53_exact: "n < 2 ^ 53 \<Longrightarrow> round53 n = n"
  using bit_length_le [of n 53] by (simp add: round53_def)

lemma COIN_fractions: "COIN_0_1 = 10000000" "COIN_0_5 = 50000000"
  by (simp_all add: COIN_0_1_def COIN_0_5_def mul_double_def COIN_def round53_def Let_def bit_length.simps)

text \<open>Seven tenths of an amount, to within rounding.\<close>

lemma mul_0_7_bounds:
  assumes "0 \<le> v" "v \<le> MAX_MONEY"
  shows "7 * v - 12 \<le> 10 * mul_double v 6305039478318694 53" "10 * mul_double v 6305039478318694 53 \<le> 7 * v + 1"
    "0 \<le> mul_double v 6305039478318694 53"
proof -
  define w where "w = nat v"
  have w: "v = int w" "w < 2 ^ 51"
    using assms by (auto simp: w_def MAX_MONEY_def COIN_def)
  have e: "round53 w = w"
    using w(2) by (intro round53_exact) simp
  define n where "n = w * 6305039478318694"
  define R where "R = round53 n"
  define r where "r = R div 2 ^ 53"
  have "n < 2 ^ (53 + 51)"
    using w(2) unfolding n_def by simp
  from round53_error [OF this] have R: "2 * R \<le> 2 * n + 2 ^ 51" "2 * n \<le> 2 * R + 2 ^ 51"
    unfolding R_def by simp_all
  have q: "r * 2 ^ 53 \<le> R" "R < (r + 1) * 2 ^ 53"
    unfolding r_def using div_mult_mod_eq [of R "2 ^ 53"] mod_less_divisor [of "2 ^ 53" R] by simp_all
  have m: "mul_double v 6305039478318694 53 = int r"
    unfolding mul_double_def w_def [symmetric] e n_def [symmetric] R_def [symmetric] r_def [symmetric] by (rule refl)
  have "10 * r \<le> 7 * w + 1" "7 * w \<le> 10 * r + 12"
    using R q w(2) unfolding n_def by simp_all
  then show "7 * v - 12 \<le> 10 * mul_double v 6305039478318694 53" "10 * mul_double v 6305039478318694 53 \<le> 7 * v + 1"
    "0 \<le> mul_double v 6305039478318694 53"
    unfolding m using w(1) by simp_all
qed

subsection \<open>The supply\<close>

text \<open>What the subsidies of the blocks up to a height add up to.\<close>

definition total_subsidy :: "nat \<Rightarrow> CAmount" where
  "total_subsidy n = (\<Sum>h = 1..n. GetBlockSubsidy (int h - 1))"

lemma sum_segment:
  assumes "a \<le> b" "\<And>h. a < h \<Longrightarrow> h \<le> b \<Longrightarrow> GetBlockSubsidy (int h - 1) = c"
  shows "total_subsidy b = total_subsidy a + int (b - a) * c"
proof -
  have "{1..b} = {1..a} \<union> {a<..b}" "{1..a} \<inter> {a<..b} = {}"
    using assms(1) by auto
  then have "total_subsidy b = total_subsidy a + (\<Sum>h\<in>{a<..b}. GetBlockSubsidy (int h - 1))"
    unfolding total_subsidy_def by (simp add: sum.union_disjoint)
  moreover have "(\<Sum>h\<in>{a<..b}. GetBlockSubsidy (int h - 1)) = (\<Sum>h\<in>{a<..b}. c)"
    by (rule sum.cong) (use assms(2) in auto)
  ultimately show ?thesis
    by simp
qed

lemma total_subsidy_steps:
  "total_subsidy 1 = 750000000000000" "total_subsidy 5000 = 750049990000000" "total_subsidy 250000 = 970549990000000"
  "total_subsidy 500000 = 1170549990000000" "total_subsidy 750000 = 1345549990000000" "total_subsidy 1000000 = 1495549990000000"
  "total_subsidy 1250000 = 1620549990000000" "total_subsidy 1500000 = 1720549990000000" "total_subsidy 1750000 = 1795549990000000"
  "total_subsidy 2000000 = 1845549990000000" "total_subsidy 2250000 = 1870549990000000"
proof -
  show 1: "total_subsidy 1 = 750000000000000"
    by (simp add: total_subsidy_def GetBlockSubsidy_def COIN_def)
  show 2: "total_subsidy 5000 = 750049990000000"
    using sum_segment [of 1 5000 10000000] 1 by (simp add: GetBlockSubsidy_def COIN_fractions)
  show 3: "total_subsidy 250000 = 970549990000000"
    using sum_segment [of 5000 250000 900000000] 2 by (simp add: GetBlockSubsidy_def COIN_def)
  show 4: "total_subsidy 500000 = 1170549990000000"
    using sum_segment [of 250000 500000 800000000] 3 by (simp add: GetBlockSubsidy_def COIN_def)
  show 5: "total_subsidy 750000 = 1345549990000000"
    using sum_segment [of 500000 750000 700000000] 4 by (simp add: GetBlockSubsidy_def COIN_def)
  show 6: "total_subsidy 1000000 = 1495549990000000"
    using sum_segment [of 750000 1000000 600000000] 5 by (simp add: GetBlockSubsidy_def COIN_def)
  show 7: "total_subsidy 1250000 = 1620549990000000"
    using sum_segment [of 1000000 1250000 500000000] 6 by (simp add: GetBlockSubsidy_def COIN_def)
  show 8: "total_subsidy 1500000 = 1720549990000000"
    using sum_segment [of 1250000 1500000 400000000] 7 by (simp add: GetBlockSubsidy_def COIN_def)
  show 9: "total_subsidy 1750000 = 1795549990000000"
    using sum_segment [of 1500000 1750000 300000000] 8 by (simp add: GetBlockSubsidy_def COIN_def)
  show 10: "total_subsidy 2000000 = 1845549990000000"
    using sum_segment [of 1750000 2000000 200000000] 9 by (simp add: GetBlockSubsidy_def COIN_def)
  show "total_subsidy 2250000 = 1870549990000000"
    using sum_segment [of 2000000 2250000 100000000] 10 by (simp add: GetBlockSubsidy_def COIN_def)
qed

lemma total_subsidy_tail: "2250000 \<le> n \<Longrightarrow> total_subsidy n = 1870549990000000 + int (n - 2250000) * 50000000"
  using sum_segment [of 2250000 n 50000000] total_subsidy_steps(11) by (simp add: GetBlockSubsidy_def COIN_fractions)

text \<open>
  C25: what the schedule issues. After block 2250000 the subsidies sum to 18705499.9 coins and every later block adds half a coin, without an end: the 18000000 coins
  named as the maximal supply are passed before block 2000000, the sum stays within the range of valid amounts up to block 6839000 and passes it with the next.
\<close>

theorem supply_schedule:
  assumes "2250000 \<le> n"
  shows "total_subsidy n = 18705499 * COIN + 90000000 + int (n - 2250000) * 50000000 \<and>
    total_subsidy 2000000 > 18000000 * COIN \<and> (total_subsidy n \<le> MAX_MONEY \<longleftrightarrow> n \<le> 6839000)"
  using total_subsidy_tail [OF assms] total_subsidy_steps(10) assms by (auto simp: COIN_def MAX_MONEY_def)

theorem supply_schedule_witness:
  "total_subsidy 2500000 = 18830499 * COIN + 90000000 \<and> total_subsidy 2500000 \<le> MAX_MONEY"
  using supply_schedule [of 2500000] by (simp add: COIN_def)

lemma masternode_range:
  assumes "0 \<le> v" "v \<le> MAX_MONEY"
  shows "0 \<le> GetMasternodePayment h v" "GetMasternodePayment h v \<le> v"
proof -
  have "0 \<le> GetMasternodePayment h v \<and> GetMasternodePayment h v \<le> v"
  proof (cases "v = 0")
    case True
    then show ?thesis
      by (simp add: GetMasternodePayment_def mul_double_def round53_exact)
  next
    case False
    then show ?thesis
      using mul_0_7_bounds [OF assms] assms(1) by (auto simp: GetMasternodePayment_def)
  qed
  then show "0 \<le> GetMasternodePayment h v" "GetMasternodePayment h v \<le> v"
    by simp_all
qed

text \<open>
  C32: from block 201 on the masternodes get seven tenths of the block value. For every valid amount the product in double precision is off by at most
  1.2 units of the smallest amount, never negative and never more than the value; up to block 200 they get nothing.
\<close>

theorem masternode_share:
  assumes "0 \<le> blockValue" "blockValue \<le> MAX_MONEY"
  shows "(if height \<le> 200 then GetMasternodePayment height blockValue = 0
    else \<bar>10 * GetMasternodePayment height blockValue - 7 * blockValue\<bar> \<le> 12) \<and>
    0 \<le> GetMasternodePayment height blockValue \<and> GetMasternodePayment height blockValue \<le> blockValue"
  using mul_0_7_bounds [OF assms] masternode_range [OF assms, of height] by (auto simp: GetMasternodePayment_def)

theorem masternode_share_witness: "\<bar>10 * GetMasternodePayment 201 (9 * COIN) - 7 * (9 * COIN)\<bar> \<le> 12"
  using masternode_share [of "9 * COIN" 201] by (simp add: COIN_def MAX_MONEY_def)

subsection \<open>Limits\<close>

text \<open>Where a superblock may pay, and the window of old budgets in which a node that is not synchronised looks at nothing.\<close>

definition superblock_extra :: "RewardParams \<Rightarrow> int \<Rightarrow> CAmount" where
  "superblock_extra params h = (if nBudgetPaymentsStartBlock params \<le> h then GetPaymentsLimit params h else 0)"

definition unchecked_budget :: "RewardParams \<Rightarrow> payment_env \<Rightarrow> int \<Rightarrow> bool" where
  "unchecked_budget params env h \<longleftrightarrow> \<not> IsSynced env \<and> nBudgetPaymentsStartBlock params \<le> h \<and> h < nSuperblockStartBlock params \<and>
     h mod nBudgetPaymentsCycleBlocks params < nBudgetPaymentsWindowBlocks params"

lemma subsidy_nonneg: "0 \<le> GetBlockSubsidy h"
  unfolding GetBlockSubsidy_def Let_def COIN_fractions COIN_def by simp

lemma payments_limit_nonneg: "0 \<le> nSuperblockCycle params \<Longrightarrow> 0 \<le> GetPaymentsLimit params h"
  using subsidy_nonneg by (simp add: GetPaymentsLimit_def)

lemma coinbase_bounded:
  assumes "IsBlockValueValid params env cb h reward = Some True" "0 \<le> nSuperblockCycle params" "\<not> unchecked_budget params env h"
  shows "GetValueOut cb = Some (total_value (vout cb))" "total_value (vout cb) \<le> reward + superblock_extra params h"
proof -
  obtain x where g: "GetValueOut cb = Some x"
    using assms(1) by (auto simp: IsBlockValueValid_def split: option.splits)
  then have x: "x = total_value (vout cb)"
    using GetValueOut_loop_Some [of 0 "vout cb" x] by (simp add: GetValueOut_def)
  then show "GetValueOut cb = Some (total_value (vout cb))"
    using g by simp
  have "x \<le> reward \<or> x \<le> reward + superblock_extra params h"
    using assms(1,3) g
    by (auto simp: IsBlockValueValid_def IsOldBudgetBlockValueValid_def Let_def superblock_extra_def unchecked_budget_def split: if_splits option.splits)
  then show "total_value (vout cb) \<le> reward + superblock_extra params h"
    using payments_limit_nonneg [OF assms(2), of h] x by (auto simp: superblock_extra_def)
qed

lemma find_payment_mem:
  "find_payment p j outs = Some k \<Longrightarrow> \<lparr>nValue = pay_nAmount p, scriptPubKey = pay_script p\<rparr> \<in> set outs"
  by (induction p j outs rule: find_payment.induct) (auto split: if_splits)

lemma match_payments_mem:
  "match_payments outs i ps \<Longrightarrow> p \<in> set ps \<Longrightarrow> \<lparr>nValue = pay_nAmount p, scriptPubKey = pay_script p\<rparr> \<in> set outs"
proof (induction outs i ps rule: match_payments.induct)
  case (2 outs i q ps)
  then obtain j where j: "find_payment q i (drop i outs) = Some j" "match_payments outs j ps"
    by (auto split: option.splits)
  show ?case
    using "2.IH" [OF j] "2.prems"(2) find_payment_mem [OF j(1)] set_drop_subset [of i outs] by auto
qed simp

lemma value_le_total: "list_all (\<lambda>o'. 0 \<le> nValue o') outs \<Longrightarrow> o' \<in> set outs \<Longrightarrow> nValue o' \<le> total_value outs"
proof (induction outs)
  case (Cons a outs)
  then show ?case
    using total_value_nonneg [of outs] by auto
qed simp

text \<open>
  C28: before the start of old budgets, which the main network sets to the largest integer, a superblock cannot pay more than the block reward, but it must be paid. If superblocks are enabled and one is
  triggered whose best trigger has a payment above the block reward, then no coinbase passes both checks: every block at that height is rejected.
\<close>

theorem superblock_deadlock:
  assumes "nSuperblockStartBlock params \<le> h" "h < nBudgetPaymentsStartBlock params"
    and "\<not> fDisableGovernance env" "AreSuperblocksEnabled env" "IsSuperblockTriggered params (ActiveTriggers env) h"
    and "GetBestSuperblock params (ActiveTriggers env) h = Some s" "p \<in> set (vecPayments s)" "reward < pay_nAmount p"
  shows "\<not> (IsBlockValueValid params env cb h reward = Some True \<and> IsBlockPayeeValid params env payee cb h reward = Some True)"
proof
  assume a: "IsBlockValueValid params env cb h reward = Some True \<and> IsBlockPayeeValid params env payee cb h reward = Some True"
  then obtain x where x: "GetValueOut cb = Some x" "x \<le> reward"
    using assms(2) by (auto simp: IsBlockValueValid_def split: option.splits)
  then have v: "x = total_value (vout cb)" "list_all (\<lambda>o'. 0 \<le> nValue o') (vout cb)"
    using GetValueOut_loop_Some [of 0 "vout cb" x] by (simp_all add: GetValueOut_def)
  have "match_payments (vout cb) 0 (vecPayments s)"
    using a assms(1,3-6) x by (auto simp: IsBlockPayeeValid_def manager_IsValid_def superblock_IsValid_def split: if_splits bind_splits)
  from match_payments_mem [OF this assms(7)] show False
    using value_le_total [OF v(2)] assms(8) x(2) v(1) by fastforce
qed

text \<open>The parameters of the main network.\<close>

definition main_rewards :: RewardParams where
  "main_rewards = \<lparr>nBudgetPaymentsStartBlock = 2147483647, nBudgetPaymentsCycleBlocks = 21600, nBudgetPaymentsWindowBlocks = 100,
     nSuperblockStartBlock = 10000,
     nSuperblockStartHash = [0x10, 0x54, 0x4c, 0x73, 0x6f, 0x2f, 0x04, 0xad, 0x3f, 0xf5, 0x47, 0x4e, 0x8b, 0x81, 0x56, 0x97, 0x93, 0x42, 0xfb, 0x62, 0xa5, 0x9b, 0x08, 0xa3, 0xf5, 0x02, 0x00, 0x00, 0x00, 0x00, 0x00, 0x00],
     nSuperblockCycle = 21600, DIP0003EnforcementHeight = 2\<rparr>"

definition demo_trigger :: CSuperblock where
  "demo_trigger = \<lparr>sb_nBlockHeight = 21600, sb_hasObject = True, sb_fCachedFunding = True, sb_nYesCount = 30,
     vecPayments = [\<lparr>pay_script = [0x51], pay_nAmount = 100 * COIN\<rparr>]\<rparr>"

definition demo_payment_env :: payment_env where
  "demo_payment_env = \<lparr>IsSynced = True, fDisableGovernance = False, AreSuperblocksEnabled = True, ActiveTriggers = [Some demo_trigger]\<rparr>"

lemma demo_triggered:
  assumes "IsValidBlockHeight params 21600"
  shows "IsSuperblockTriggered params (ActiveTriggers demo_payment_env) 21600"
    "GetBestSuperblock params (ActiveTriggers demo_payment_env) 21600 = Some demo_trigger"
  using assms by (simp_all add: IsSuperblockTriggered_def GetBestSuperblock_def best_superblock_step_def demo_payment_env_def demo_trigger_def)

theorem superblock_deadlock_witness:
  "\<not> (IsBlockValueValid main_rewards demo_payment_env tx_empty 21600 (9 * COIN) = Some True \<and>
      IsBlockPayeeValid main_rewards demo_payment_env None tx_empty 21600 (9 * COIN) = Some True)"
proof -
  have v: "IsValidBlockHeight main_rewards 21600"
    by (simp add: IsValidBlockHeight_def main_rewards_def)
  show ?thesis
    using superblock_deadlock [of main_rewards 21600 demo_payment_env demo_trigger "\<lparr>pay_script = [0x51], pay_nAmount = 100 * COIN\<rparr>" "9 * COIN"]
      demo_triggered [OF v]
    by (simp add: main_rewards_def demo_payment_env_def demo_trigger_def COIN_def)
qed

subsection \<open>The coinbase of a new block\<close>

definition payment_out :: "CGovernancePayment \<Rightarrow> CTxOut" where
  "payment_out p = \<lparr>nValue = pay_nAmount p, scriptPubKey = pay_script p\<rparr>"

lemma find_payment_le:
  "i \<le> k \<Longrightarrow> k < length outs \<Longrightarrow> outs ! k = payment_out p \<Longrightarrow> \<exists>j. find_payment p i (drop i outs) = Some j \<and> j \<le> k"
proof (induction "k - i" arbitrary: i)
  case 0
  then show ?case
    by (simp add: payment_out_def flip: Cons_nth_drop_Suc)
next
  case (Suc n)
  then have "n = k - Suc i" "Suc i \<le> k" "i < length outs"
    by simp_all
  from Suc.hyps(1) [OF this(1,2)] this(3) Suc.prems show ?case
    by (auto simp flip: Cons_nth_drop_Suc)
qed

lemma match_payments_suffix:
  "i \<le> k \<Longrightarrow> drop k outs = map payment_out ps \<Longrightarrow> match_payments outs i ps"
proof (induction ps arbitrary: i k)
  case (Cons p ps)
  have k: "k < length outs" "outs ! k = payment_out p" "drop (Suc k) outs = map payment_out ps"
    using Cons.prems(2) by (metis drop_all list.distinct(1) list.simps(9) not_le, metis Cons_nth_drop_Suc drop_all list.distinct(1) list.inject list.simps(9) not_le,
        metis Cons_nth_drop_Suc drop_all list.distinct(1) list.inject list.simps(9) not_le)
  obtain j where j: "find_payment p i (drop i outs) = Some j" "j \<le> k"
    using find_payment_le [OF Cons.prems(1) k(1,2)] by blast
  show ?case
    using Cons.IH [OF _ k(3), of j] j by simp
qed simp

lemma fold_subtract:
  "os \<noteq> [] \<Longrightarrow> fold (\<lambda>txout outs. outs[0 := (outs ! 0)\<lparr>nValue := nValue (outs ! 0) - nValue txout\<rparr>]) mn os =
     (hd os)\<lparr>nValue := nValue (hd os) - total_value mn\<rparr> # tl os"
  by (induction mn arbitrary: os) (auto simp: neq_Nil_conv algebra_simps)

lemma payments_total: "GetPaymentsTotalAmount s = total_value (map payment_out (vecPayments s))"
proof -
  have "fold (\<lambda>p n. n + pay_nAmount p) ps a = a + total_value (map payment_out ps)" for ps a
    by (induction ps arbitrary: a) (simp_all add: payment_out_def)
  then show ?thesis
    by (simp add: GetPaymentsTotalAmount_def)
qed

definition operator_ok :: "mn_payee option \<Rightarrow> bool" where
  "operator_ok dmnPayee = (case dmnPayee of None \<Rightarrow> True | Some payee \<Rightarrow> 0 \<le> nOperatorReward payee \<and> nOperatorReward payee \<le> 10000)"

lemma masternode_outs:
  assumes "GetBlockTxOuts dmnPayee h reward = Some outs" "operator_ok dmnPayee" "0 \<le> reward" "reward \<le> MAX_MONEY" "reward * 10000 < 2 ^ 63"
  shows "list_all (\<lambda>o'. 0 < nValue o') outs" "total_value outs = GetMasternodePayment h reward"
proof -
  obtain payee where payee: "dmnPayee = Some payee" "0 \<le> nOperatorReward payee" "nOperatorReward payee \<le> 10000"
    using assms(1,2) by (auto simp: GetBlockTxOuts_def operator_ok_def split: option.splits)
  define m where "m = GetMasternodePayment h reward"
  have m: "0 \<le> m" "m \<le> reward"
    using masternode_range [OF assms(3,4)] by (simp_all add: m_def)
  define r where "r = (m * nOperatorReward payee) div 10000"
  have "m * nOperatorReward payee \<le> m * 10000"
    using m(1) payee(3) by (rule mult_left_mono [rotated])
  moreover have "m * 10000 < 2 ^ 63"
    using m(2) assms(5) by simp
  moreover have "0 \<le> m * nOperatorReward payee"
    using m(1) payee(2) by simp
  ultimately have w: "sint (word_of_int (m * nOperatorReward payee) :: u64) = m * nOperatorReward payee" "m * nOperatorReward payee \<le> m * 10000"
    using sint_word_of_int64 [of "m * nOperatorReward payee"] by linarith+
  have s: "sint (word_of_int (m * nOperatorReward payee) :: u64) sdiv 10000 = r"
    using m(1) payee(2) unfolding w(1) by (simp add: r_def signed_divide_int_def sgn_if)
  have r: "0 \<le> r" "r \<le> m"
    using w(2) m payee(2) by (simp_all add: r_def pos_imp_zdiv_nonneg_iff)
  show "list_all (\<lambda>o'. 0 < nValue o') outs" "total_value outs = GetMasternodePayment h reward"
    using assms(1) r m unfolding payee(1) GetBlockTxOuts_def option.case Let_def m_def [symmetric] s by auto
qed

text \<open>
  What the builder of a block starts from: one output with the whole reward, which is small enough for the product with the share of an operator, and amounts whose sum is in the money range. Where a
  superblock is triggered, one of its triggers has more yes than no votes.
\<close>

definition template_ok :: "RewardParams \<Rightarrow> payment_env \<Rightarrow> mn_payee option \<Rightarrow> CTransaction \<Rightarrow> int \<Rightarrow> CAmount \<Rightarrow> bool" where
  "template_ok params env dmnPayee txNew h reward \<longleftrightarrow>
     length (vout txNew) = 1 \<and> nValue (vout txNew ! 0) = reward \<and> 0 \<le> reward \<and> reward \<le> MAX_MONEY \<and> reward * 10000 < 2 ^ 63 \<and> operator_ok dmnPayee \<and>
     0 \<le> nSuperblockCycle params \<and>
     (AreSuperblocksEnabled env \<and> IsSuperblockTriggered params (ActiveTriggers env) h \<longrightarrow>
        (case GetBestSuperblock params (ActiveTriggers env) h of
           None \<Rightarrow> False
         | Some s \<Rightarrow> list_all (\<lambda>p. 0 \<le> pay_nAmount p) (vecPayments s) \<and> reward + GetPaymentsTotalAmount s \<le> MAX_MONEY))"

lemma triggered_height:
  assumes "IsSuperblockTriggered params vecTriggers h"
  shows "IsValidBlockHeight params h" "nSuperblockStartBlock params \<le> h"
  using assms by (auto simp: IsSuperblockTriggered_def IsValidBlockHeight_def split: if_splits)

lemma FillBlockPayments_vout:
  assumes "template_ok params env dmnPayee txNew h reward"
  defines "triggered \<equiv> AreSuperblocksEnabled env \<and> IsSuperblockTriggered params (ActiveTriggers env) h"
    and "sb \<equiv> GetBestSuperblock params (ActiveTriggers env) h"
    and "mn \<equiv> (case GetBlockTxOuts dmnPayee h reward of None \<Rightarrow> [] | Some outs \<Rightarrow> outs)"
  shows "vout (FillBlockPayments params env dmnPayee txNew h reward) =
    (hd (vout txNew))\<lparr>nValue := reward - total_value mn\<rparr> # mn @ (if triggered then map payment_out (vecPayments (the sb)) else [])"
proof -
  obtain out where out: "vout txNew = [out]" "nValue out = reward"
    using assms(1) by (auto simp: template_ok_def length_Suc_conv)
  have "triggered \<Longrightarrow> sb \<noteq> None"
    using assms(1) by (auto simp: template_ok_def triggered_def sb_def split: option.splits)
  then show ?thesis
    using out by (auto simp: FillBlockPayments_def fold_subtract GetSuperblockPayments_def payment_out_def
        mn_def [symmetric] triggered_def [symmetric] sb_def [symmetric] split: option.splits)
qed

lemma FillBlockPayments_values:
  assumes "template_ok params env dmnPayee txNew h reward"
  defines "triggered \<equiv> AreSuperblocksEnabled env \<and> IsSuperblockTriggered params (ActiveTriggers env) h"
    and "extra \<equiv> GetPaymentsTotalAmount (the (GetBestSuperblock params (ActiveTriggers env) h))"
  shows "GetValueOut (FillBlockPayments params env dmnPayee txNew h reward) = Some (reward + (if triggered then extra else 0))"
proof -
  define mn where "mn = (case GetBlockTxOuts dmnPayee h reward of None \<Rightarrow> [] | Some outs \<Rightarrow> outs)"
  define sb where "sb = (if triggered then map payment_out (vecPayments (the (GetBestSuperblock params (ActiveTriggers env) h))) else [])"
  have r: "0 \<le> reward" "reward \<le> MAX_MONEY" "operator_ok dmnPayee" "reward * 10000 < 2 ^ 63"
    using assms(1) by (simp_all add: template_ok_def)
  have mn: "list_all (\<lambda>o'. 0 \<le> nValue o') mn" "total_value mn \<le> reward"
  proof (atomize (full), cases "GetBlockTxOuts dmnPayee h reward")
    case (Some outs)
    then show "list_all (\<lambda>o'. 0 \<le> nValue o') mn \<and> total_value mn \<le> reward"
      using masternode_outs [OF Some r(3,1,2,4)] masternode_range(2) [OF r(1,2), of h] by (auto simp: mn_def list_all_iff less_imp_le)
  qed (simp add: mn_def r)
  have sb: "list_all (\<lambda>o'. 0 \<le> nValue o') sb" "total_value sb = (if triggered then extra else 0)" "reward + total_value sb \<le> MAX_MONEY"
    using assms(1) r(2) unfolding template_ok_def triggered_def [symmetric]
    by (auto simp: sb_def extra_def payments_total list_all_iff payment_out_def split: option.splits)
  have v: "vout (FillBlockPayments params env dmnPayee txNew h reward) =
      (hd (vout txNew))\<lparr>nValue := reward - total_value mn\<rparr> # mn @ sb"
    using FillBlockPayments_vout [OF assms(1)] by (simp add: mn_def sb_def triggered_def)
  show ?thesis
    using GetValueOut_loop_total [of 0 "vout (FillBlockPayments params env dmnPayee txNew h reward)"] mn sb
    unfolding GetValueOut_def v by simp
qed

lemma FillBlockPayments_superblock:
  assumes "template_ok params env dmnPayee txNew h reward" "AreSuperblocksEnabled env" "IsSuperblockTriggered params (ActiveTriggers env) h"
    and "GetPaymentsTotalAmount (the (GetBestSuperblock params (ActiveTriggers env) h)) \<le> GetPaymentsLimit params h"
  shows "manager_IsValid params (ActiveTriggers env) (FillBlockPayments params env dmnPayee txNew h reward) h reward = Some True"
proof -
  obtain s where s: "GetBestSuperblock params (ActiveTriggers env) h = Some s" "GetPaymentsTotalAmount s \<le> GetPaymentsLimit params h"
    using assms by (auto simp: template_ok_def split: option.splits)
  let ?tx = "FillBlockPayments params env dmnPayee txNew h reward"
  have "\<exists>outs. vout ?tx = outs @ map payment_out (vecPayments s)"
    unfolding FillBlockPayments_vout [OF assms(1)] using assms(2,3) s(1) by (simp flip: append_Cons)
  then obtain outs where v: "vout ?tx = outs @ map payment_out (vecPayments s)"
    by blast
  have "match_payments (vout ?tx) 0 (vecPayments s)"
    by (rule match_payments_suffix [of _ "length outs"]) (simp_all add: v)
  then show ?thesis
    using FillBlockPayments_values [OF assms(1)] assms(2,3) s triggered_height(1) [OF assms(3)]
    by (simp add: manager_IsValid_def superblock_IsValid_def v)
qed

text \<open>
  C20: when a node accepts the coinbase that \<open>FillBlockPayments\<close> completes from one output with the block reward, at a height from the start of superblocks on. With the same view of triggers and masternodes, the
  two checks of \<open>ConnectBlock\<close> pass if and only if no superblock is triggered or its payments stay within what a superblock may add to the reward: nothing before the start of old
  budgets, which on the main network is never, and the limit of \<open>GetPaymentsLimit\<close> from then on. The amount of the coinbase itself and the payments to the masternode and its operator never fail.
\<close>

theorem template_accepted:
  assumes "template_ok params env dmnPayee txNew h reward" "nSuperblockStartBlock params \<le> h"
  shows "IsBlockValueValid params env (FillBlockPayments params env dmnPayee txNew h reward) h reward = Some True \<and>
      IsBlockPayeeValid params env dmnPayee (FillBlockPayments params env dmnPayee txNew h reward) h reward = Some True \<longleftrightarrow>
    (AreSuperblocksEnabled env \<and> IsSuperblockTriggered params (ActiveTriggers env) h \<longrightarrow>
       GetPaymentsTotalAmount (the (GetBestSuperblock params (ActiveTriggers env) h)) \<le> superblock_extra params h)"
proof -
  let ?tx = "FillBlockPayments params env dmnPayee txNew h reward"
  let ?triggered = "AreSuperblocksEnabled env \<and> IsSuperblockTriggered params (ActiveTriggers env) h"
  let ?extra = "GetPaymentsTotalAmount (the (GetBestSuperblock params (ActiveTriggers env) h))"
  have lim: "0 \<le> GetPaymentsLimit params h"
    using assms(1) by (intro payments_limit_nonneg) (simp add: template_ok_def)
  have "filter (\<lambda>txout. txout \<notin> set (vout ?tx)) outs = []" if "GetBlockTxOuts dmnPayee h reward = Some outs" for outs
    using FillBlockPayments_vout [OF assms(1)] that by auto
  then have mn: "IsTransactionValid params dmnPayee ?tx h reward = Some True"
    by (auto simp: IsTransactionValid_def simp del: filter_empty_conv split: option.splits)
  show ?thesis
  proof (cases ?triggered)
    case True
    then have v: "GetValueOut ?tx = Some (reward + ?extra)" "IsValidBlockHeight params h"
      using FillBlockPayments_values [OF assms(1)] triggered_height(1) [of params "ActiveTriggers env" h] by simp_all
    show ?thesis
    proof (cases "?extra \<le> superblock_extra params h")
      case fits: True
      then have "?extra \<le> GetPaymentsLimit params h"
        using lim by (auto simp: superblock_extra_def split: if_splits)
      then show ?thesis
        using FillBlockPayments_superblock [OF assms(1)] True fits v assms(2) mn
        by (auto simp: IsBlockValueValid_def IsBlockPayeeValid_def superblock_extra_def Let_def split: if_splits)
    next
      case False
      then show ?thesis
        using True v assms(2) by (auto simp: IsBlockValueValid_def superblock_extra_def Let_def split: if_splits)
    qed
  next
    case False
    then show ?thesis
      using FillBlockPayments_values [OF assms(1)] assms(2) lim mn by (auto simp: IsBlockValueValid_def IsBlockPayeeValid_def Let_def)
  qed
qed

lemma demo_template:
  assumes "IsValidBlockHeight params 21600" "nSuperblockCycle params = 21600"
  shows "template_ok params demo_payment_env (Some \<lparr>nOperatorReward = 500, scriptPayout = [0x52], scriptOperatorPayout = [0x53]\<rparr>)
    (tx_empty\<lparr>vout := [\<lparr>nValue = 9 * COIN, scriptPubKey = [0x54]\<rparr>]\<rparr>) 21600 (9 * COIN)"
  unfolding template_ok_def demo_triggered [OF assms(1)] option.case operator_ok_def
  using assms(2) by (simp add: COIN_def MAX_MONEY_def GetPaymentsTotalAmount_def demo_trigger_def)

theorem template_accepted_witness:
  "(IsBlockValueValid (main_rewards\<lparr>nBudgetPaymentsStartBlock := 10000\<rparr>) demo_payment_env
      (FillBlockPayments (main_rewards\<lparr>nBudgetPaymentsStartBlock := 10000\<rparr>) demo_payment_env
        (Some \<lparr>nOperatorReward = 500, scriptPayout = [0x52], scriptOperatorPayout = [0x53]\<rparr>)
        (tx_empty\<lparr>vout := [\<lparr>nValue = 9 * COIN, scriptPubKey = [0x54]\<rparr>]\<rparr>) 21600 (9 * COIN)) 21600 (9 * COIN) = Some True) \<and>
   \<not> (IsBlockValueValid main_rewards demo_payment_env
      (FillBlockPayments main_rewards demo_payment_env
        (Some \<lparr>nOperatorReward = 500, scriptPayout = [0x52], scriptOperatorPayout = [0x53]\<rparr>)
        (tx_empty\<lparr>vout := [\<lparr>nValue = 9 * COIN, scriptPubKey = [0x54]\<rparr>]\<rparr>) 21600 (9 * COIN)) 21600 (9 * COIN) = Some True \<and>
      IsBlockPayeeValid main_rewards demo_payment_env (Some \<lparr>nOperatorReward = 500, scriptPayout = [0x52], scriptOperatorPayout = [0x53]\<rparr>)
      (FillBlockPayments main_rewards demo_payment_env
        (Some \<lparr>nOperatorReward = 500, scriptPayout = [0x52], scriptOperatorPayout = [0x53]\<rparr>)
        (tx_empty\<lparr>vout := [\<lparr>nValue = 9 * COIN, scriptPubKey = [0x54]\<rparr>]\<rparr>) 21600 (9 * COIN)) 21600 (9 * COIN) = Some True)"
proof -
  let ?params = "main_rewards\<lparr>nBudgetPaymentsStartBlock := 10000\<rparr>"
  have v: "IsValidBlockHeight ?params 21600" "IsValidBlockHeight main_rewards 21600"
    by (simp_all add: IsValidBlockHeight_def main_rewards_def)
  have c: "nSuperblockCycle ?params = 21600" "nSuperblockCycle main_rewards = 21600" "nSuperblockStartBlock ?params \<le> 21600" "nSuperblockStartBlock main_rewards \<le> 21600"
    by (simp_all add: main_rewards_def)
  have "GetPaymentsTotalAmount demo_trigger \<le> superblock_extra ?params 21600"
    by (simp add: GetPaymentsTotalAmount_def demo_trigger_def superblock_extra_def GetPaymentsLimit_def v) (simp add: main_rewards_def GetBlockSubsidy_def COIN_def)
  moreover have "\<not> GetPaymentsTotalAmount demo_trigger \<le> superblock_extra main_rewards 21600" "AreSuperblocksEnabled demo_payment_env"
    by (simp_all add: GetPaymentsTotalAmount_def demo_trigger_def superblock_extra_def main_rewards_def COIN_def demo_payment_env_def)
  ultimately show ?thesis
    using template_accepted [OF demo_template [OF v(1) c(1)] c(3)] template_accepted [OF demo_template [OF v(2) c(2)] c(4)]
      demo_triggered [OF v(1)] demo_triggered [OF v(2)] by simp
qed

end
