(* ===== verification/Spec2Isabelle.thy ===== *)
theory Spec2Isabelle
  imports Hmac Siphash Merkleblock Versionbits Sighash Rewards
begin

text \<open>
  A verification library for StakeCubeCoin Core (C++ sources under src/src).

  \<^bold>\<open>Parts and theories.\<close>

  \<^item> \<open>Prelude\<close>: type synonyms for the machine integers, generic word and list lemmas, the
    development's theorem collections.
  \<^item> \<open>Arith_Uint256\<close> models \<open>base_uint\<close> of arith_uint256.h and arith_uint256.cpp: a 256-bit number is
    the list of its eight 32-bit limbs and every operator is the loop of the source. \<open>uval\<close> reads the
    number a list of limbs represents; the lemmas show that each operator computes the operation on
    naturals modulo \<open>2 ^ 256\<close>, with division by zero the only error.
  \<^item> \<open>Compact\<close> models \<open>SetCompact\<close>, \<open>GetCompact\<close> (the \<open>nBits\<close> encoding of targets) and the conversions
    between \<open>arith_uint256\<close> and \<open>uint256\<close>.
  \<^item> \<open>Chain\<close> models the block header fields, \<open>CBlockIndex\<close> and \<open>CChain\<close> of chain.h and chain.cpp. Entries of
    the block index live in a store from pointers to records, as the code compares them by address.
    \<open>wf_store\<close> is the invariant of the block tree and \<open>chain_ok\<close> the one of the active chain.
  \<^item> \<open>Pow\<close> models pow.cpp: every retargeting rule, the dispatch between them and the check of a hash.
  \<^item> \<open>Serialize\<close> models the stream formats of serialize.h. A reader takes the bytes left and returns a value
    and the rest, or \<open>None\<close> for the stream exception. The locales \<open>codec\<close> and \<open>canonical_codec\<close> state what a
    pair of writer and reader promises; they are interpreted on every format, and a vector of a format
    with the laws has them again.
  \<^item> \<open>Transaction\<close> models primitives/transaction.h: outpoints, inputs, outputs, transactions, their wire
    format, totals and orders.
  \<^item> \<open>Script\<close> models script/script.h and script/script.cpp: opcodes, instruction parsing, script numbers,
    pushes and script patterns. \<open>Interpreter\<close> models script/interpreter.cpp: one definition per opcode case,
    \<open>eval_op\<close> for the switch, \<open>eval_loop\<close> for the loop and \<open>VerifyScript\<close>.
  \<^item> \<open>Compressor\<close> models compressor.h and compressor.cpp. \<open>Coins\<close> models coins.h, coins.cpp and the coin
    database of txdb.cpp: a view is a database or a cache over a view. \<open>utxo\<close> is the abstract set of unspent
    outputs and \<open>view_inv\<close> the invariant of the DIRTY and FRESH flags; \<open>coins_run\<close> is any run of operations.
  \<^item> \<open>Hasher\<close> models crypto/common.h and the byte buffer that all block hashers share; the locale \<open>block_hasher\<close> shows
    once that writes in any pieces hash their concatenation. \<open>Sha2\<close>, \<open>Sha1\<close> and \<open>Ripemd160\<close> model the unrolled
    transformations of crypto/sha256.cpp, sha512.cpp, sha1.cpp and ripemd160.cpp and interpret the locale; each is shown equal to the
    published algorithm. \<open>Sha256d64\<close> models the constant-folded double hash of 64-byte blocks. \<open>Hash\<close> and \<open>Hmac\<close> model
    hash.h, hash.cpp, HMAC, HKDF and PBKDF2, and \<open>Siphash\<close> crypto/siphash.cpp.
  \<^item> \<open>Merkle\<close> models consensus/merkle.cpp and \<open>Merkleblock\<close> the partial trees of merkleblock.cpp: what a root binds, and what a
    peer that claims the right number of transactions can make a light client believe. Their claims are stated up to collisions of the two computations at hand.
  \<^item> \<open>Tx_Verify\<close> models consensus/validation.h, tx_check.cpp and tx_verify.cpp; \<open>Sighash\<close> the signature hash and the transaction
    checker of script/interpreter.cpp, which is an environment of \<open>Interpreter\<close>. \<open>Versionbits\<close> models versionbits.cpp and the deployments
    of the main network; \<open>bip9_state\<close> is the state machine that the cached computation refines.
  \<^item> \<open>Rewards\<close> models the subsidy, masternode/payments.cpp and the superblocks of governance/classes.cpp.

  \<^bold>\<open>Conventions.\<close> A C++ \<open>assert\<close>, a dereferenced null pointer and a thrown exception are the value \<open>None\<close>
  of an option result. A pointer result is an option inside that. Loops that follow \<open>pprev\<close> carry fuel; the
  callers give them the height of their start plus two, which the lemmas show to be enough. Words keep their width where the code computes with unsigned
  integers. Signed values are unbounded integers, heights among them, which the invariant of the version bits keeps below \<open>INT_MAX\<close>; where the code can leave the range of a type, as
  in the retargeting rules, in the threshold of a deployment and in the reward of an operator, the wrap-around is written out.

  \<^bold>\<open>Hypotheses on other code.\<close> The verification of a signature and the decompression of a public key (secp256k1), the multi-way variants of SHA-256, the proof-of-work hashes,
  the event horizon of the Kimoto gravity well, the votes on governance objects and the list of masternodes are arguments. Collisions of hash functions are never assumed away: the theorems about Merkle trees say
  which two inputs collide otherwise.

  \<^bold>\<open>Not modelled.\<close> Connecting, disconnecting and storing blocks (the greater part of validation.cpp), the memory pool, mining, the network, masternode lists, quorums and
  special transactions, governance objects, CoinJoin, the X11 and ProgPoW hash functions, the vector variants of SHA-256, keys and addresses, the wallet, RPC, the graphical interface, databases and start-up: they are
  input and output, concurrent, calls into third-party code, or not part of the consensus rules. Parsing of governance objects and votes is not modelled beyond the triggers that a superblock needs.
\<close>

end
